(* ===== verification/Axyl_Prelude.thy ===== *)
theory Axyl_Prelude
  imports Main "HOL-Library.Multiset"
begin

text \<open>
  Shared ground of the development: the identifiers of the node's data model, the outcome of a
  Rust call that may return an error or panic, ordered maps (Rust's \<open>BTreeMap\<close>) as sorted
  association lists with their interface as a locale, and the stable \<open>sort_by\<close> of Rust slices.
  The release profile of the workspace sets \<open>overflow-checks = true\<close> and \<open>panic = "abort"\<close>, so an
  arithmetic overflow, a failed \<open>assert!\<close> and a failed \<open>expect\<close> are all the same event here: a panic.
\<close>

section \<open>Identifiers\<close>

text \<open>
  Digests, authority identifiers and BLS keys are fixed arrays of bytes that the code only
  compares; they are represented by the number their bytes spell in big-endian order, so that the
  order on numbers is the lexicographic order on the bytes that \<open>Ord\<close> derives.
\<close>

type_synonym digest = nat
type_synonym auth_id = nat
type_synonym bls_key = nat
type_synonym signature = nat
type_synonym address = nat
type_synonym round = nat
type_synonym epoch = nat
type_synonym voting_power = nat
type_synonym worker_id = nat
type_synonym timestamp = nat

section \<open>Errors and panics\<close>

datatype 'e fault = Err 'e | Panic

type_synonym ('e, 'a) result = "'e fault + 'a"

named_theorems panic_free \<open>facts that a call of the code returns\<close>
named_theorems keeps \<open>facts that an operation keeps an invariant\<close>

text \<open>The largest value of a \<open>u64\<close>, plus one: the bound below which an addition does not panic.\<close>

definition u64_bound :: nat where
  "u64_bound = 2 ^ 64"

definition checked_u64 :: "nat \<Rightarrow> nat option" where
  "checked_u64 n = (if n < u64_bound then Some n else None)"

lemma checked_u64_Some_iff [simp]: "checked_u64 n = Some m \<longleftrightarrow> m = n \<and> n < u64_bound"
  by (auto simp: checked_u64_def)

lemma checked_u64_None_iff [simp]: "checked_u64 n = None \<longleftrightarrow> u64_bound \<le> n"
  by (auto simp: checked_u64_def)

section \<open>Ordered maps\<close>

subsection \<open>The interface\<close>

text \<open>
  What the components rely on when they keep data in a \<open>BTreeMap\<close> (or in a \<open>HashMap\<close> whose
  iteration order does not matter): lookup after each update, and that updates keep the
  representation invariant.
\<close>

locale ordered_map =
  fixes empty_map :: "'m"
    and get_map :: "'m \<Rightarrow> 'k \<Rightarrow> 'v option"
    and insert_map :: "'k \<Rightarrow> 'v \<Rightarrow> 'm \<Rightarrow> 'm"
    and remove_map :: "'k \<Rightarrow> 'm \<Rightarrow> 'm"
    and retain_map :: "('k \<Rightarrow> 'v \<Rightarrow> bool) \<Rightarrow> 'm \<Rightarrow> 'm"
    and inv_map :: "'m \<Rightarrow> bool"
  assumes inv_empty: "inv_map empty_map"
    and inv_insert: "inv_map m \<Longrightarrow> inv_map (insert_map k v m)"
    and inv_remove: "inv_map m \<Longrightarrow> inv_map (remove_map k m)"
    and inv_retain: "inv_map m \<Longrightarrow> inv_map (retain_map P m)"
    and get_empty: "get_map empty_map k = None"
    and get_insert: "inv_map m \<Longrightarrow> get_map (insert_map k v m) = (get_map m)(k \<mapsto> v)"
    and get_remove: "inv_map m \<Longrightarrow> get_map (remove_map k m) = (get_map m)(k := None)"
    and get_retain: "inv_map m \<Longrightarrow> get_map (retain_map P m) k =
      (case get_map m k of None \<Rightarrow> None | Some v \<Rightarrow> if P k v then Some v else None)"
begin

lemma insert_map_get_same: "inv_map m \<Longrightarrow> get_map (insert_map k v m) k = Some v"
  by (simp add: get_insert)

lemma insert_map_get_other: "inv_map m \<Longrightarrow> j \<noteq> k \<Longrightarrow> get_map (insert_map k v m) j = get_map m j"
  by (simp add: get_insert)

lemma inv_collect: "inv_map m \<Longrightarrow> inv_map (fold (\<lambda>(k, v). insert_map k v) kvs m)"
  by (induction kvs arbitrary: m) (auto simp: inv_insert)

lemma get_collect:
  "inv_map m \<Longrightarrow> get_map (fold (\<lambda>(k, v). insert_map k v) kvs m) = get_map m ++ map_of (rev kvs)"
proof (induction kvs arbitrary: m)
  case Nil
  then show ?case by simp
next
  case (Cons kv kvs)
  obtain k v where kv: "kv = (k, v)" by (cases kv)
  have "inv_map (insert_map k v m)" by (rule inv_insert) (rule Cons.prems)
  note IH = Cons.IH [OF this]
  have "(get_map m)(k \<mapsto> v) ++ map_of (rev kvs) = get_map m ++ map_of (rev kvs @ [(k, v)])"
    by (simp add: fun_eq_iff map_add_def split: option.split)
  with IH Cons.prems show ?case by (simp add: kv get_insert fun_upd_def)
qed

lemma dom_retain: "inv_map m \<Longrightarrow> dom (get_map (retain_map P m)) \<subseteq> dom (get_map m)"
  by (auto simp: get_retain split: option.splits)

end

subsection \<open>Sorted association lists\<close>

type_synonym ('k, 'v) btree = "('k \<times> 'v) list"

definition bt_inv :: "('k::linorder, 'v) btree \<Rightarrow> bool" where
  "bt_inv m \<longleftrightarrow> sorted_wrt (<) (map fst m)"

definition bt_get :: "('k, 'v) btree \<Rightarrow> 'k \<Rightarrow> 'v option" where
  "bt_get m = map_of m"

fun bt_insert :: "'k::linorder \<Rightarrow> 'v \<Rightarrow> ('k, 'v) btree \<Rightarrow> ('k, 'v) btree" where
  "bt_insert k v [] = [(k, v)]"
| "bt_insert k v ((a, b) # m) =
     (if k < a then (k, v) # (a, b) # m
      else if k = a then (k, v) # m
      else (a, b) # bt_insert k v m)"

definition bt_remove :: "'k \<Rightarrow> ('k, 'v) btree \<Rightarrow> ('k, 'v) btree" where
  "bt_remove k m = filter (\<lambda>(a, _). a \<noteq> k) m"

definition bt_retain :: "('k \<Rightarrow> 'v \<Rightarrow> bool) \<Rightarrow> ('k, 'v) btree \<Rightarrow> ('k, 'v) btree" where
  "bt_retain P m = filter (\<lambda>(k, v). P k v) m"

definition bt_keys :: "('k, 'v) btree \<Rightarrow> 'k list" where
  "bt_keys m = map fst m"

definition bt_values :: "('k, 'v) btree \<Rightarrow> 'v list" where
  "bt_values m = map snd m"

definition bt_first :: "('k, 'v) btree \<Rightarrow> ('k \<times> 'v) option" where
  "bt_first m = (case m of [] \<Rightarrow> None | e # _ \<Rightarrow> Some e)"

definition bt_collect :: "('k::linorder \<times> 'v) list \<Rightarrow> ('k, 'v) btree" where
  "bt_collect kvs = fold (\<lambda>(k, v). bt_insert k v) kvs []"

lemma bt_inv_Nil [simp]: "bt_inv []"
  by (simp add: bt_inv_def)

lemma dom_bt_get: "dom (bt_get m) = fst ` set m"
  by (simp add: bt_get_def dom_map_of_conv_image_fst)

lemma bt_get_Nil [simp]: "bt_get [] k = None"
  by (simp add: bt_get_def)

lemma bt_inv_Cons: "bt_inv ((k, v) # m) \<longleftrightarrow> bt_inv m \<and> (\<forall>j\<in>set (map fst m). k < j)"
  by (auto simp: bt_inv_def)

lemma bt_inv_distinct: "bt_inv m \<Longrightarrow> distinct (map fst m)"
  using strict_sorted_iff bt_inv_def by blast

lemma bt_get_iff: "bt_inv m \<Longrightarrow> bt_get m k = Some v \<longleftrightarrow> (k, v) \<in> set m"
  by (simp add: bt_get_def bt_inv_distinct)

lemma bt_get_None_iff: "bt_get m k = None \<longleftrightarrow> k \<notin> fst ` set m"
  by (simp add: bt_get_def map_of_eq_None_iff)

lemma bt_get_set: "bt_get m k = Some v \<Longrightarrow> (k, v) \<in> set m"
  by (auto simp: bt_get_def dest: map_of_SomeD)

lemma bt_keys_insert: "set (map fst (bt_insert k v m)) = insert k (set (map fst m))"
  by (induction k v m rule: bt_insert.induct) (simp_all add: insert_commute)

lemma bt_inv_insert: "bt_inv m \<Longrightarrow> bt_inv (bt_insert k v m)"
proof (induction m)
  case Nil
  then show ?case by (simp add: bt_inv_def)
next
  case (Cons e m)
  obtain a b where e: "e = (a, b)" by (cases e)
  from Cons.prems have m: "bt_inv m" and lt: "\<forall>j\<in>set (map fst m). a < j"
    by (auto simp: e bt_inv_Cons)
  consider "k < a" | "k = a" | "a < k" by fastforce
  then show ?case
  proof cases
    case 1
    with m lt show ?thesis by (auto simp: e bt_inv_Cons)
  next
    case 2
    with m lt show ?thesis by (auto simp: e bt_inv_Cons)
  next
    case 3
    have "\<forall>j\<in>set (map fst (bt_insert k v m)). a < j"
      using 3 lt by (auto simp del: set_map simp: bt_keys_insert)
    with Cons.IH [OF m] 3 show ?thesis by (auto simp: e bt_inv_Cons)
  qed
qed

lemma bt_get_insert: "bt_inv m \<Longrightarrow> bt_get (bt_insert k v m) = (bt_get m)(k \<mapsto> v)"
proof (induction m)
  case Nil
  then show ?case by (auto simp: bt_get_def)
next
  case (Cons e m)
  obtain a b where e: "e = (a, b)" by (cases e)
  from Cons.prems have "bt_inv m" by (auto simp: e bt_inv_Cons)
  from Cons.IH [OF this] show ?case
    by (auto simp: e bt_get_def fun_eq_iff)
qed

lemma sorted_wrt_map_filter: "sorted_wrt R (map f xs) \<Longrightarrow> sorted_wrt R (map f (filter P xs))"
  by (induction xs) auto

lemma set_bt_insert: "set (bt_insert k v m) \<subseteq> insert (k, v) (set m)"
  by (induction k v m rule: bt_insert.induct) auto

lemma map_of_rev_distinct: "distinct (map fst kvs) \<Longrightarrow> map_of (rev kvs) = map_of kvs"
  by (metis distinct_rev map_of_inject_set rev_map set_rev)

lemma bt_inv_filter: "bt_inv m \<Longrightarrow> bt_inv (filter P m)"
  by (simp add: bt_inv_def sorted_wrt_map_filter)

lemma bt_inv_remove: "bt_inv m \<Longrightarrow> bt_inv (bt_remove k m)"
  by (simp add: bt_remove_def bt_inv_filter)

lemma bt_inv_retain: "bt_inv m \<Longrightarrow> bt_inv (bt_retain P m)"
  by (simp add: bt_retain_def bt_inv_filter)

lemma bt_get_remove: "bt_get (bt_remove k m) = (bt_get m)(k := None)"
  by (induction m) (auto simp: bt_get_def bt_remove_def fun_eq_iff)

lemma bt_get_retain: "bt_inv m \<Longrightarrow> bt_get (bt_retain P m) k =
    (case bt_get m k of None \<Rightarrow> None | Some v \<Rightarrow> if P k v then Some v else None)"
proof (induction m)
  case Nil
  then show ?case by (simp add: bt_retain_def)
next
  case (Cons e m)
  obtain a b where e: "e = (a, b)" by (cases e)
  from Cons.prems have m: "bt_inv m" and a: "a \<notin> fst ` set m"
    by (auto simp: e bt_inv_Cons)
  have "bt_get m a = None" using a by (simp add: bt_get_None_iff)
  with Cons.IH [OF m] show ?case
    by (auto simp: e bt_get_def bt_retain_def)
qed

interpretation bt: ordered_map "[]" bt_get bt_insert bt_remove bt_retain bt_inv
  by unfold_locales
    (simp_all add: bt_inv_insert bt_get_insert bt_get_remove bt_get_retain bt_inv_remove
      bt_inv_retain)

lemmas bt_invs [simp, intro] = bt.inv_insert bt.inv_remove bt.inv_retain

lemma bt_inv_collect [simp, intro]: "bt_inv (bt_collect kvs)"
  unfolding bt_collect_def by (rule bt.inv_collect) simp

lemma bt_get_collect: "bt_get (bt_collect kvs) = map_of (rev kvs)"
  unfolding bt_collect_def by (simp add: bt.get_collect fun_eq_iff map_add_def split: option.split)

text \<open>\<open>get_mut\<close>: the value of a present key is changed in place.\<close>

definition bt_update :: "'k \<Rightarrow> ('v \<Rightarrow> 'v) \<Rightarrow> ('k, 'v) btree \<Rightarrow> ('k, 'v) btree" where
  "bt_update k f m = map (\<lambda>(a, b). if a = k then (a, f b) else (a, b)) m"

lemma bt_get_update: "bt_get (bt_update k f m) j = (if j = k then map_option f (bt_get m k) else bt_get m j)"
  by (induction m) (auto simp: bt_get_def bt_update_def)

lemma bt_keys_update [simp]: "map fst (bt_update k f m) = map fst m"
  by (induction m) (auto simp: bt_update_def)

lemma bt_inv_in_place [simp]: "bt_inv (bt_update k f m) \<longleftrightarrow> bt_inv m"
  by (simp add: bt_inv_def)

lemma bt_ext: "bt_inv m \<Longrightarrow> bt_inv m' \<Longrightarrow> bt_get m = bt_get m' \<Longrightarrow> m = m'"
proof -
  assume inv: "bt_inv m" "bt_inv m'" and eq: "bt_get m = bt_get m'"
  have "e \<in> set m \<longleftrightarrow> e \<in> set m'" for e
    using inv eq bt_get_iff [of m "fst e" "snd e"] bt_get_iff [of m' "fst e" "snd e"] by simp
  then have set: "set m = set m'" by blast
  have "sorted (map fst m)" "sorted (map fst m')"
    using inv by (auto simp: bt_inv_def strict_sorted_iff)
  moreover have "inj_on fst (set m \<union> set m')"
    using set bt_inv_distinct [OF inv(1)] by (simp add: distinct_map)
  ultimately show "m = m'"
    using set inv by (metis bt_inv_distinct distinct_map map_sorted_distinct_set_unique)
qed

section \<open>Stable sorting\<close>

lemma fold_max_nat: "fold max xs (a :: nat) = Max (insert a (set xs))"
  using Max.set_eq_fold [of a xs] by simp

lemma sorted_last_ge: "sorted (map f xs) \<Longrightarrow> x \<in> set xs \<Longrightarrow> f x \<le> f (last xs)"
  by (induction xs) auto

text \<open>
  Rust's \<open>sort_by\<close> and \<open>sort_by_key\<close> are stable: an element goes before the first later one that it
  does not exceed. The comparison is a reflexive "not after".
\<close>

fun insert_by :: "('a \<Rightarrow> 'a \<Rightarrow> bool) \<Rightarrow> 'a \<Rightarrow> 'a list \<Rightarrow> 'a list" where
  "insert_by le x [] = [x]"
| "insert_by le x (y # ys) = (if le x y then x # y # ys else y # insert_by le x ys)"

fun sort_by :: "('a \<Rightarrow> 'a \<Rightarrow> bool) \<Rightarrow> 'a list \<Rightarrow> 'a list" where
  "sort_by le [] = []"
| "sort_by le (x # xs) = insert_by le x (sort_by le xs)"

definition total_preorder :: "('a \<Rightarrow> 'a \<Rightarrow> bool) \<Rightarrow> bool" where
  "total_preorder le \<longleftrightarrow> (\<forall>x y. le x y \<or> le y x) \<and> (\<forall>x y z. le x y \<longrightarrow> le y z \<longrightarrow> le x z)"

lemma mset_insert_by [simp]: "mset (insert_by le x ys) = add_mset x (mset ys)"
  by (induction ys) auto

lemma mset_sort_by [simp]: "mset (sort_by le xs) = mset xs"
  by (induction xs) auto

lemma set_sort_by [simp]: "set (sort_by le xs) = set xs"
  by (metis mset_sort_by set_mset_mset)

lemma set_insert_by [simp]: "set (insert_by le x ys) = insert x (set ys)"
  by (metis mset_insert_by set_mset_add_mset_insert set_mset_mset)

lemma length_sort_by [simp]: "length (sort_by le xs) = length xs"
  by (metis mset_sort_by size_mset)

lemma distinct_sort_by [simp]: "distinct (sort_by le xs) \<longleftrightarrow> distinct xs"
  by (metis distinct_count_atmost_1 mset_sort_by set_sort_by)

lemma sorted_insert_by:
  assumes "total_preorder le" and "sorted_wrt le ys"
  shows "sorted_wrt le (insert_by le x ys)"
  using assms(2)
proof (induction ys)
  case Nil
  then show ?case by simp
next
  case (Cons y ys)
  from assms(1) have total: "\<not> le x y \<Longrightarrow> le y x" and trans: "\<And>a b c. le a b \<Longrightarrow> le b c \<Longrightarrow> le a c"
    unfolding total_preorder_def by blast+
  from Cons show ?case
    using total trans [of x y] by auto
qed

lemma sorted_sort_by: "total_preorder le \<Longrightarrow> sorted_wrt le (sort_by le xs)"
  by (induction xs) (auto intro: sorted_insert_by)

text \<open>
  Where no two different elements are equivalent in the order, the result depends only on the
  elements: this is what makes an iteration over a \<open>HashMap\<close> deterministic after a sort.
\<close>

lemma sorted_wrt_unique:
  assumes anti: "\<And>x y. x \<in> set xs \<Longrightarrow> y \<in> set xs \<Longrightarrow> le x y \<Longrightarrow> le y x \<Longrightarrow> x = y"
    and "sorted_wrt le xs" "sorted_wrt le ys" "mset xs = mset ys"
  shows "xs = ys"
  using assms
proof (induction xs arbitrary: ys)
  case Nil
  then show ?case by simp
next
  case (Cons x xs)
  from Cons.prems(4) obtain y ys' where ys: "ys = y # ys'" by (cases ys) auto
  have "set (x # xs) = set ys" using Cons.prems(4) by (metis set_mset_mset)
  then have mem: "y \<in> set (x # xs)" "x \<in> set (y # ys')" by (auto simp: ys)
  have "x = y"
  proof (rule ccontr)
    assume "x \<noteq> y"
    with mem have "y \<in> set xs" "x \<in> set ys'" by auto
    with Cons.prems(2,3) have "le x y" "le y x" by (auto simp: ys)
    with Cons.prems(1) mem have "x = y" by simp
    with \<open>x \<noteq> y\<close> show False by simp
  qed
  moreover have "xs = ys'"
    using Cons.prems \<open>x = y\<close> by (intro Cons.IH) (auto simp: ys)
  ultimately show ?case by (simp add: ys)
qed

lemma sort_by_cong_mset:
  assumes "total_preorder le" "mset xs = mset ys"
    and "\<And>x y. x \<in> set xs \<Longrightarrow> y \<in> set xs \<Longrightarrow> le x y \<Longrightarrow> le y x \<Longrightarrow> x = y"
  shows "sort_by le xs = sort_by le ys"
  using assms by (intro sorted_wrt_unique [where le = le]) (auto intro: sorted_sort_by)

lemma sort_by_cong_set:
  assumes "total_preorder le" "set xs = set ys" "distinct xs" "distinct ys"
    and "\<And>x y. x \<in> set xs \<Longrightarrow> y \<in> set xs \<Longrightarrow> le x y \<Longrightarrow> le y x \<Longrightarrow> x = y"
  shows "sort_by le xs = sort_by le ys"
  using assms by (intro sort_by_cong_mset) (auto simp: set_eq_iff_mset_eq_distinct)

end
