(* ===== verification/Committee.thy ===== *)
theory Committee
  imports Axyl_Prelude
begin

text \<open>
  The committee of validators, from \<open>crates/infrastructure/types/src/committee.rs\<close>: authorities,
  the committee with its secondary index and its thresholds, the builder and the lookahead.
  Deriving an identifier hashes the BLS key with a third-party hash, so the hash is the
  parameter \<open>derive_id\<close> of the definitions that use it. The shared quorum arithmetic is the
  locale \<open>quorum_system\<close>, interpreted here on the committee's own operations.
\<close>

section \<open>Data\<close>

record p2p_node =
  network_address :: nat
  network_key :: nat

record bootstrap_server =
  bs_primary :: p2p_node
  bs_worker :: p2p_node

definition bootstrap_server_new :: "p2p_node \<Rightarrow> p2p_node \<Rightarrow> bootstrap_server" where
  "bootstrap_server_new primary_node worker_node =
     \<lparr>bs_primary = primary_node, bs_worker = worker_node\<rparr>"

record authority =
  protocol_key :: bls_key
  auth_voting_power :: voting_power
  execution_address :: address
  auth_ident :: auth_id

definition authority_new ::
  "(bls_key \<Rightarrow> auth_id) \<Rightarrow> bls_key \<Rightarrow> voting_power \<Rightarrow> address \<Rightarrow> authority" where
  "authority_new derive_id key stake addr =
     \<lparr>protocol_key = key, auth_voting_power = stake, execution_address = addr,
      auth_ident = derive_id key\<rparr>"

record committee =
  authorities_map :: "(bls_key, authority) btree"
  authorities_by_id :: "(auth_id, authority) btree"
  committee_epoch :: epoch
  quorum_threshold :: voting_power
  validity_threshold :: voting_power
  bootstrap_servers :: "(bls_key, bootstrap_server) btree"

section \<open>Thresholds\<close>

text \<open>\<open>Iterator::sum\<close> over \<open>u64\<close> panics on overflow under the workspace's release profile.\<close>

fun sum_u64 :: "nat list \<Rightarrow> nat \<Rightarrow> nat option" where
  "sum_u64 [] acc = Some acc"
| "sum_u64 (x # xs) acc =
     (case checked_u64 (acc + x) of None \<Rightarrow> None | Some acc' \<Rightarrow> sum_u64 xs acc')"

definition total_voting_power :: "committee \<Rightarrow> voting_power option" where
  "total_voting_power c = sum_u64 (map auth_voting_power (bt_values (authorities_map c))) 0"

definition div_ceil :: "nat \<Rightarrow> nat \<Rightarrow> nat" where
  "div_ceil a b = (let q = a div b in if a mod b > 0 then q + 1 else q)"

definition calculate_quorum_threshold :: "committee \<Rightarrow> voting_power option" where
  "calculate_quorum_threshold c =
     (case total_voting_power c of None \<Rightarrow> None
      | Some total_votes \<Rightarrow>
          (case checked_u64 (2 * total_votes) of None \<Rightarrow> None
           | Some d \<Rightarrow> Some (d div 3 + 1)))"

definition calculate_validity_threshold :: "committee \<Rightarrow> voting_power option" where
  "calculate_validity_threshold c =
     (case total_voting_power c of None \<Rightarrow> None
      | Some total_votes \<Rightarrow>
          (let t = div_ceil total_votes 3 in Some (if t = 0 then 1 else t)))"

text \<open>The threshold of a committee whose members all have power 1.\<close>

definition quorum_threshold_members :: "nat \<Rightarrow> nat option" where
  "quorum_threshold_members n =
     (case checked_u64 (2 * n) of None \<Rightarrow> None | Some d \<Rightarrow> Some (d div 3 + 1))"

section \<open>Construction\<close>

definition load :: "committee \<Rightarrow> committee option" where
  "load c =
     (let c1 = c\<lparr>authorities_by_id :=
                  bt_collect (map (\<lambda>a. (auth_ident a, a)) (bt_values (authorities_map c)))\<rparr>
      in case calculate_validity_threshold c1 of None \<Rightarrow> None
         | Some v \<Rightarrow>
             (case calculate_quorum_threshold c1 of None \<Rightarrow> None
              | Some q \<Rightarrow>
                  (if length (authorities_by_id c1) > 1
                   then Some (c1\<lparr>validity_threshold := v, quorum_threshold := q\<rparr>)
                   else None)))"

definition committee_new ::
  "(bls_key, authority) btree \<Rightarrow> epoch \<Rightarrow> (bls_key, bootstrap_server) btree \<Rightarrow> committee option" where
  "committee_new auths e servers =
     (case load \<lparr>authorities_map = auths, authorities_by_id = [], committee_epoch = e,
                 quorum_threshold = 0, validity_threshold = 0, bootstrap_servers = servers\<rparr> of
        None \<Rightarrow> None
      | Some c \<Rightarrow>
          (if length (authorities_by_id c) = length (authorities_map c)
              \<and> Some (validity_threshold c) = calculate_validity_threshold c
              \<and> Some (quorum_threshold c) = calculate_quorum_threshold c
           then Some c else None))"

record committee_builder =
  builder_epoch :: epoch
  builder_authorities :: "(bls_key, authority) btree"
  builder_bootstrap :: "(bls_key, bootstrap_server) btree"

definition builder_new :: "epoch \<Rightarrow> committee_builder" where
  "builder_new e = \<lparr>builder_epoch = e, builder_authorities = [], builder_bootstrap = []\<rparr>"

definition add_authority ::
  "(bls_key \<Rightarrow> auth_id) \<Rightarrow> bls_key \<Rightarrow> voting_power \<Rightarrow> address \<Rightarrow> committee_builder \<Rightarrow>
   committee_builder" where
  "add_authority derive_id key stake addr b =
     b\<lparr>builder_authorities :=
        bt_insert key (authority_new derive_id key stake addr) (builder_authorities b)\<rparr>"

definition add_bootstrap_server ::
  "bls_key \<Rightarrow> p2p_node \<Rightarrow> p2p_node \<Rightarrow> committee_builder \<Rightarrow> committee_builder" where
  "add_bootstrap_server key primary_node worker_node b =
     b\<lparr>builder_bootstrap :=
        bt_insert key (bootstrap_server_new primary_node worker_node) (builder_bootstrap b)\<rparr>"

definition add_authority_and_bootstrap ::
  "(bls_key \<Rightarrow> auth_id) \<Rightarrow> bls_key \<Rightarrow> voting_power \<Rightarrow> p2p_node \<Rightarrow> p2p_node \<Rightarrow> address \<Rightarrow>
   committee_builder \<Rightarrow> committee_builder" where
  "add_authority_and_bootstrap derive_id key stake primary_node worker_node addr b =
     (let b1 = b\<lparr>builder_authorities :=
                  bt_insert key (authority_new derive_id key stake addr) (builder_authorities b)\<rparr>
      in b1\<lparr>builder_bootstrap :=
             bt_insert key (bootstrap_server_new primary_node worker_node)
               (builder_bootstrap b1)\<rparr>)"

definition build :: "committee_builder \<Rightarrow> committee option" where
  "build b = committee_new (builder_authorities b) (builder_epoch b) (builder_bootstrap b)"

text \<open>
  Serde skips the index and the thresholds and derives each identifier again, so decoding what
  was encoded gives the committee with those fields at their defaults until \<open>load\<close> runs.
\<close>

definition serde_authority :: "(bls_key \<Rightarrow> auth_id) \<Rightarrow> authority \<Rightarrow> authority" where
  "serde_authority derive_id a = a\<lparr>auth_ident := derive_id (protocol_key a)\<rparr>"

definition serde_committee :: "(bls_key \<Rightarrow> auth_id) \<Rightarrow> committee \<Rightarrow> committee" where
  "serde_committee derive_id c =
     c\<lparr>authorities_map := map (\<lambda>(k, a). (k, serde_authority derive_id a)) (authorities_map c),
       authorities_by_id := [], quorum_threshold := 0, validity_threshold := 0\<rparr>"

section \<open>Queries\<close>

definition authority :: "committee \<Rightarrow> auth_id \<Rightarrow> authority option" where
  "authority c i = bt_get (authorities_by_id c) i"

definition authority_by_key :: "committee \<Rightarrow> bls_key \<Rightarrow> authority option" where
  "authority_by_key c k = bt_get (authorities_map c) k"

definition authorities :: "committee \<Rightarrow> authority list" where
  "authorities c = bt_values (authorities_by_id c)"

definition is_authority :: "committee \<Rightarrow> auth_id \<Rightarrow> bool" where
  "is_authority c i = (bt_get (authorities_by_id c) i \<noteq> None)"

definition committee_size :: "committee \<Rightarrow> nat" where
  "committee_size c = length (authorities_map c)"

definition voting_power_of_key :: "committee \<Rightarrow> bls_key \<Rightarrow> voting_power" where
  "voting_power_of_key c k =
     (case bt_get (authorities_map c) k of None \<Rightarrow> 0 | Some a \<Rightarrow> auth_voting_power a)"

definition voting_power_by_id :: "committee \<Rightarrow> auth_id \<Rightarrow> voting_power" where
  "voting_power_by_id c i =
     (case bt_get (authorities_by_id c) i of None \<Rightarrow> 0 | Some a \<Rightarrow> auth_voting_power a)"

definition reached_quorum :: "committee \<Rightarrow> voting_power \<Rightarrow> bool" where
  "reached_quorum c p = (p \<ge> quorum_threshold c)"

definition reached_validity :: "committee \<Rightarrow> voting_power \<Rightarrow> bool" where
  "reached_validity c p = (p \<ge> validity_threshold c)"

definition others_primaries_by_id :: "committee \<Rightarrow> auth_id option \<Rightarrow> (auth_id \<times> bls_key) list" where
  "others_primaries_by_id c myself =
     map (\<lambda>(_, a). (auth_ident a, protocol_key a))
       (filter (\<lambda>(_, a). case myself of Some i \<Rightarrow> auth_ident a \<noteq> i | None \<Rightarrow> True)
         (authorities_map c))"

definition others_keys_except :: "committee \<Rightarrow> bls_key \<Rightarrow> bls_key list" where
  "others_keys_except c myself =
     List.map_filter (\<lambda>(_, a). if protocol_key a = myself then None else Some (protocol_key a))
       (authorities_map c)"

definition bls_keys :: "committee \<Rightarrow> bls_key list" where
  "bls_keys c = map protocol_key (bt_values (authorities_map c))"

definition get_bootstrap :: "committee \<Rightarrow> bls_key \<Rightarrow> bootstrap_server option" where
  "get_bootstrap c k = bt_get (bootstrap_servers c) k"

definition number_of_workers :: "committee \<Rightarrow> nat" where
  "number_of_workers c = 1"

text \<open>Fallback committee keys for upcoming epochs.\<close>

definition lookahead_from_entries ::
  "(epoch \<times> bls_key list) list \<Rightarrow> (epoch, bls_key list) btree" where
  "lookahead_from_entries entries = bt_collect (filter (\<lambda>(_, keys). keys \<noteq> []) entries)"

definition lookahead_get :: "(epoch, bls_key list) btree \<Rightarrow> epoch \<Rightarrow> bls_key list option" where
  "lookahead_get l e = bt_get l e"

section \<open>Well-formed committees\<close>

definition committee_ok :: "committee \<Rightarrow> bool" where
  "committee_ok c \<longleftrightarrow>
     bt_inv (authorities_map c)
     \<and> (\<forall>(k, a)\<in>set (authorities_map c). protocol_key a = k)
     \<and> authorities_by_id c =
        bt_collect (map (\<lambda>a. (auth_ident a, a)) (bt_values (authorities_map c)))
     \<and> length (authorities_by_id c) = length (authorities_map c)
     \<and> 1 < length (authorities_map c)
     \<and> calculate_validity_threshold c = Some (validity_threshold c)
     \<and> calculate_quorum_threshold c = Some (quorum_threshold c)"

definition members :: "committee \<Rightarrow> auth_id set" where
  "members c = fst ` set (authorities_by_id c)"

definition total_power :: "committee \<Rightarrow> nat" where
  "total_power c = (\<Sum>i\<in>members c. voting_power_by_id c i)"

lemma thresholds_by_map:
  "calculate_validity_threshold (c\<lparr>authorities_by_id := m, validity_threshold := v,
      quorum_threshold := q\<rparr>) = calculate_validity_threshold c"
  "calculate_quorum_threshold (c\<lparr>authorities_by_id := m, validity_threshold := v,
      quorum_threshold := q\<rparr>) = calculate_quorum_threshold c"
  "calculate_validity_threshold (c\<lparr>authorities_by_id := m\<rparr>) = calculate_validity_threshold c"
  "calculate_quorum_threshold (c\<lparr>authorities_by_id := m\<rparr>) = calculate_quorum_threshold c"
  by (simp_all add: calculate_validity_threshold_def calculate_quorum_threshold_def
      total_voting_power_def)

lemma committee_new_ok: "bt_inv auths \<Longrightarrow> \<forall>(k, a)\<in>set auths. protocol_key a = k \<Longrightarrow> committee_new auths e servers = Some c \<Longrightarrow> committee_ok c"
  by (auto simp: committee_new_def load_def committee_ok_def Let_def thresholds_by_map
      split: option.splits if_splits)

definition builder_ok :: "committee_builder \<Rightarrow> bool" where
  "builder_ok b \<longleftrightarrow> bt_inv (builder_authorities b)
     \<and> (\<forall>(k, a)\<in>set (builder_authorities b). protocol_key a = k)"

lemma builder_ok_new [keeps]: "builder_ok (builder_new e)"
  by (simp add: builder_ok_def builder_new_def)

lemma builder_ok_add [keeps]:
  assumes "builder_ok b"
  shows "builder_ok (add_authority d k p a b)"
    and "builder_ok (add_authority_and_bootstrap d k p n w a b)"
    and "builder_ok (add_bootstrap_server k n w b)"
  using assms set_bt_insert [of k "authority_new d k p a" "builder_authorities b"]
  by (fastforce simp: builder_ok_def add_authority_def add_authority_and_bootstrap_def
      add_bootstrap_server_def Let_def bt_inv_insert authority_new_def)+

lemma build_ok: "builder_ok b \<Longrightarrow> build b = Some c \<Longrightarrow> committee_ok c"
  by (auto simp: build_def builder_ok_def intro: committee_new_ok)

lemma sum_u64_Some: "sum_u64 xs acc = Some t \<Longrightarrow> t = acc + sum_list xs"
  by (induction xs arbitrary: acc) (fastforce simp: add.assoc split: option.splits)+

lemma sum_u64_fits: "acc + sum_list xs < u64_bound \<Longrightarrow> sum_u64 xs acc = Some (acc + sum_list xs)"
proof (induction xs arbitrary: acc)
  case Nil
  then show ?case by simp
next
  case (Cons x xs)
  then have "checked_u64 (acc + x) = Some (acc + x)" by simp
  moreover have "sum_u64 xs (acc + x) = Some (acc + x + sum_list xs)"
    using Cons.prems by (intro Cons.IH) simp
  ultimately show ?case by (simp only: sum_u64.simps option.case) simp
qed

lemma length_bt_collect: "length (bt_collect kvs) = card (fst ` set kvs)"
proof -
  have "distinct (map fst (bt_collect kvs))" by (rule bt_inv_distinct) simp
  then have "length (bt_collect kvs) = card (fst ` set (bt_collect kvs))"
    by (metis distinct_card length_map set_map)
  also have "fst ` set (bt_collect kvs) = fst ` set kvs"
    by (metis bt_get_collect dom_bt_get dom_map_of_conv_image_fst set_rev)
  finally show ?thesis .
qed

lemma distinct_of_card_image: "card (f ` set xs) = length xs \<Longrightarrow> distinct (map f xs)"
  by (metis card_distinct length_map set_map)

lemma committee_ok_distinct_ids:
  assumes "committee_ok c"
  shows "distinct (map auth_ident (bt_values (authorities_map c)))"
proof -
  let ?vs = "bt_values (authorities_map c)"
  have "length (bt_collect (map (\<lambda>a. (auth_ident a, a)) ?vs)) = length ?vs"
    using assms unfolding committee_ok_def bt_values_def by (metis length_map)
  then have "card (auth_ident ` set ?vs) = length ?vs"
    by (simp add: length_bt_collect image_image)
  then show ?thesis by (rule distinct_of_card_image)
qed

text \<open>The index holds every authority of the map under its identifier, and nothing else.\<close>

lemma authority_iff:
  assumes "committee_ok c"
  shows "authority c i = Some a \<longleftrightarrow> a \<in> set (bt_values (authorities_map c)) \<and> auth_ident a = i"
proof -
  let ?kvs = "map (\<lambda>a. (auth_ident a, a)) (bt_values (authorities_map c))"
  have d: "distinct (map fst ?kvs)"
    using committee_ok_distinct_ids [OF assms] by (simp add: comp_def)
  have "authority c = map_of ?kvs"
    using assms d by (auto simp: authority_def committee_ok_def bt_get_collect map_of_rev_distinct)
  with d show ?thesis by (auto simp: map_of_eq_Some_iff)
qed

lemma members_eq:
  "committee_ok c \<Longrightarrow> members c = auth_ident ` set (bt_values (authorities_map c))"
  by (auto simp: members_def committee_ok_def dom_bt_get [symmetric] bt_get_collect
      dom_map_of_conv_image_fst image_image)

lemma authority_in_members: "authority c i = Some a \<Longrightarrow> i \<in> members c"
  by (auto simp: authority_def members_def dest: bt_get_set intro: rev_image_eqI)

lemma members_iff: "i \<in> members c \<longleftrightarrow> is_authority c i"
  by (auto simp: members_def is_authority_def bt_get_None_iff)

lemma finite_members [simp]: "finite (members c)"
  by (simp add: members_def)

lemma card_members: "committee_ok c \<Longrightarrow> card (members c) = committee_size c"
  using committee_ok_distinct_ids [of c]
  by (simp add: members_eq distinct_card [symmetric] committee_size_def bt_values_def
      flip: set_map) (metis distinct_card length_map set_map map_map)

lemma authorities_ok:
  "committee_ok c \<Longrightarrow> a \<in> set (authorities c) \<longleftrightarrow> authority c (auth_ident a) = Some a"
proof -
  assume ok: "committee_ok c"
  then have inv: "bt_inv (authorities_by_id c)" by (simp add: committee_ok_def)
  have "a \<in> set (authorities c) \<longleftrightarrow> (\<exists>i. authority c i = Some a)"
    using inv by (auto simp: authorities_def bt_values_def authority_def bt_get_iff intro: rev_image_eqI)
  also have "\<dots> \<longleftrightarrow> authority c (auth_ident a) = Some a"
    using authority_iff [OF ok] by auto
  finally show ?thesis .
qed

lemma length_authorities: "committee_ok c \<Longrightarrow> length (authorities c) = committee_size c"
  unfolding authorities_def bt_values_def committee_ok_def committee_size_def by (metis length_map)

lemma map_ident_authorities: "committee_ok c \<Longrightarrow> map auth_ident (authorities c) = bt_keys (authorities_by_id c)"
proof -
  assume ok: "committee_ok c"
  have "auth_ident a = i" if "(i, a) \<in> set (authorities_by_id c)" for i a
    using that ok authority_iff [OF ok, of i a]
    by (simp add: authority_def committee_ok_def bt_get_iff)
  then show ?thesis by (auto simp: authorities_def bt_values_def bt_keys_def)
qed

section \<open>Quorums\<close>

subsection \<open>The interface\<close>

text \<open>
  What the protocol relies on: two thresholds over weighted members such that two quorums overlap
  in at least the validity threshold, a validity set meets every quorum, and the members outside
  any set below the validity threshold still form a quorum.
\<close>

locale quorum_system =
  fixes ok :: "'c \<Rightarrow> bool"
    and mem :: "'c \<Rightarrow> 'a set"
    and weight :: "'c \<Rightarrow> 'a \<Rightarrow> nat"
    and quorum :: "'c \<Rightarrow> nat"
    and validity :: "'c \<Rightarrow> nat"
  assumes mem_finite: "ok c \<Longrightarrow> finite (mem c)"
    and overlap: "ok c \<Longrightarrow> sum (weight c) (mem c) + validity c \<le> 2 * quorum c"
    and meets: "ok c \<Longrightarrow> sum (weight c) (mem c) < validity c + quorum c"
    and avail: "ok c \<Longrightarrow> 0 < sum (weight c) (mem c) \<Longrightarrow> quorum c + validity c \<le> Suc (sum (weight c) (mem c))"
    and validity_pos: "ok c \<Longrightarrow> 0 < validity c"
begin

lemma weight_split:
  assumes "ok c" "A \<subseteq> mem c" "B \<subseteq> mem c"
  shows "sum (weight c) A + sum (weight c) B \<le> sum (weight c) (mem c) + sum (weight c) (A \<inter> B)"
proof -
  have fin: "finite A" "finite B" using assms mem_finite finite_subset by blast+
  then have "sum (weight c) (A \<union> B) + sum (weight c) (A \<inter> B) = sum (weight c) A + sum (weight c) B"
    by (rule sum.union_inter)
  moreover have "sum (weight c) (A \<union> B) \<le> sum (weight c) (mem c)"
    using assms mem_finite by (intro sum_mono2) auto
  ultimately show ?thesis by simp
qed

lemma quorums_overlap:
  assumes "ok c" "A \<subseteq> mem c" "B \<subseteq> mem c"
    and "quorum c \<le> sum (weight c) A" "quorum c \<le> sum (weight c) B"
  shows "validity c \<le> sum (weight c) (A \<inter> B)"
  using weight_split [OF assms(1-3)] overlap [OF assms(1)] assms(4,5) by simp

lemma quorums_meet:
  assumes "ok c" "A \<subseteq> mem c" "B \<subseteq> mem c"
    and "quorum c \<le> sum (weight c) A" "quorum c \<le> sum (weight c) B"
  shows "A \<inter> B \<noteq> {}"
  using quorums_overlap [OF assms] validity_pos [OF assms(1)] by auto

lemma validity_meets_quorum:
  assumes "ok c" "A \<subseteq> mem c" "B \<subseteq> mem c"
    and "validity c \<le> sum (weight c) A" "quorum c \<le> sum (weight c) B"
  shows "A \<inter> B \<noteq> {}"
proof
  assume "A \<inter> B = {}"
  with weight_split [OF assms(1-3)] meets [OF assms(1)] assms(4,5) show False by simp
qed

lemma rest_is_quorum:
  assumes "ok c" "F \<subseteq> mem c" "sum (weight c) F < validity c" "0 < sum (weight c) (mem c)"
  shows "quorum c \<le> sum (weight c) (mem c - F)"
proof -
  have "sum (weight c) (mem c - F) = sum (weight c) (mem c) - sum (weight c) F"
    using assms mem_finite by (intro sum_diff_nat) (auto intro: finite_subset)
  with avail [OF assms(1,4)] assms(3) show ?thesis by simp
qed

end

subsection \<open>The committee is a quorum system\<close>

lemma total_voting_power_eq:
  assumes "committee_ok c" "total_voting_power c = Some t"
  shows "t = total_power c"
proof -
  let ?vs = "bt_values (authorities_map c)"
  have d: "distinct (map auth_ident ?vs)" by (rule committee_ok_distinct_ids) fact
  have vp: "voting_power_by_id c (auth_ident a) = auth_voting_power a" if "a \<in> set ?vs" for a
    using authority_iff [OF assms(1), of "auth_ident a" a] that
    by (simp add: voting_power_by_id_def authority_def)
  have "total_power c = (\<Sum>i\<in>set (map auth_ident ?vs). voting_power_by_id c i)"
    by (simp add: total_power_def members_eq [OF assms(1)])
  also have "\<dots> = sum_list (map (voting_power_by_id c) (map auth_ident ?vs))"
    by (rule sum_list_distinct_conv_sum_set [OF d, symmetric])
  also have "\<dots> = sum_list (map auth_voting_power ?vs)"
    using vp by (simp cong: map_cong)
  finally show ?thesis
    using sum_u64_Some [of "map auth_voting_power ?vs" 0 t] assms(2)
    by (simp add: total_voting_power_def)
qed

lemma thresholds_eq:
  assumes "committee_ok c"
  shows "quorum_threshold c = 2 * total_power c div 3 + 1"
    and "validity_threshold c = max 1 ((total_power c + 2) div 3)"
proof -
  from assms obtain t where t: "total_voting_power c = Some t"
    by (auto simp: committee_ok_def calculate_quorum_threshold_def split: option.splits)
  have [simp]: "total_power c = t" using total_voting_power_eq [OF assms t] by simp
  show "quorum_threshold c = 2 * total_power c div 3 + 1"
    using assms t by (auto simp: committee_ok_def calculate_quorum_threshold_def split: option.splits)
  have "div_ceil t 3 = (t + 2) div 3"
    unfolding div_ceil_def Let_def by (cases "t mod 3 = 0") presburger+
  then show "validity_threshold c = max 1 ((total_power c + 2) div 3)"
    using assms t by (auto simp: committee_ok_def calculate_validity_threshold_def Let_def max_def
        split: if_splits)
qed

text \<open>
  Two power units are needed for two quorums to overlap in a validity set: with a total of 0
  the quorum threshold is 1 and no set reaches it.
\<close>

interpretation cq: quorum_system committee_ok members voting_power_by_id quorum_threshold
  validity_threshold
proof
  fix c :: committee
  assume ok: "committee_ok c"
  have th: "quorum_threshold c = 2 * total_power c div 3 + 1"
    "validity_threshold c = max 1 ((total_power c + 2) div 3)"
    "sum (voting_power_by_id c) (members c) = total_power c"
    using thresholds_eq [OF ok] by (simp_all add: total_power_def)
  show "finite (members c)" by simp
  show "sum (voting_power_by_id c) (members c) + validity_threshold c \<le> 2 * quorum_threshold c"
    unfolding th by (cases "total_power c = 0") (simp_all add: max_def, linarith?)
  show "sum (voting_power_by_id c) (members c) < validity_threshold c + quorum_threshold c"
    unfolding th by linarith
  show "0 < validity_threshold c"
    unfolding th by simp
  assume "0 < sum (voting_power_by_id c) (members c)"
  then show "quorum_threshold c + validity_threshold c \<le> Suc (sum (voting_power_by_id c) (members c))"
    unfolding th by (simp add: max_def) linarith
qed

section \<open>A committee of four\<close>

definition ex_builder :: committee_builder where
  "ex_builder =
     add_authority (\<lambda>k. k - 10) 14 1 104 (add_authority (\<lambda>k. k - 10) 12 1 102
       (add_authority (\<lambda>k. k - 10) 13 1 103 (add_authority (\<lambda>k. k - 10) 11 1 101 (builder_new 0))))"

definition ex_authority :: "nat \<Rightarrow> authority" where
  "ex_authority i =
     \<lparr>protocol_key = i + 10, auth_voting_power = 1, execution_address = i + 100, auth_ident = i\<rparr>"

definition ex_committee :: committee where
  "ex_committee =
     \<lparr>authorities_map = map (\<lambda>i. (i + 10, ex_authority i)) [1, 2, 3, 4],
      authorities_by_id = map (\<lambda>i. (i, ex_authority i)) [1, 2, 3, 4], committee_epoch = 0,
      quorum_threshold = 3, validity_threshold = 2, bootstrap_servers = []\<rparr>"

lemmas build_defs = build_def committee_new_def load_def calculate_validity_threshold_def
  calculate_quorum_threshold_def total_voting_power_def add_authority_def builder_new_def
  authority_new_def bt_values_def bt_collect_def div_ceil_def Let_def checked_u64_def u64_bound_def

lemma ex_build: "build ex_builder = Some ex_committee"
  by (simp add: ex_builder_def ex_committee_def ex_authority_def build_defs)

lemma ex_builder_ok: "builder_ok ex_builder"
  unfolding ex_builder_def by (intro builder_ok_add builder_ok_new)

lemma ex_committee_ok: "committee_ok ex_committee"
  by (rule build_ok [OF ex_builder_ok ex_build])

lemma ex_members: "members ex_committee = {1, 2, 3, 4}"
  by (simp add: members_def ex_committee_def)

lemma ex_thresholds: "quorum_threshold ex_committee = 3" "validity_threshold ex_committee = 2"
  "committee_epoch ex_committee = 0"
  by (simp_all add: ex_committee_def)

lemma ex_powers:
  "voting_power_by_id ex_committee (Suc 0) = 1" "voting_power_by_id ex_committee 2 = 1"
  "voting_power_by_id ex_committee 3 = 1" "voting_power_by_id ex_committee 4 = 1"
  by (simp_all add: voting_power_by_id_def ex_committee_def ex_authority_def bt_get_def)

section \<open>Properties\<close>

text \<open>C18. Any two sets of members that each reach the quorum threshold share members whose voting
  power reaches the validity threshold.\<close>

theorem quorum_intersection:
  assumes "committee_ok c" "A \<subseteq> members c" "B \<subseteq> members c"
    and "reached_quorum c (\<Sum>i\<in>A. voting_power_by_id c i)"
    and "reached_quorum c (\<Sum>i\<in>B. voting_power_by_id c i)"
  shows "reached_validity c (\<Sum>i\<in>A \<inter> B. voting_power_by_id c i)"
  using cq.quorums_overlap [OF assms(1-3)] assms(4,5)
  by (simp add: reached_quorum_def reached_validity_def)

theorem quorum_intersection_witness:
  "committee_ok ex_committee \<and> reached_validity ex_committee
     (\<Sum>i\<in>{1, 2, 3} \<inter> {2, 3, 4}. voting_power_by_id ex_committee i)"
  using quorum_intersection [of ex_committee "{1, 2, 3}" "{2, 3, 4}"]
  by (simp add: ex_committee_ok ex_members ex_powers ex_thresholds reached_quorum_def)

text \<open>As long as the faulty members stay below the validity threshold, the remaining members
  reach the quorum threshold on their own, so they can certify headers without the faulty ones.\<close>

theorem rest_reaches_quorum:
  assumes "committee_ok c" "F \<subseteq> members c" "0 < total_power c"
    and "\<not> reached_validity c (\<Sum>i\<in>F. voting_power_by_id c i)"
  shows "reached_quorum c (\<Sum>i\<in>members c - F. voting_power_by_id c i)"
  using cq.rest_is_quorum [OF assms(1,2)] assms(3,4)
  by (simp add: reached_quorum_def reached_validity_def total_power_def)



text \<open>C40. A committee that is encoded, decoded and then loaded is the committee that was encoded,
  identifiers, index and thresholds included.\<close>

theorem committee_serde_roundtrip:
  assumes "committee_ok c"
    and "\<forall>(k, a)\<in>set (authorities_map c). auth_ident a = derive_id (protocol_key a)"
  shows "load (serde_committee derive_id c) = Some c"
proof -
  have same: "map (\<lambda>(k, a). (k, serde_authority derive_id a)) (authorities_map c) = authorities_map c"
    using assms(2) by (intro map_idI) (auto simp: serde_authority_def)
  show ?thesis
    using assms(1) unfolding load_def serde_committee_def same
    by (auto simp: committee_ok_def calculate_validity_threshold_def calculate_quorum_threshold_def
        total_voting_power_def Let_def)
qed

theorem committee_serde_roundtrip_witness:
  "load (serde_committee (\<lambda>k. k - 10) ex_committee) = Some ex_committee"
  by (rule committee_serde_roundtrip [OF ex_committee_ok])
    (simp add: ex_committee_def ex_authority_def)

end
