(* ===== verification/Nonce.thy ===== *)
theory Nonce
  imports Axyl_Prelude "HOL-Library.Word"
begin

unbundle bit_operations_syntax

text \<open>
  The codec of \<open>crates/infrastructure/types/src/nonce.rs\<close>: an epoch and a round, both \<open>u32\<close>, packed
  into the \<open>u64\<close> nonce of an execution header. The words keep their widths, so the casts of the
  source are the truncating \<open>ucast\<close>.
\<close>

definition pack_nonce :: "32 word \<Rightarrow> 32 word \<Rightarrow> 64 word" where
  "pack_nonce epoch round = (push_bit 32 (ucast epoch) OR ucast round)"

definition unpack_nonce :: "64 word \<Rightarrow> 32 word \<times> 32 word" where
  "unpack_nonce nonce = (ucast (drop_bit 32 nonce), ucast nonce)"

lemma bit_u32_high: "bit (w :: 32 word) n \<Longrightarrow> n < 32"
  using bit_imp_le_length [of w n] by simp

lemma unpack_pack: "unpack_nonce (pack_nonce e r) = (e, r)"
  by (auto simp: unpack_nonce_def pack_nonce_def bit_eq_iff bit_simps dest: bit_u32_high)

lemma pack_unpack: "(case unpack_nonce n of (e, r) \<Rightarrow> pack_nonce e r) = n"
  by (auto simp: unpack_nonce_def pack_nonce_def bit_eq_iff bit_simps)

text \<open>As numbers: the epoch counts multiples of \<open>2 ^ 32\<close>.\<close>

lemma unat_pack_nonce: "unat (pack_nonce e r) = unat e * 2 ^ 32 + unat r"
proof -
  have "(push_bit 32 (ucast e) :: 64 word) AND ucast r = 0"
    by (auto simp: bit_eq_iff bit_simps dest: bit_u32_high)
  then have "pack_nonce e r = push_bit 32 (ucast e) + ucast r"
    by (simp add: pack_nonce_def disjunctive_add_eq_or)
  moreover have "unat (push_bit 32 (ucast e) :: 64 word) = unat e * 2 ^ 32"
    using unsigned_less [of e, where 'a = nat]
    by (simp add: unsigned_push_bit_eq take_bit_nat_def push_bit_nat_def unsigned_ucast_eq)
  moreover have "unat (ucast r :: 64 word) = unat r"
    by (simp add: unsigned_ucast_eq take_bit_nat_eq_self_iff)
      (rule order.strict_trans, rule unsigned_less, simp)
  ultimately show ?thesis
    using unsigned_less [of e, where 'a = nat] unsigned_less [of r, where 'a = nat]
    by (simp add: unat_word_ariths)
qed

lemma pack_nonce_less_iff:
  "pack_nonce e r < pack_nonce e' r' \<longleftrightarrow> e < e' \<or> e = e' \<and> r < r'"
proof -
  have lt: "unat r < 2 ^ 32" "unat r' < 2 ^ 32"
    using unsigned_less [of r, where 'a = nat] unsigned_less [of r', where 'a = nat] by simp_all
  have "pack_nonce e r < pack_nonce e' r' \<longleftrightarrow> unat e * 2 ^ 32 + unat r < unat e' * 2 ^ 32 + unat r'"
    by (simp add: word_less_nat_alt unat_pack_nonce)
  also have "\<dots> \<longleftrightarrow> unat e < unat e' \<or> unat e = unat e' \<and> unat r < unat r'"
    using lt by auto
  finally show ?thesis by (simp add: word_less_nat_alt word_unat_eq_iff)
qed

text \<open>
  The nonce as the rest of the model reads it, for an epoch and a round held as numbers: the
  conversion to \<open>u32\<close> is the identity on the values the code can hold.
\<close>

definition nonce_of :: "epoch \<Rightarrow> round \<Rightarrow> nat" where
  "nonce_of e r = unat (pack_nonce (of_nat e) (of_nat r))"

lemma nonce_of_eq: "e < 2 ^ 32 \<Longrightarrow> r < 2 ^ 32 \<Longrightarrow> nonce_of e r = e * 2 ^ 32 + r"
  by (simp add: nonce_of_def unat_pack_nonce unsigned_of_nat take_bit_nat_eq_self)

text \<open>Rounds that differ by two have nonces that differ by two.\<close>

lemma nonce_of_half: "e < 2 ^ 32 \<Longrightarrow> r < 2 ^ 32 \<Longrightarrow> nonce_of e r div 2 = e * 2 ^ 31 + r div 2"
  by (simp add: nonce_of_eq)

section \<open>The codec\<close>

text \<open>Packing and unpacking are inverse to each other in both directions, and the order of
  nonces is the lexicographic order of epoch and round.\<close>

theorem nonce_codec:
  "unpack_nonce (pack_nonce e r) = (e, r)
   \<and> (case unpack_nonce n of (e', r') \<Rightarrow> pack_nonce e' r') = n
   \<and> (pack_nonce e r < pack_nonce e1 r1 \<longleftrightarrow> e < e1 \<or> e = e1 \<and> r < r1)"
  by (simp add: unpack_pack pack_unpack pack_nonce_less_iff)

end
