(* ===== verification/Certificates.thy ===== *)
theory Certificates
  imports Committee Nonce
begin

text \<open>
  Headers, votes and certificates, from \<open>header.rs\<close>, \<open>vote.rs\<close> and \<open>certificate.rs\<close> of
  \<open>crates/infrastructure/types/src/primary\<close>. Hashing (blake3 over the BCS encoding) and BLS are
  third-party: they are the parameters \<open>H\<close> (the digest of a header's encoded fields), \<open>sign\<close>,
  \<open>aggregate\<close> and \<open>verify\<close> of the definitions that use them. A roaring bitmap is the increasing
  list of its members.
\<close>

section \<open>Headers\<close>

record header =
  author :: auth_id
  h_round :: round
  h_epoch :: epoch
  h_created_at :: timestamp
  payload :: "(digest \<times> worker_id) list"
  parents :: "digest list"
  latest_execution_block :: "nat \<times> digest"
  digest_cell :: "digest option"

text \<open>The fields that serde encodes, in order; the cached digest is off-wire.\<close>

type_synonym header_wire =
  "auth_id \<times> round \<times> epoch \<times> timestamp \<times> (digest \<times> worker_id) list \<times> digest list \<times> (nat \<times> digest)"

type_synonym hash_fun = "header_wire \<Rightarrow> digest"

definition wire :: "header \<Rightarrow> header_wire" where
  "wire h = (author h, h_round h, h_epoch h, h_created_at h, payload h, parents h,
     latest_execution_block h)"

definition header_hash :: "hash_fun \<Rightarrow> header \<Rightarrow> digest" where
  "header_hash H h = H (wire h)"

definition header_digest :: "hash_fun \<Rightarrow> header \<Rightarrow> digest" where
  "header_digest H h = (case digest_cell h of Some d \<Rightarrow> d | None \<Rightarrow> header_hash H h)"

definition header_new ::
  "hash_fun \<Rightarrow> timestamp \<Rightarrow> auth_id \<Rightarrow> round \<Rightarrow> epoch \<Rightarrow> (digest \<times> worker_id) list \<Rightarrow>
   digest list \<Rightarrow> nat \<times> digest \<Rightarrow> header" where
  "header_new H now a r e pl ps leb =
     (let h = \<lparr>author = a, h_round = r, h_epoch = e, h_created_at = now, payload = pl,
               parents = ps, latest_execution_block = leb, digest_cell = None\<rparr>
      in h\<lparr>digest_cell := Some (header_hash H h)\<rparr>)"

datatype header_error =
    InvalidEpoch epoch epoch
  | InvalidHeaderDigest
  | UnknownAuthority auth_id
  | UnknownWorkerId
  | TooManyParents nat nat
  | InvalidParents
  | WrongNumberOfParents nat nat
  | PeerNotAuthor
  | UnknownExecutionResult "nat \<times> digest"
  | InvalidGenesisParent digest
  | HeaderTooOld digest round round
  | HeaderTooNew digest round round
  | InvalidRound digest round
  | ParentMissingSignature
  | InvalidParentRound
  | InvalidParentTimestamp timestamp timestamp
  | DuplicateParents
  | SyncBatches
  | InvalidTimestamp timestamp timestamp
  | AlreadyVoted digest round
  | AlreadyVotedForLaterRound round round

definition header_validate :: "hash_fun \<Rightarrow> committee \<Rightarrow> header \<Rightarrow> header_error + unit" where
  "header_validate H c h =
     (if h_epoch h \<noteq> committee_epoch c then Inl (InvalidEpoch (h_epoch h) (committee_epoch c))
      else if length (parents h) > committee_size c
        then Inl (TooManyParents (length (parents h)) (committee_size c))
      else let computed = header_hash H h;
               cell = (case digest_cell h of Some d \<Rightarrow> d | None \<Rightarrow> computed)
      in if cell \<noteq> computed then Inl InvalidHeaderDigest
      else case authority c (author h) of None \<Rightarrow> Inl (UnknownAuthority (author h))
      | Some _ \<Rightarrow>
          if list_ex (\<lambda>(_, w). w \<ge> number_of_workers c) (payload h) then Inl UnknownWorkerId
          else Inr ())"

definition header_nonce :: "header \<Rightarrow> nat" where
  "header_nonce h = nonce_of (h_epoch h) (h_round h)"

section \<open>Votes\<close>

record vote =
  vote_header_digest :: digest
  vote_round :: round
  vote_epoch :: epoch
  vote_origin :: auth_id
  vote_author :: auth_id
  vote_signature :: signature

definition vote_new :: "hash_fun \<Rightarrow> (digest \<Rightarrow> signature) \<Rightarrow> header \<Rightarrow> auth_id \<Rightarrow> vote" where
  "vote_new H sign h me =
     (let d = header_digest H h in
      \<lparr>vote_header_digest = d, vote_round = h_round h, vote_epoch = h_epoch h,
       vote_origin = author h, vote_author = me, vote_signature = sign d\<rparr>)"

definition vote_digest :: "vote \<Rightarrow> digest" where
  "vote_digest v = vote_header_digest v"

record vote_info =
  vi_epoch :: epoch
  vi_round :: round
  vi_vote_digest :: digest

definition vote_info_of :: "vote \<Rightarrow> vote_info" where
  "vote_info_of v = \<lparr>vi_epoch = vote_epoch v, vi_round = vote_round v, vi_vote_digest = vote_digest v\<rparr>"

section \<open>Certificates\<close>

datatype sig_state =
    Unsigned signature
  | Unverified signature
  | VerifiedDirectly signature
  | VerifiedIndirectly signature
  | Genesis

definition default_signature :: signature where
  "default_signature = 0"

record certificate =
  c_header :: header
  signature_verification_state :: sig_state
  signed_authorities :: "nat list"
  c_created_at :: timestamp

abbreviation c_round :: "certificate \<Rightarrow> round" where
  "c_round c \<equiv> h_round (c_header c)"

abbreviation c_epoch :: "certificate \<Rightarrow> epoch" where
  "c_epoch c \<equiv> h_epoch (c_header c)"

abbreviation origin :: "certificate \<Rightarrow> auth_id" where
  "origin c \<equiv> author (c_header c)"

abbreviation c_parents :: "certificate \<Rightarrow> digest list" where
  "c_parents c \<equiv> parents (c_header c)"

definition cert_digest :: "hash_fun \<Rightarrow> certificate \<Rightarrow> digest" where
  "cert_digest H c = header_digest H (c_header c)"

definition cert_nonce :: "certificate \<Rightarrow> nat" where
  "cert_nonce c = header_nonce (c_header c)"

definition cert_eq :: "hash_fun \<Rightarrow> certificate \<Rightarrow> certificate \<Rightarrow> bool" where
  "cert_eq H a b \<longleftrightarrow>
     header_digest H (c_header a) = header_digest H (c_header b)
     \<and> c_round a = c_round b \<and> c_epoch a = c_epoch b \<and> origin a = origin b"

definition genesis :: "committee \<Rightarrow> certificate list" where
  "genesis c = map (\<lambda>a.
     \<lparr>c_header = \<lparr>author = auth_ident a, h_round = 0, h_epoch = committee_epoch c,
        h_created_at = 0, payload = [], parents = [], latest_execution_block = (0, 0),
        digest_cell = None\<rparr>,
      signature_verification_state = Unsigned default_signature,
      signed_authorities = [], c_created_at = 0\<rparr>) (authorities c)"

definition aggregated_signature :: "certificate \<Rightarrow> signature option" where
  "aggregated_signature c =
     (case signature_verification_state c of
        VerifiedDirectly s \<Rightarrow> Some s
      | VerifiedIndirectly s \<Rightarrow> Some s
      | Unverified s \<Rightarrow> Some s
      | Unsigned s \<Rightarrow> Some s
      | Genesis \<Rightarrow> None)"

definition is_verified :: "certificate \<Rightarrow> bool" where
  "is_verified c =
     (case signature_verification_state c of
        VerifiedDirectly _ \<Rightarrow> True
      | VerifiedIndirectly _ \<Rightarrow> True
      | Genesis \<Rightarrow> True
      | _ \<Rightarrow> False)"

datatype certificate_error =
    CertHeader header_error
  | Inquorate nat nat
  | CertInvalidSignature
  | CertTooOld digest round round
  | RecoverBlsAggregateSignatureBytes
  | CertUnsigned

datatype dag_error =
    DagInvalidSignature
  | InvalidBitmap
  | DagInvalidHeaderDigest
  | DagUnknownAuthority nat
  | CertificateRequiresQuorum
  | AuthorityReuse auth_id

subsection \<open>Building a certificate from votes\<close>

text \<open>
  The filter closure of \<open>new_internal\<close>, run over the authorities in key order with their index: it
  pops the first vote when its key is the authority's, so it carries the remaining votes, the
  signatures taken and the weight.
\<close>

fun take_votes ::
  "(nat \<times> bls_key \<times> authority) list \<Rightarrow> (bls_key, signature) btree \<Rightarrow> (bls_key \<times> signature) list \<Rightarrow>
   nat \<Rightarrow> nat list \<times> (bls_key, signature) btree \<times> (bls_key \<times> signature) list \<times> nat" where
  "take_votes [] votes sigs weight = ([], votes, sigs, weight)"
| "take_votes ((i, k, a) # as) votes sigs weight =
     (case votes of
        (k', s) # votes' \<Rightarrow>
          if k = k' then
            (let rest = dropWhile (\<lambda>v. v = (k', s)) votes';
                 (is, out) = take_votes as rest (sigs @ [(k', s)]) (weight + auth_voting_power a)
             in (i # is, out))
          else take_votes as votes sigs weight
      | [] \<Rightarrow> take_votes as votes sigs weight)"

definition new_internal ::
  "(signature list \<Rightarrow> signature option) \<Rightarrow> timestamp \<Rightarrow> committee \<Rightarrow> header \<Rightarrow>
   (bls_key, signature) btree \<Rightarrow> bool \<Rightarrow> dag_error + certificate" where
  "new_internal aggregate now c h votes check_stake =
     (let auths = bt_collect (map (\<lambda>a. (protocol_key a, a)) (authorities c));
          (bitmap, rest, sigs, weight) =
            take_votes (List.enumerate 0 auths) votes [] 0
      in if \<not> sorted_wrt (<) bitmap then Inl InvalidBitmap
         else case rest of
           (k, _) # _ \<Rightarrow> Inl (DagUnknownAuthority k)
         | [] \<Rightarrow>
             if check_stake \<and> weight < quorum_threshold c then Inl CertificateRequiresQuorum
             else (case (if sigs = [] then Some default_signature else aggregate (map snd sigs)) of
                     None \<Rightarrow> Inl DagInvalidSignature
                   | Some bls_signature \<Rightarrow>
                       Inr \<lparr>c_header = h,
                            signature_verification_state =
                              (if \<not> check_stake then Unsigned bls_signature
                               else Unverified bls_signature),
                            signed_authorities = bitmap, c_created_at = now\<rparr>))"

definition new_unverified ::
  "(signature list \<Rightarrow> signature option) \<Rightarrow> timestamp \<Rightarrow> committee \<Rightarrow> header \<Rightarrow>
   (auth_id \<times> signature) list \<Rightarrow> dag_error + certificate" where
  "new_unverified aggregate now c h votes =
     new_internal aggregate now c h
       (bt_collect (List.map_filter
          (\<lambda>(i, s). map_option (\<lambda>a. (protocol_key a, s)) (authority c i)) votes)) True"

subsection \<open>Verifying a certificate\<close>

fun signed_by_loop :: "nat \<Rightarrow> nat list \<Rightarrow> bls_key list \<Rightarrow> nat \<times> bls_key list" where
  "signed_by_loop i idx [] = (0, [])"
| "signed_by_loop i idx (k # ks) =
     (case idx of
        j # js \<Rightarrow>
          if j = i then (let (w, pks) = signed_by_loop (Suc i) js ks in (Suc w, k # pks))
          else signed_by_loop (Suc i) idx ks
      | [] \<Rightarrow> signed_by_loop (Suc i) idx ks)"

definition signed_by :: "certificate \<Rightarrow> bls_key list \<Rightarrow> voting_power \<times> bls_key list" where
  "signed_by c keys = signed_by_loop 0 (signed_authorities c) keys"

type_synonym verify_fun = "signature \<Rightarrow> digest \<Rightarrow> bls_key list \<Rightarrow> bool"

definition verify_signature ::
  "hash_fun \<Rightarrow> verify_fun \<Rightarrow> certificate \<Rightarrow> bls_key list \<Rightarrow> certificate_error + certificate" where
  "verify_signature H verify c pks =
     (case signature_verification_state c of
        VerifiedDirectly _ \<Rightarrow> Inr c
      | VerifiedIndirectly _ \<Rightarrow> Inr c
      | Genesis \<Rightarrow> Inr c
      | Unsigned _ \<Rightarrow> Inl CertUnsigned
      | Unverified s \<Rightarrow>
          if verify s (cert_digest H c) pks
          then Inr (c\<lparr>signature_verification_state := VerifiedDirectly s\<rparr>)
          else Inl CertInvalidSignature)"

definition validate_received :: "certificate \<Rightarrow> certificate_error + certificate" where
  "validate_received c =
     (case aggregated_signature c of
        None \<Rightarrow> Inl RecoverBlsAggregateSignatureBytes
      | Some s \<Rightarrow> Inr (c\<lparr>signature_verification_state := Unverified s\<rparr>))"

definition validate_and_verify ::
  "hash_fun \<Rightarrow> verify_fun \<Rightarrow> committee \<Rightarrow> certificate \<Rightarrow> certificate_error + certificate" where
  "validate_and_verify H verify c cert =
     (if c_epoch cert \<noteq> committee_epoch c
      then Inl (CertHeader (InvalidEpoch (c_epoch cert) (committee_epoch c)))
      else if c_round cert = 0 \<and> list_ex (\<lambda>g. cert_eq H g cert) (genesis c) then Inr cert
      else case header_validate H c (c_header cert) of
        Inl e \<Rightarrow> Inl (CertHeader e)
      | Inr _ \<Rightarrow>
          (let (weight, pks) = signed_by cert (bls_keys c);
               threshold = quorum_threshold c
           in if weight < threshold then Inl (Inquorate weight threshold)
              else verify_signature H verify cert pks))"

definition verify_cert ::
  "hash_fun \<Rightarrow> verify_fun \<Rightarrow> bls_key list \<Rightarrow> certificate \<Rightarrow>
   (certificate_error, certificate) result" where
  "verify_cert H verify keys cert =
     (case validate_received cert of Inl e \<Rightarrow> Inl (Err e)
      | Inr c1 \<Rightarrow>
          (let (weight, pks) = signed_by c1 keys
           in case quorum_threshold_members (length keys) of
                None \<Rightarrow> Inl Panic
              | Some threshold \<Rightarrow>
                  if weight < threshold then Inl (Err (Inquorate weight threshold))
                  else (case verify_signature H verify c1 pks of
                          Inl e \<Rightarrow> Inl (Err e) | Inr c2 \<Rightarrow> Inr c2)))"

section \<open>The signers of a certificate\<close>

lemma take_votes_Nil: "take_votes as [] sigs w = ([], [], sigs, w)"
  by (induction as) auto

lemma enumerate_keys: "(i, k, a) \<in> set (List.enumerate n as) \<Longrightarrow> k \<in> fst ` set as"
  by (metis enumerate_eq_zip fst_conv image_eqI set_zip_rightD)

lemma dropWhile_repeats: "bt_inv ((k, s) # vs) \<Longrightarrow> dropWhile (\<lambda>v. v = (k, s)) vs = vs"
  by (cases vs) (auto simp: bt_inv_Cons)

text \<open>On key-ordered authorities the filter takes exactly the votes of the given keys.\<close>

lemma take_votes_spec:
  assumes "bt_inv as" "bt_inv votes" "fst ` set votes \<subseteq> fst ` set as"
  shows "take_votes (List.enumerate n as) votes sigs w =
    (map fst (filter (\<lambda>(i, k, a). k \<in> fst ` set votes) (List.enumerate n as)), [], sigs @ votes,
     w + (\<Sum>(k, a)\<leftarrow>filter (\<lambda>(k, a). k \<in> fst ` set votes) as. auth_voting_power a))"
  using assms
proof (induction as arbitrary: n votes sigs w)
  case Nil
  then show ?case by simp
next
  case (Cons e as)
  obtain k a where e: "e = (k, a)" by (cases e)
  have as: "bt_inv as" and lt: "\<forall>j\<in>fst ` set as. k < j"
    using Cons.prems(1) by (auto simp: e bt_inv_Cons)
  show ?case
  proof (cases votes)
    case Nil
    then show ?thesis by (simp add: take_votes_Nil)
  next
    case (Cons v vs)
    obtain k' s where v: "v = (k', s)" by (cases v)
    have vs: "bt_inv vs" and lt': "\<forall>j\<in>fst ` set vs. k' < j"
      using Cons.prems(2) by (auto simp: Cons v bt_inv_Cons)
    have dw: "dropWhile (\<lambda>v. v = (k', s)) vs = vs"
      by (rule dropWhile_repeats) (use Cons.prems(2) Cons v in simp)
    show ?thesis
    proof (cases "k = k'")
      case True
      have sub: "fst ` set vs \<subseteq> fst ` set as"
        using Cons.prems(3) lt' by (auto simp: Cons v e True)
      have mem: "j \<in> fst ` set votes \<longleftrightarrow> j \<in> fst ` set vs" if "j \<in> fst ` set as" for j
        using that lt by (auto simp: Cons v True)
      have f1: "filter (\<lambda>(i, k, a). k \<in> fst ` set votes) (List.enumerate (Suc n) as) =
          filter (\<lambda>(i, k, a). k \<in> fst ` set vs) (List.enumerate (Suc n) as)"
        by (rule filter_cong [OF refl]) (clarsimp simp only: prod.case mem [OF enumerate_keys])
      have f2: "filter (\<lambda>(k, a). k \<in> fst ` set votes) as = filter (\<lambda>(k, a). k \<in> fst ` set vs) as"
        by (rule filter_cong) (use mem in force)+
      have k: "k \<in> fst ` set votes" by (simp add: Cons v True)
      show ?thesis
        using Cons.IH [OF as vs sub, of "Suc n" "sigs @ [(k', s)]" "w + auth_voting_power a"] k
        by (simp only: e enumerate_simps filter.simps f1 f2 prod.case if_True)
          (simp add: Cons v True dw)
    next
      case False
      have "k' \<in> fst ` set as" using Cons.prems(3) False by (auto simp: Cons v e)
      with lt have "k < k'" by blast
      with lt' have k: "k \<notin> fst ` set votes" by (fastforce simp: Cons v)
      with Cons.prems(3) have sub: "fst ` set votes \<subseteq> fst ` set as" by (auto simp: e)
      show ?thesis
        using Cons.IH [OF as Cons.prems(2) sub, of "Suc n" sigs w] k False
        by (simp only: e enumerate_simps filter.simps prod.case if_False)
          (simp add: Cons v)
    qed
  qed
qed

text \<open>The walk over the committee keys returns the keys at the indexes of the bitmap.\<close>

lemma signed_by_loop_spec:
  assumes "sorted_wrt (<) idx" "\<forall>j\<in>set idx. i \<le> j"
  shows "signed_by_loop i idx ks =
    (let pks = map snd (filter (\<lambda>(j, k). j \<in> set idx) (List.enumerate i ks)) in (length pks, pks))"
  using assms
proof (induction ks arbitrary: i idx)
  case Nil
  then show ?case by simp
next
  case (Cons k ks)
  show ?case
  proof (cases idx)
    case Nil
    then show ?thesis using Cons.IH [of "[]" "Suc i"] by simp
  next
    case (Cons j js)
    show ?thesis
    proof (cases "j = i")
      case True
      have gt: "\<forall>x\<in>set js. Suc i \<le> x" using Cons.prems(1) True by (auto simp: Cons Suc_le_eq)
      have "filter (\<lambda>(x, k). x \<in> set idx) (List.enumerate (Suc i) ks) =
          filter (\<lambda>(x, k). x \<in> set js) (List.enumerate (Suc i) ks)"
        by (rule filter_cong) (auto simp: Cons True in_set_enumerate_eq)
      then show ?thesis
        using Cons.IH [of js "Suc i"] Cons.prems gt by (simp add: Cons True Let_def)
    next
      case False
      have "\<forall>x\<in>set idx. Suc i \<le> x"
        using Cons.prems False by (fastforce simp: Cons Suc_le_eq)
      then show ?thesis
        using Cons.IH [of idx "Suc i"] Cons.prems False by (auto simp: Cons Let_def)
    qed
  qed
qed

lemma authorities_by_key:
  assumes ok: "committee_ok c"
  shows "bt_collect (map (\<lambda>a. (protocol_key a, a)) (authorities c)) = authorities_map c"
proof (rule bt_ext)
  let ?kvs = "map (\<lambda>a. (protocol_key a, a)) (authorities c)" and ?m = "authorities_map c"
  have inv: "bt_inv ?m" and key: "\<forall>(k, a)\<in>set ?m. protocol_key a = k"
    using ok by (simp_all add: committee_ok_def)
  then show "bt_inv ?m" by simp
  have "set (authorities c) = set (bt_values ?m)"
    using authorities_ok [OF ok] authority_iff [OF ok] by blast
  then have set: "set ?kvs = set ?m"
    using key by (force simp: bt_values_def image_image)
  have "distinct ?m" using bt_inv_distinct [OF inv] by (simp add: distinct_map)
  then have "length ?kvs = card (set ?m)"
    using length_authorities [OF ok] by (simp add: committee_size_def distinct_card)
  then have "distinct ?kvs" using set by (metis card_distinct)
  moreover have "inj_on fst (set ?kvs)"
    using bt_inv_distinct [OF inv] unfolding set by (simp add: distinct_map)
  ultimately have d: "distinct (map fst ?kvs)" by (simp only: distinct_map [of fst] simp_thms)
  then show "bt_get (bt_collect ?kvs) = bt_get ?m"
    using set bt_inv_distinct [OF inv]
    by (simp add: bt_get_collect map_of_rev_distinct)
      (simp add: bt_get_def map_of_inject_set)
qed simp

lemma bls_keys_ok: "committee_ok c \<Longrightarrow> bls_keys c = map fst (authorities_map c)"
  by (auto simp: committee_ok_def bls_keys_def bt_values_def)

lemma sorted_fst_enumerate: "sorted_wrt (<) (map fst (filter P (List.enumerate n xs)))"
  by (rule sorted_wrt_map_filter) (simp add: enumerate_eq_zip)

lemma filter_enumerate_snd:
  "map snd (filter (\<lambda>(j, k). j \<in> set (map fst (filter (\<lambda>(i, k, a). P k) (List.enumerate n m))))
     (List.enumerate n (map fst m))) = filter P (map fst m)"
proof -
  have "filter (\<lambda>(j, k). j \<in> set (map fst (filter (\<lambda>(i, k, a). P k) (List.enumerate n m))))
      (List.enumerate n (map fst m)) = filter (\<lambda>(j, k). P k) (List.enumerate n (map fst m))"
    by (rule filter_cong) (force simp: in_set_enumerate_eq)+
  moreover have "map snd (filter (\<lambda>(j, k). P k) (List.enumerate n ks)) = filter P ks" for ks
    by (induction ks arbitrary: n) auto
  ultimately show ?thesis by simp
qed

lemma sum_list_by_key:
  assumes "bt_inv m" "K \<subseteq> fst ` set m"
  shows "(\<Sum>(k, a)\<leftarrow>filter (\<lambda>(k, a). k \<in> K) m. f a) =
    (\<Sum>k\<in>K. case bt_get m k of None \<Rightarrow> 0 | Some a \<Rightarrow> (f a :: nat))"
proof -
  let ?g = "\<lambda>k. case bt_get m k of None \<Rightarrow> 0 | Some a \<Rightarrow> f a" and ?m = "filter (\<lambda>(k, a). k \<in> K) m"
  have "map (\<lambda>(k, a). f a) ?m = map ?g (map fst ?m)"
    using assms(1) by (auto simp: bt_get_iff [symmetric])
  moreover have "distinct (map fst ?m)" using assms(1) by (intro bt_inv_distinct bt_inv_filter)
  moreover have "set (map fst ?m) = K" using assms(2) by force
  ultimately show ?thesis by (metis sum_list_distinct_conv_sum_set)
qed

text \<open>
  The bitmap of \<open>new_internal\<close> read back by \<open>signed_by\<close> gives the keys that voted.
\<close>

lemma new_internal_signers:
  assumes ok: "committee_ok c" and inv: "bt_inv votes"
    and sub: "fst ` set votes \<subseteq> set (bls_keys c)"
    and new: "new_internal aggregate now c h votes stake = Inr cert"
  shows "signed_by cert (bls_keys c) = (length votes, map fst votes)"
    and "stake \<Longrightarrow> quorum_threshold c \<le> (\<Sum>k\<in>fst ` set votes. voting_power_of_key c k)"
    and "c_header cert = h"
proof -
  let ?m = "authorities_map c" and ?K = "fst ` set votes"
  let ?idx = "map fst (filter (\<lambda>(i, k, a). k \<in> ?K) (List.enumerate 0 ?m))"
  have m: "bt_inv ?m" and keys: "bls_keys c = map fst ?m" "?K \<subseteq> fst ` set ?m"
    using ok sub by (simp_all add: committee_ok_def bls_keys_ok [OF ok])
  have take: "take_votes (List.enumerate 0 ?m) votes [] 0 =
      (?idx, [], votes, \<Sum>(k, a)\<leftarrow>filter (\<lambda>(k, a). k \<in> ?K) ?m. auth_voting_power a)"
    using take_votes_spec [OF m inv keys(2), of 0 "[]" 0] by simp
  have idx: "sorted_wrt (<) ?idx" by (rule sorted_fst_enumerate)
  have signed: "signed_authorities cert = ?idx" and "c_header cert = h"
    and w: "stake \<Longrightarrow> quorum_threshold c \<le> (\<Sum>(k, a)\<leftarrow>filter (\<lambda>(k, a). k \<in> ?K) ?m. auth_voting_power a)"
    using new idx unfolding new_internal_def authorities_by_key [OF ok] Let_def take
    by (auto split: if_splits option.splits)
  then show "c_header cert = h" by simp
  have "filter (\<lambda>k. k \<in> ?K) (map fst ?m) = map fst votes"
    using inv m keys(2) unfolding bt_inv_def
    by (intro strict_sorted_equal sorted_wrt_filter) auto
  note pks = trans [OF filter_enumerate_snd this]
  show "signed_by cert (bls_keys c) = (length votes, map fst votes)"
    unfolding signed_by_def signed keys(1)
    by (subst signed_by_loop_spec [OF idx]) (rule ballI, rule le0, simp only: Let_def pks length_map)
  show "stake \<Longrightarrow> quorum_threshold c \<le> (\<Sum>k\<in>?K. voting_power_of_key c k)"
    using w unfolding sum_list_by_key [OF m keys(2)] voting_power_of_key_def by simp
qed

lemma map_filter_keys:
  "fst ` set (List.map_filter (\<lambda>(i, s). map_option (\<lambda>a. (protocol_key a, s)) (authority c i)) votes) =
   {protocol_key a | i a. i \<in> fst ` set votes \<and> authority c i = Some a}"
  by (force simp: List.map_filter_def image_iff)

lemma fst_set_bt_collect: "fst ` set (bt_collect kvs) = fst ` set kvs"
  by (metis bt_get_collect dom_bt_get dom_map_of_conv_image_fst set_rev)

lemma voting_power_of_key_ident:
  assumes ok: "committee_ok c" and a: "authority c i = Some a"
  shows "voting_power_of_key c (protocol_key a) = voting_power_by_id c i"
proof -
  have "a \<in> set (bt_values (authorities_map c))" using a authority_iff [OF ok] by blast
  then have "(protocol_key a, a) \<in> set (authorities_map c)"
    using ok by (auto simp: committee_ok_def bt_values_def)
  moreover have "bt_inv (authorities_map c)" using ok by (simp add: committee_ok_def)
  ultimately have "bt_get (authorities_map c) (protocol_key a) = Some a" by (simp add: bt_get_iff)
  with a show ?thesis by (simp add: voting_power_of_key_def voting_power_by_id_def authority_def)
qed

lemma protocol_key_inj:
  assumes ok: "committee_ok c" and "authority c i = Some a" "authority c j = Some b"
    and "protocol_key a = protocol_key b"
  shows "i = j"
proof -
  have "a \<in> set (bt_values (authorities_map c))" "b \<in> set (bt_values (authorities_map c))"
    "auth_ident a = i" "auth_ident b = j"
    using assms authority_iff [OF ok] by blast+
  moreover from this have "(protocol_key a, a) \<in> set (authorities_map c)"
    "(protocol_key b, b) \<in> set (authorities_map c)"
    using ok by (auto simp: committee_ok_def bt_values_def)
  moreover have "bt_inv (authorities_map c)" using ok by (simp add: committee_ok_def)
  ultimately show ?thesis using assms(4) bt_get_iff by (metis option.inject)
qed

text \<open>
  A certificate that \<open>new_unverified\<close> builds carries a bitmap which \<open>signed_by\<close> reads back as the
  keys of the committee members among the voters, and these members hold a quorum of stake.
\<close>

lemma new_unverified_signers:
  assumes ok: "committee_ok c" and new: "new_unverified aggregate now c h votes = Inr cert"
  defines "V \<equiv> fst ` set votes \<inter> members c"
  shows "c_header cert = h"
    and "\<exists>K. signed_by cert (bls_keys c) = (length K, K) \<and> distinct K
      \<and> set K = {protocol_key a | i a. i \<in> V \<and> authority c i = Some a}"
    and "quorum_threshold c \<le> (\<Sum>i\<in>V. voting_power_by_id c i)"
proof -
  let ?kvs = "List.map_filter (\<lambda>(i, s). map_option (\<lambda>a. (protocol_key a, s)) (authority c i)) votes"
  let ?key = "\<lambda>i. protocol_key (the (authority c i))"
  have V: "i \<in> V \<longleftrightarrow> i \<in> fst ` set votes \<and> authority c i \<noteq> None" for i
    by (auto simp: V_def members_iff is_authority_def authority_def)
  have KV: "{protocol_key a | i a. i \<in> V \<and> authority c i = Some a} = ?key ` V"
  proof (intro equalityI subsetI)
    fix k assume "k \<in> ?key ` V"
    then obtain i where i: "i \<in> V" "k = ?key i" by blast
    then obtain a where "authority c i = Some a" using V by blast
    with i show "k \<in> {protocol_key a | i a. i \<in> V \<and> authority c i = Some a}" by auto
  qed force
  have VS: "{protocol_key a | i a. i \<in> fst ` set votes \<and> authority c i = Some a} =
      {protocol_key a | i a. i \<in> V \<and> authority c i = Some a}" using V by auto
  have keys: "fst ` set (bt_collect ?kvs) = ?key ` V"
    unfolding fst_set_bt_collect map_filter_keys VS by (rule KV)
  have sub: "fst ` set (bt_collect ?kvs) \<subseteq> set (bls_keys c)"
  proof -
    have "?key i \<in> set (bls_keys c)" if "i \<in> V" for i
    proof -
      from that obtain a where "authority c i = Some a" using V by blast
      then show ?thesis using authority_iff [OF ok, of i a] by (simp add: bls_keys_def)
    qed
    then show ?thesis unfolding keys by blast
  qed
  note facts = new_internal_signers [OF ok bt_inv_collect sub new [unfolded new_unverified_def]]
  show "c_header cert = h" by (rule facts)
  show "\<exists>K. signed_by cert (bls_keys c) = (length K, K) \<and> distinct K
      \<and> set K = {protocol_key a | i a. i \<in> V \<and> authority c i = Some a}"
    unfolding KV
    by (intro exI [of _ "map fst (bt_collect ?kvs)"] conjI)
      (simp_all only: facts(1) length_map set_map keys bt_inv_distinct bt_inv_collect)
  have inj: "inj_on ?key V"
  proof (rule inj_onI)
    fix i j assume "i \<in> V" "j \<in> V" and eq: "?key i = ?key j"
    then obtain a b where "authority c i = Some a" "authority c j = Some b" using V by auto
    with eq show "i = j" using protocol_key_inj [OF ok] by simp
  qed
  have "(\<Sum>k\<in>?key ` V. voting_power_of_key c k) = (\<Sum>i\<in>V. voting_power_by_id c i)"
    unfolding sum.reindex [OF inj] comp_def
    by (rule sum.cong [OF refl]) (use V voting_power_of_key_ident [OF ok] in force)
  then show "quorum_threshold c \<le> (\<Sum>i\<in>V. voting_power_by_id c i)"
    using facts(2) [OF TrueI] unfolding keys by simp
qed

section \<open>What verification establishes\<close>

lemma signed_by_keys:
  assumes "sorted_wrt (<) (signed_authorities cert)" "signed_by cert ks = (w, pks)"
  shows "w = length pks" "set pks \<subseteq> set ks" "distinct ks \<Longrightarrow> distinct pks"
proof -
  let ?f = "filter (\<lambda>(j, k). j \<in> set (signed_authorities cert)) (List.enumerate 0 ks)"
  have *: "w = length pks \<and> pks = map snd ?f"
    using assms signed_by_loop_spec [OF assms(1), of 0 ks] by (auto simp: signed_by_def Let_def)
  then show "w = length pks" by simp
  have "set (map snd ?f) \<subseteq> set (map snd (List.enumerate 0 ks))"
    unfolding set_map by (intro image_mono filter_is_subset)
  with * show "set pks \<subseteq> set ks" by simp
  assume "distinct ks"
  then have "distinct (map snd (List.enumerate 0 ks))" by simp
  then have "distinct (map snd ?f)" by (metis distinct_map_filter)
  with * show "distinct pks" by simp
qed

lemma header_validate_Inr:
  assumes "header_validate H c h = Inr ()"
  shows "h_epoch h = committee_epoch c" "length (parents h) \<le> committee_size c"
    "header_digest H h = header_hash H h" "is_authority c (author h)"
    "\<forall>(d, w)\<in>set (payload h). w < number_of_workers c"
  using assms
  by (auto simp: header_validate_def header_digest_def is_authority_def authority_def Let_def
      list_ex_iff not_le split: if_splits option.splits)

lemma genesis_fields:
  "g \<in> set (genesis c) \<Longrightarrow> c_round g = 0 \<and> c_parents g = [] \<and> c_epoch g = committee_epoch c"
  by (auto simp: genesis_def)

section \<open>Digests that bind\<close>

text \<open>
  The hash is only required to be free of collisions on the set \<open>U\<close> of header encodings in use. A
  certificate is sealed when its encoding is in \<open>U\<close> and its digest is the hash of the encoding.
\<close>

definition collision_free :: "hash_fun \<Rightarrow> header_wire set \<Rightarrow> bool" where
  "collision_free H U \<longleftrightarrow> inj_on H U"

definition sealed :: "hash_fun \<Rightarrow> header_wire set \<Rightarrow> certificate \<Rightarrow> bool" where
  "sealed H U x \<longleftrightarrow> wire (c_header x) \<in> U \<and> cert_digest H x = H (wire (c_header x))"

lemma sealed_digest_eq:
  "collision_free H U \<Longrightarrow> sealed H U x \<Longrightarrow> sealed H U y \<Longrightarrow> cert_digest H x = cert_digest H y \<Longrightarrow>
   wire (c_header x) = wire (c_header y)"
  by (auto simp: collision_free_def sealed_def dest: inj_onD)

lemma wire_eqD:
  "wire h = wire h' \<Longrightarrow> author h = author h' \<and> h_round h = h_round h' \<and> parents h = parents h'"
  by (simp add: wire_def)

section \<open>An example network\<close>

text \<open>
  Authors 1 to 3 each propose in every round and take all three certificates of the round before
  as parents. The example hash reads the round and the author off the encoding.
\<close>

definition ex_hash :: hash_fun where
  "ex_hash w = 100 * fst (snd w) + fst w"

definition ex_cert :: "round \<Rightarrow> auth_id \<Rightarrow> certificate" where
  "ex_cert r a =
     \<lparr>c_header = header_new ex_hash r a r 0 [] (if r = 0 then [] else map (\<lambda>i. 100 * (r - 1) + i) [1, 2, 3]) (0, 0),
      signature_verification_state = VerifiedDirectly 1, signed_authorities = [0, 1, 2], c_created_at = r\<rparr>"

definition ex_wires :: "header_wire set" where
  "ex_wires = {wire (c_header (ex_cert r a)) | r a. a < 100}"

lemma ex_cert_fields [simp]:
  "c_round (ex_cert r a) = r" "origin (ex_cert r a) = a" "c_epoch (ex_cert r a) = 0"
  "c_parents (ex_cert r a) = (if r = 0 then [] else map (\<lambda>i. 100 * (r - 1) + i) [1, 2, 3])"
  "cert_digest ex_hash (ex_cert r a) = 100 * r + a"
  "signature_verification_state (ex_cert r a) = VerifiedDirectly 1"
  by (simp_all add: ex_cert_def header_new_def Let_def cert_digest_def header_digest_def header_hash_def
      ex_hash_def wire_def)

lemma ex_hash_wire: "ex_hash (wire (c_header (ex_cert r a))) = 100 * r + a"
  by (simp add: ex_hash_def wire_def)

lemma ex_sealed: "a < 100 \<Longrightarrow> sealed ex_hash ex_wires (ex_cert r a)"
  by (auto simp: sealed_def ex_wires_def ex_hash_wire)

lemma ex_header_valid: "a \<in> {1, 2, 3, 4} \<Longrightarrow> header_validate ex_hash ex_committee (c_header (ex_cert r a)) = Inr ()"
  by (elim insertE emptyE)
    (simp_all add: header_validate_def ex_cert_def header_new_def header_hash_def Let_def authority_def bt_get_def
      committee_size_def authorities_def bt_values_def ex_committee_def ex_authority_def wire_def)

lemma ex_signed: "fst (signed_by (ex_cert r a) (bls_keys ex_committee)) = 3"
  by (simp add: signed_by_def ex_cert_def bls_keys_def bt_values_def ex_committee_def ex_authority_def)

lemma ex_digest_inj:
  assumes h: "100 * r + a = 100 * r' + a'" and "a < 100" "a' < (100 :: nat)"
  shows "r = r'" "a = a'"
proof -
  have "r = (100 * r + a) div 100" "a = (100 * r + a) mod 100" using assms(2) by simp_all
  moreover have "r' = (100 * r' + a') div 100" "a' = (100 * r' + a') mod 100" using assms(3) by simp_all
  ultimately show "r = r'" "a = a'" using h by metis+
qed

lemma ex_collision_free: "collision_free ex_hash ex_wires"
  unfolding collision_free_def
proof (rule inj_onI)
  fix x y assume "x \<in> ex_wires" "y \<in> ex_wires" and eq: "ex_hash x = ex_hash y"
  then obtain r a r' a' where x: "x = wire (c_header (ex_cert r a))" "a < 100"
    and y: "y = wire (c_header (ex_cert r' a'))" "a' < 100" by (auto simp: ex_wires_def)
  have h: "100 * r + a = 100 * r' + a'" using eq unfolding x(1) y(1) ex_hash_wire .
  from ex_digest_inj [OF h x(2) y(2)] x y show "x = y" by simp
qed

end
