(* ===== verification/Sub_Dag.thy ===== *)
theory Sub_Dag
  imports Certificates
begin

text \<open>
  Reputation scores (\<open>reputation.rs\<close>), committed sub-DAGs and the consensus output
  (\<open>output.rs\<close>) and the header of the consensus chain (\<open>block.rs\<close>), all under
  \<open>crates/infrastructure/types/src/primary\<close>. A score is a counter of votes, unbounded here: it
  grows by one per counted vote. The hash functions over already hashed parts are parameters.
\<close>

section \<open>Reputation scores\<close>

record reputation_scores =
  scores_per_authority :: "(auth_id, nat) btree"
  final_of_schedule :: bool

definition reputation_new :: "committee \<Rightarrow> reputation_scores" where
  "reputation_new c =
     \<lparr>scores_per_authority = bt_collect (map (\<lambda>a. (auth_ident a, 0)) (authorities c)),
      final_of_schedule = False\<rparr>"

definition reputation_default :: reputation_scores where
  "reputation_default = \<lparr>scores_per_authority = [], final_of_schedule = False\<rparr>"

definition add_score :: "auth_id \<Rightarrow> nat \<Rightarrow> reputation_scores \<Rightarrow> reputation_scores" where
  "add_score i score s =
     (case bt_get (scores_per_authority s) i of
        Some v \<Rightarrow> s\<lparr>scores_per_authority := bt_insert i (v + score) (scores_per_authority s)\<rparr>
      | None \<Rightarrow> s\<lparr>scores_per_authority := bt_insert i score (scores_per_authority s)\<rparr>)"

definition total_authorities :: "reputation_scores \<Rightarrow> nat" where
  "total_authorities s = length (scores_per_authority s)"

definition all_zero :: "reputation_scores \<Rightarrow> bool" where
  "all_zero s = (\<not> list_ex (\<lambda>v. v > 0) (bt_values (scores_per_authority s)))"

text \<open>The comparison of the sort: higher score first, then higher identifier.\<close>

definition score_le :: "auth_id \<times> nat \<Rightarrow> auth_id \<times> nat \<Rightarrow> bool" where
  "score_le x y \<longleftrightarrow> snd y < snd x \<or> (snd y = snd x \<and> fst y \<le> fst x)"

text \<open>\<open>entries\<close> is what the iteration over the \<open>HashMap\<close> yields, in any order.\<close>

definition sort_scores :: "(auth_id \<times> nat) list \<Rightarrow> (auth_id \<times> nat) list" where
  "sort_scores entries = sort_by score_le entries"

definition authorities_by_score_desc :: "reputation_scores \<Rightarrow> (auth_id \<times> nat) list" where
  "authorities_by_score_desc s = sort_scores (scores_per_authority s)"

section \<open>Committed sub-DAGs\<close>

record committed_sub_dag =
  certificates :: "certificate list"
  leader :: certificate
  reputation_score :: reputation_scores
  sub_dag_ts :: timestamp

definition sub_dag_new ::
  "certificate list \<Rightarrow> certificate \<Rightarrow> reputation_scores \<Rightarrow> committed_sub_dag option \<Rightarrow>
   committed_sub_dag" where
  "sub_dag_new certs ldr scores previous =
     (let previous_ts = (case previous of None \<Rightarrow> 0 | Some s \<Rightarrow> sub_dag_ts s)
      in \<lparr>certificates = certs, leader = ldr, reputation_score = scores,
          sub_dag_ts = max previous_ts (h_created_at (c_header ldr))\<rparr>)"

abbreviation leader_round :: "committed_sub_dag \<Rightarrow> round" where
  "leader_round s \<equiv> c_round (leader s)"

abbreviation leader_epoch :: "committed_sub_dag \<Rightarrow> epoch" where
  "leader_epoch s \<equiv> c_epoch (leader s)"

definition num_primary_blocks :: "committed_sub_dag \<Rightarrow> nat" where
  "num_primary_blocks s = sum_list (map (\<lambda>c. length (payload (c_header c))) (certificates s))"

definition is_last :: "hash_fun \<Rightarrow> committed_sub_dag \<Rightarrow> certificate \<Rightarrow> bool" where
  "is_last H s c = (certificates s \<noteq> [] \<and> cert_eq H (last (certificates s)) c)"

definition commit_timestamp :: "committed_sub_dag \<Rightarrow> timestamp" where
  "commit_timestamp s =
     (if sub_dag_ts s = 0 then h_created_at (c_header (leader s)) else sub_dag_ts s)"

definition reaches_epoch_boundary :: "committed_sub_dag \<Rightarrow> timestamp \<Rightarrow> bool" where
  "reaches_epoch_boundary s boundary = (commit_timestamp s \<ge> boundary)"

text \<open>The loop of \<open>verify_certificates_with_keys\<close> over the certificates.\<close>

fun verify_rest ::
  "hash_fun \<Rightarrow> verify_fun \<Rightarrow> bls_key list \<Rightarrow> digest set \<Rightarrow> certificate list \<Rightarrow>
   (certificate_error, certificate list) result" where
  "verify_rest H verify keys verified [] = Inr []"
| "verify_rest H verify keys verified (c # cs) =
     (if cert_digest H c \<in> verified then
        (case verify_rest H verify keys verified cs of Inl e \<Rightarrow> Inl e | Inr out \<Rightarrow> Inr (c # out))
      else
        (case verify_cert H verify keys c of Inl e \<Rightarrow> Inl e
         | Inr c' \<Rightarrow>
             (case verify_rest H verify keys (insert (cert_digest H c') verified) cs of
                Inl e \<Rightarrow> Inl e | Inr out \<Rightarrow> Inr (c' # out))))"

definition verify_certificates_with_keys ::
  "hash_fun \<Rightarrow> verify_fun \<Rightarrow> bls_key list \<Rightarrow> committed_sub_dag \<Rightarrow>
   (certificate_error, committed_sub_dag) result" where
  "verify_certificates_with_keys H verify keys s =
     (case verify_cert H verify keys (leader s) of Inl e \<Rightarrow> Inl e
      | Inr ldr \<Rightarrow>
          (case verify_rest H verify keys (set (c_parents ldr)) (certificates s) of Inl e \<Rightarrow> Inl e
           | Inr certs \<Rightarrow> Inr (s\<lparr>certificates := certs, leader := ldr\<rparr>)))"

definition verify_certificates ::
  "hash_fun \<Rightarrow> verify_fun \<Rightarrow> committee \<Rightarrow> committed_sub_dag \<Rightarrow>
   (certificate_error, committed_sub_dag) result" where
  "verify_certificates H verify c s = verify_certificates_with_keys H verify (bls_keys c) s"

text \<open>\<open>HS\<close> hashes the certificate digests, the leader digest and the timestamp, in this order.\<close>

type_synonym sub_dag_hash = "digest list \<Rightarrow> digest \<Rightarrow> timestamp \<Rightarrow> digest"

definition sub_dag_digest :: "hash_fun \<Rightarrow> sub_dag_hash \<Rightarrow> committed_sub_dag \<Rightarrow> digest" where
  "sub_dag_digest H HS s =
     HS (map (cert_digest H) (certificates s)) (cert_digest H (leader s)) (sub_dag_ts s)"

section \<open>The consensus chain and the consensus output\<close>

record consensus_header =
  ch_parent_hash :: digest
  ch_sub_dag :: committed_sub_dag
  ch_number :: nat
  ch_extra :: digest

type_synonym chain_hash = "digest \<Rightarrow> digest \<Rightarrow> nat \<Rightarrow> digest"

definition digest_from_parts ::
  "hash_fun \<Rightarrow> sub_dag_hash \<Rightarrow> chain_hash \<Rightarrow> digest \<Rightarrow> committed_sub_dag \<Rightarrow> nat \<Rightarrow> digest" where
  "digest_from_parts H HS HC parent_hash s number = HC parent_hash (sub_dag_digest H HS s) number"

definition consensus_header_digest ::
  "hash_fun \<Rightarrow> sub_dag_hash \<Rightarrow> chain_hash \<Rightarrow> consensus_header \<Rightarrow> digest" where
  "consensus_header_digest H HS HC h =
     digest_from_parts H HS HC (ch_parent_hash h) (ch_sub_dag h) (ch_number h)"

definition verify_header_with_keys ::
  "hash_fun \<Rightarrow> verify_fun \<Rightarrow> bls_key list \<Rightarrow> consensus_header \<Rightarrow>
   (certificate_error, consensus_header) result" where
  "verify_header_with_keys H verify keys h =
     (case verify_certificates_with_keys H verify keys (ch_sub_dag h) of
        Inl e \<Rightarrow> Inl e | Inr s \<Rightarrow> Inr (h\<lparr>ch_sub_dag := s\<rparr>))"

record 'b certified_batch =
  cb_address :: address
  cb_batches :: "'b list"

record 'b consensus_output =
  sub_dag :: committed_sub_dag
  batches :: "'b certified_batch list"
  batch_digests :: "digest list"
  parent_hash :: digest
  number :: nat
  extra :: digest
  close_epoch :: bool

definition next_batch_digest :: "'b consensus_output \<Rightarrow> digest option \<times> 'b consensus_output" where
  "next_batch_digest out =
     (case batch_digests out of
        [] \<Rightarrow> (None, out)
      | d # ds \<Rightarrow> (Some d, out\<lparr>batch_digests := ds\<rparr>))"

definition flatten_batches :: "'b consensus_output \<Rightarrow> (nat \<times> nat) list" where
  "flatten_batches out =
     concat (map (\<lambda>(cert_idx, cb). map (Pair cert_idx) [0..<length (cb_batches cb)])
       (List.enumerate 0 (batches out)))"

definition output_consensus_header :: "'b consensus_output \<Rightarrow> consensus_header" where
  "output_consensus_header out =
     \<lparr>ch_parent_hash = parent_hash out, ch_sub_dag = sub_dag out, ch_number = number out,
      ch_extra = extra out\<rparr>"

definition consensus_header_hash ::
  "hash_fun \<Rightarrow> sub_dag_hash \<Rightarrow> chain_hash \<Rightarrow> 'b consensus_output \<Rightarrow> digest" where
  "consensus_header_hash H HS HC out =
     digest_from_parts H HS HC (parent_hash out) (sub_dag out) (number out)"

definition close_epoch_for_last_batch :: "'b consensus_output \<Rightarrow> bool option" where
  "close_epoch_for_last_batch out = (if close_epoch out then Some (batch_digests out = []) else None)"

definition keccak_leader_sigs :: "(signature \<Rightarrow> digest) \<Rightarrow> 'b consensus_output \<Rightarrow> digest" where
  "keccak_leader_sigs keccak out =
     keccak (case aggregated_signature (leader (sub_dag out)) of
               Some s \<Rightarrow> s | None \<Rightarrow> default_signature)"

definition epoch_close_seed ::
  "hash_fun \<Rightarrow> sub_dag_hash \<Rightarrow> chain_hash \<Rightarrow> 'b consensus_output \<Rightarrow> digest" where
  "epoch_close_seed H HS HC out = consensus_header_hash H HS HC out"

definition output_nonce :: "'b consensus_output \<Rightarrow> nat" where
  "output_nonce out = cert_nonce (leader (sub_dag out))"

section \<open>Lemmas\<close>

lemma score_le_total_preorder: "total_preorder score_le"
  by (auto simp: total_preorder_def score_le_def)

lemma score_le_antisym: "score_le x y \<Longrightarrow> score_le y x \<Longrightarrow> x = y"
  by (auto simp: score_le_def prod_eq_iff)

text \<open>The ranking does not depend on the order in which the hash map is walked.\<close>

lemma sort_scores_perm: "mset xs = mset ys \<Longrightarrow> sort_scores xs = sort_scores ys"
  unfolding sort_scores_def
  by (rule sort_by_cong_mset [OF score_le_total_preorder]) (auto dest: score_le_antisym)

lemma sort_scores_sorted: "sorted_wrt score_le (sort_scores xs)"
  unfolding sort_scores_def by (rule sorted_sort_by [OF score_le_total_preorder])

lemma set_by_score [simp]: "set (authorities_by_score_desc s) = set (scores_per_authority s)"
  by (simp add: authorities_by_score_desc_def sort_scores_def)

lemma bt_inv_add_score [keeps]:
  "bt_inv (scores_per_authority s) \<Longrightarrow> bt_inv (scores_per_authority (add_score i v s))"
  by (auto simp: add_score_def split: option.splits)

lemma get_add_score:
  "bt_inv (scores_per_authority s) \<Longrightarrow>
   bt_get (scores_per_authority (add_score i v s)) =
     (bt_get (scores_per_authority s))
       (i \<mapsto> (case bt_get (scores_per_authority s) i of None \<Rightarrow> 0 | Some x \<Rightarrow> x) + v)"
  by (auto simp: add_score_def bt_get_insert split: option.splits)

lemma final_add_score [simp]: "final_of_schedule (add_score i v s) = final_of_schedule s"
  by (auto simp: add_score_def split: option.splits)

lemma sub_dag_new_ts:
  "sub_dag_ts (sub_dag_new certs l r prev) =
     max (case prev of None \<Rightarrow> 0 | Some s \<Rightarrow> sub_dag_ts s) (h_created_at (c_header l))"
  by (simp add: sub_dag_new_def)

lemma verify_cert_digest:
  "verify_cert H verify keys c = Inr c' \<Longrightarrow>
   cert_digest H c' = cert_digest H c \<and> c_header c' = c_header c
     \<and> signed_authorities c' = signed_authorities c
     \<and> (\<exists>s w pks t. aggregated_signature c = Some s \<and> signature_verification_state c' = VerifiedDirectly s
          \<and> signed_by c keys = (w, pks) \<and> quorum_threshold_members (length keys) = Some t \<and> t \<le> w
          \<and> verify s (cert_digest H c) pks)"
  by (auto simp: verify_cert_def validate_received_def verify_signature_def cert_digest_def
      signed_by_def split: option.splits sum.splits if_splits prod.splits)

end
