(* ===== verification/Leader_Schedule.thy ===== *)
theory Leader_Schedule
  imports Sub_Dag
begin

text \<open>
  The leader schedule of \<open>crates/consensus/primary/src/consensus/leader_schedule.rs\<close>: the table
  that swaps under-performing leaders, built from the reputation scores of a schedule, and the
  round-robin election. The seeded generator of the \<open>rand\<close> crate is the parameter \<open>draw\<close>: the
  index it draws for a round among a given number of nodes.
\<close>

section \<open>The swap table\<close>

record leader_swap_table =
  st_round :: round
  good_nodes :: "authority list"
  bad_nodes :: "(auth_id, authority) btree"

definition swap_table_default :: leader_swap_table where
  "swap_table_default = \<lparr>st_round = 0, good_nodes = [], bad_nodes = []\<rparr>"

text \<open>
  \<open>(x as f64).sqrt() as u64\<close>: the square root rounded down, which is what the correctly rounded
  \<open>f64\<close> root gives for every \<open>x\<close> below \<open>2^52\<close>.
\<close>

fun isqrt :: "nat \<Rightarrow> nat" where
  "isqrt n = (if n = 0 then 0
     else let r = 2 * isqrt (n div 4) in if (r + 1) * (r + 1) \<le> n then r + 1 else r)"

declare isqrt.simps [simp del]

definition nodes_at_most :: "committee \<Rightarrow> (auth_id \<times> nat) list \<Rightarrow> nat \<Rightarrow> authority list" where
  "nodes_at_most c by_score ceil =
     List.map_filter (\<lambda>(i, rep). if rep \<le> ceil then authority c i else None) (rev by_score)"

definition nodes_at_least :: "committee \<Rightarrow> (auth_id \<times> nat) list \<Rightarrow> nat \<Rightarrow> authority list" where
  "nodes_at_least c by_score floor =
     List.map_filter (\<lambda>(i, rep). if rep \<ge> floor then authority c i else None) by_score"

text \<open>The loop that lowers the ceiling of the bad nodes; it returns them with the final ceiling.\<close>

function bad_loop ::
  "committee \<Rightarrow> (auth_id \<times> nat) list \<Rightarrow> nat \<Rightarrow> nat \<Rightarrow> nat \<Rightarrow> nat \<Rightarrow> authority list \<times> nat" where
  "bad_loop c by_score list_threshold sd bad_ceil old_bad_ceil =
     (let bad = nodes_at_most c by_score bad_ceil in
      if length bad \<le> list_threshold then (bad, bad_ceil)
      else let bad_ceil' = bad_ceil - sd in
        if old_bad_ceil = bad_ceil' then (bad, bad_ceil')
        else bad_loop c by_score list_threshold sd bad_ceil' bad_ceil')"
  by pat_completeness auto
termination
  by (relation "measure (\<lambda>(c, b, t, sd, ceil, old). 2 * ceil + (if ceil = old then 0 else 1))") auto

text \<open>The loop that lowers the floor of the good nodes, never under \<open>bad_ceil + 1\<close>.\<close>

function good_loop ::
  "committee \<Rightarrow> (auth_id \<times> nat) list \<Rightarrow> nat \<Rightarrow> nat \<Rightarrow> nat \<Rightarrow> nat \<Rightarrow> nat \<Rightarrow> authority list" where
  "good_loop c by_score list_threshold sd bad_ceil good_floor old_good_floor =
     (let good = nodes_at_least c by_score good_floor in
      if length good \<ge> list_threshold then good
      else let good_floor' = max (good_floor - sd) (bad_ceil + 1) in
        if old_good_floor = good_floor' then good
        else good_loop c by_score list_threshold sd bad_ceil good_floor' good_floor')"
  by pat_completeness auto
termination
  by (relation "measure (\<lambda>(c, b, t, sd, bad, fl, old).
       if fl < bad + 1 then 2 * (bad + 1) + 2 else 2 * fl + (if fl = old then 0 else 1))")
    (auto simp: max_def)

declare bad_loop.simps [simp del] good_loop.simps [simp del]

definition mean_rep :: "(auth_id \<times> nat) list \<Rightarrow> nat" where
  "mean_rep by_score =
     (if by_score = [] then 0 else sum_list (map snd by_score) div length by_score)"

text \<open>\<open>None\<close>: the division by the number of scores panics when there are none.\<close>

definition standard_dev :: "(auth_id \<times> nat) list \<Rightarrow> nat option" where
  "standard_dev by_score =
     (if by_score = [] then None
      else Some (isqrt
        (sum_list (map (\<lambda>(_, r). nat ((int r - int (mean_rep by_score)) * (int r - int (mean_rep by_score))))
           by_score) div length by_score)))"

text \<open>The branch that tags nodes; \<open>None\<close>: the assertion that there is a good node fails.\<close>

definition pick_nodes ::
  "committee \<Rightarrow> (auth_id \<times> nat) list \<Rightarrow> nat \<Rightarrow> nat \<Rightarrow> nat \<Rightarrow>
   (authority list \<times> (auth_id, authority) btree) option" where
  "pick_nodes c by_score list_threshold sd highest_rep =
     (let (bad, bad_ceil) =
            bad_loop c by_score list_threshold sd (highest_rep - 2 * sd) (highest_rep - 2 * sd);
          good_floor = max (highest_rep - sd) (bad_ceil + 1);
          good = good_loop c by_score list_threshold sd bad_ceil good_floor good_floor
      in if bad \<noteq> [] \<and> good = [] then None
         else Some (good, bt_collect (map (\<lambda>a. (auth_ident a, a)) bad)))"

definition swap_table_new ::
  "committee \<Rightarrow> round \<Rightarrow> reputation_scores \<Rightarrow> nat \<Rightarrow> leader_swap_table option" where
  "swap_table_new c r scores bad_nodes_percent_threshold =
     (if bad_nodes_percent_threshold > 33 \<or> \<not> final_of_schedule scores then None
      else let by_score = authorities_by_score_desc scores;
               list_threshold = max ((length by_score * bad_nodes_percent_threshold) div 100) 1;
               highest_rep = (case by_score of [] \<Rightarrow> 0 | x # _ \<Rightarrow> snd x);
               lowest_rep = (if by_score = [] then 0 else snd (last by_score))
      in case standard_dev by_score of None \<Rightarrow> None
      | Some sd \<Rightarrow>
          (case (if sd = 0 \<or> lowest_rep > highest_rep - 2 * sd then Some ([], [])
                 else pick_nodes c by_score list_threshold sd highest_rep) of
             None \<Rightarrow> None
           | Some (good, bad) \<Rightarrow> Some \<lparr>st_round = r, good_nodes = good, bad_nodes = bad\<rparr>))"

type_synonym draw_fun = "round \<Rightarrow> nat \<Rightarrow> nat"

text \<open>Outer \<open>None\<close>: the \<open>expect\<close> on an empty good list panics.\<close>

definition swap :: "draw_fun \<Rightarrow> leader_swap_table \<Rightarrow> auth_id \<Rightarrow> round \<Rightarrow> authority option option" where
  "swap draw t ldr r =
     (if bt_get (bad_nodes t) ldr \<noteq> None then
        (if good_nodes t = [] then None
         else Some (Some (good_nodes t ! draw r (length (good_nodes t)))))
      else Some None)"

section \<open>The schedule\<close>

record leader_schedule =
  ls_committee :: committee
  leader_swap_table :: leader_swap_table

type_synonym dag = "(round, (auth_id, digest \<times> certificate) btree) btree"

definition schedule_new :: "committee \<Rightarrow> leader_swap_table \<Rightarrow> leader_schedule" where
  "schedule_new c t = \<lparr>ls_committee = c, leader_swap_table = t\<rparr>"

text \<open>\<open>latest\<close> is the latest commit of the epoch with final scores that the store holds.\<close>

definition from_store ::
  "committee \<Rightarrow> committed_sub_dag option \<Rightarrow> nat \<Rightarrow> leader_schedule option" where
  "from_store c latest bad_nodes_percent_threshold =
     map_option (schedule_new c)
       (case latest of None \<Rightarrow> Some swap_table_default
        | Some sd \<Rightarrow>
            swap_table_new c (leader_round sd) (reputation_score sd) bad_nodes_percent_threshold)"

definition update_leader_swap_table :: "leader_swap_table \<Rightarrow> leader_schedule \<Rightarrow> leader_schedule" where
  "update_leader_swap_table t s = s\<lparr>leader_swap_table := t\<rparr>"

definition leader_of :: "draw_fun \<Rightarrow> leader_schedule \<Rightarrow> round \<Rightarrow> authority option" where
  "leader_of draw s r =
     (if r mod 2 \<noteq> 0 \<or> committee_size (ls_committee s) = 0 then None
      else let next_leader = (r div 2 - 1) mod committee_size (ls_committee s);
               auths = authorities (ls_committee s)
           in if next_leader \<ge> length auths then None
              else let ldr = auths ! next_leader
                   in (case swap draw (leader_swap_table s) (auth_ident ldr) r of
                         None \<Rightarrow> None | Some None \<Rightarrow> Some ldr | Some (Some good) \<Rightarrow> Some good))"

definition leader_certificate ::
  "draw_fun \<Rightarrow> leader_schedule \<Rightarrow> round \<Rightarrow> dag \<Rightarrow> (authority \<times> certificate option) option" where
  "leader_certificate draw s r d =
     (case leader_of draw s r of None \<Rightarrow> None
      | Some ldr \<Rightarrow>
          Some (case bt_get d r of None \<Rightarrow> (ldr, None)
                | Some m \<Rightarrow> (case bt_get m (auth_ident ldr) of None \<Rightarrow> (ldr, None)
                            | Some (_, c) \<Rightarrow> (ldr, Some c))))"

definition num_of_bad_nodes :: "leader_schedule \<Rightarrow> nat" where
  "num_of_bad_nodes s = length (bad_nodes (leader_swap_table s))"

section \<open>The square root and the loops\<close>

lemma isqrt_bounds: "isqrt n * isqrt n \<le> n \<and> n < (isqrt n + 1) * (isqrt n + 1)"
proof (induction n rule: isqrt.induct)
  case (1 n)
  show ?case
  proof (cases "n = 0")
    case True
    then show ?thesis by (simp add: isqrt.simps)
  next
    case False
    define s where "s = isqrt (n div 4)"
    have IH: "s * s \<le> n div 4" "n div 4 < (s + 1) * (s + 1)"
      using 1 [OF False] unfolding s_def by auto
    have "4 * (s * s) \<le> n" using IH(1) by linarith
    moreover have "n < 4 * ((s + 1) * (s + 1))" using IH(2) by linarith
    moreover have "isqrt n = (if (2 * s + 1) * (2 * s + 1) \<le> n then 2 * s + 1 else 2 * s)"
      using False by (subst isqrt.simps) (simp add: s_def Let_def)
    ultimately show ?thesis by (auto simp: algebra_simps)
  qed
qed

lemma isqrt_pos: "0 < isqrt n \<Longrightarrow> 0 < n"
  using isqrt_bounds [of n] by (cases n) auto

lemma nodes_at_most_iff:
  "a \<in> set (nodes_at_most c by_score ceil) \<longleftrightarrow>
   (\<exists>i rep. (i, rep) \<in> set by_score \<and> rep \<le> ceil \<and> authority c i = Some a)"
  by (force simp: nodes_at_most_def List.map_filter_def split: if_splits)

lemma nodes_at_least_iff:
  "a \<in> set (nodes_at_least c by_score floor) \<longleftrightarrow>
   (\<exists>i rep. (i, rep) \<in> set by_score \<and> floor \<le> rep \<and> authority c i = Some a)"
  by (force simp: nodes_at_least_def List.map_filter_def split: if_splits)

text \<open>
  The bad nodes are those at or below the returned ceiling, which is not above the first one; they
  fit the threshold unless the ceiling has reached zero.
\<close>

lemma bad_loop_result:
  assumes "bad_loop c by_score t sd ceil old = (bad, ceil')" "0 < sd" "old = ceil"
  shows "bad = nodes_at_most c by_score ceil'" "ceil' \<le> ceil" "length bad \<le> t \<or> ceil' = 0"
  using assms
proof (induction c by_score t sd ceil old rule: bad_loop.induct)
  case (1 c by_score t sd ceil old)
  let ?bad = "nodes_at_most c by_score ceil"
  {
    case 1
    then show ?case using "1.IH" by (subst (asm) bad_loop.simps) (auto simp: Let_def split: if_splits)
  next
    case 2
    then show ?case using "1.IH"(2) by (subst (asm) bad_loop.simps) (fastforce simp: Let_def split: if_splits)
  next
    case 3
    then show ?case using "1.IH"(3) by (subst (asm) bad_loop.simps) (auto simp: Let_def split: if_splits)
  }
qed

text \<open>
  The good nodes are those at or above some floor that lies over the bad ceiling and not over the
  first floor; they fill the threshold unless the floor has come down to just over the ceiling.
\<close>

lemma good_loop_result:
  assumes "b + 1 \<le> fl"
  shows "\<exists>fl'. good_loop c by_score t sd b fl old = nodes_at_least c by_score fl' \<and> b + 1 \<le> fl' \<and> fl' \<le> fl"
  using assms
proof (induction c by_score t sd b fl old rule: good_loop.induct)
  case (1 c by_score t sd b fl old)
  let ?fl = "max (fl - sd) (b + 1)"
  show ?case
  proof (cases "length (nodes_at_least c by_score fl) \<ge> t \<or> old = ?fl")
    case True
    then show ?thesis
      using "1.prems" by (subst good_loop.simps) (auto simp: Let_def intro!: exI [of _ fl])
  next
    case False
    then obtain fl' where "good_loop c by_score t sd b ?fl ?fl = nodes_at_least c by_score fl'"
      "b + 1 \<le> fl'" "fl' \<le> ?fl"
      using "1.IH" [OF refl _ refl] by (auto simp: not_le)
    moreover have "?fl \<le> fl" using "1.prems" by simp
    ultimately show ?thesis
      using False by (subst good_loop.simps) (auto simp: Let_def intro!: exI [of _ fl'])
  qed
qed

section \<open>Well-formed tables and schedules\<close>

definition swap_table_ok :: "committee \<Rightarrow> leader_swap_table \<Rightarrow> bool" where
  "swap_table_ok c t \<longleftrightarrow>
     (\<forall>a\<in>set (good_nodes t). authority c (auth_ident a) = Some a)
     \<and> (\<forall>(i, a)\<in>set (bad_nodes t). auth_ident a = i \<and> authority c i = Some a)
     \<and> auth_ident ` set (good_nodes t) \<inter> fst ` set (bad_nodes t) = {}
     \<and> (bad_nodes t \<noteq> [] \<longrightarrow> good_nodes t \<noteq> [])"

definition schedule_ok :: "leader_schedule \<Rightarrow> bool" where
  "schedule_ok s \<longleftrightarrow> committee_ok (ls_committee s) \<and> swap_table_ok (ls_committee s) (leader_swap_table s)"

definition scores_ok :: "committee \<Rightarrow> reputation_scores \<Rightarrow> bool" where
  "scores_ok c s \<longleftrightarrow> bt_inv (scores_per_authority s) \<and> fst ` set (scores_per_authority s) = members c"

definition draw_ok :: "draw_fun \<Rightarrow> bool" where
  "draw_ok draw \<longleftrightarrow> (\<forall>r n. 0 < n \<longrightarrow> draw r n < n)"

lemma swap_table_default_ok [keeps]: "swap_table_ok c swap_table_default"
  by (simp add: swap_table_ok_def swap_table_default_def)

lemma reputation_new_ok [keeps]: "committee_ok c \<Longrightarrow> scores_ok c (reputation_new c)"
  using arg_cong [OF map_ident_authorities [of c], of set]
  by (simp add: scores_ok_def reputation_new_def fst_set_bt_collect image_image members_def bt_keys_def)

lemma add_score_ok [keeps]:
  assumes "scores_ok c s" "i \<in> members c"
  shows "scores_ok c (add_score i v s)"
proof -
  have "fst ` set (bt_insert i x m) = insert i (fst ` set m)" for x :: nat and m
    using bt_keys_insert [of i x m] by simp
  with assms show ?thesis
    by (auto simp: scores_ok_def add_score_def split: option.splits)
qed

lemma committee_nonempty: "committee_ok c \<Longrightarrow> members c \<noteq> {}"
  using card_members [of c] by (auto simp: committee_ok_def committee_size_def)

lemma authority_ident: "committee_ok c \<Longrightarrow> authority c i = Some a \<Longrightarrow> auth_ident a = i"
  using authority_iff by blast

lemma highest_first:
  "sorted_wrt score_le (x # xs) \<Longrightarrow> y \<in> set (x # xs) \<Longrightarrow> snd y \<le> snd x"
  by (auto simp: score_le_def)

lemma standard_dev_pos:
  assumes "standard_dev by_score = Some sd" "0 < sd" "\<forall>y\<in>set by_score. snd y \<le> m"
  shows "0 < m"
proof (rule ccontr)
  assume "\<not> 0 < m"
  with assms(3) have z: "\<And>i r. (i, r) \<in> set by_score \<Longrightarrow> r = 0" by fastforce
  then have zs: "map snd by_score = map (\<lambda>_. 0) by_score" by (auto intro!: map_cong)
  have mean: "mean_rep by_score = 0" unfolding mean_rep_def zs by simp
  have sq: "map (\<lambda>(_, r). nat ((int r - int (mean_rep by_score)) * (int r - int (mean_rep by_score)))) by_score
      = map (\<lambda>_. 0) by_score"
    unfolding mean using z by (intro map_cong [OF refl]) fastforce
  have "sd = isqrt 0"
    using assms(1) unfolding standard_dev_def sq by (simp split: if_splits)
  with assms(2) isqrt_pos [of 0] show False by simp
qed

lemma table_parts_ok:
  assumes ok: "committee_ok c" and sc: "scores_ok c scores"
    and bs: "bs = authorities_by_score_desc scores" and lt: "ceil + 1 \<le> fl"
  defines "good \<equiv> nodes_at_least c bs fl"
    and "bad \<equiv> bt_collect (map (\<lambda>a. (auth_ident a, a)) (nodes_at_most c bs ceil))"
  shows "\<forall>a\<in>set good. authority c (auth_ident a) = Some a"
    and "\<forall>(i, a)\<in>set bad. auth_ident a = i \<and> authority c i = Some a"
    and "auth_ident ` set good \<inter> fst ` set bad = {}"
proof -
  show "\<forall>a\<in>set good. authority c (auth_ident a) = Some a"
    using authority_ident [OF ok] by (auto simp: good_def nodes_at_least_iff)
  have "bt_get bad i = Some a \<Longrightarrow> auth_ident a = i \<and> authority c i = Some a" for i a
    using authority_ident [OF ok]
    by (auto simp: bad_def bt_get_collect nodes_at_most_iff dest!: map_of_SomeD)
  moreover have "bt_inv bad" by (simp add: bad_def)
  ultimately show "\<forall>(i, a)\<in>set bad. auth_ident a = i \<and> authority c i = Some a"
    using bt_get_iff by fastforce
  have d: "bt_inv (scores_per_authority scores)" using sc by (simp add: scores_ok_def)
  have uniq: "rep = rep'" if "(i, rep) \<in> set bs" "(i, rep') \<in> set bs" for i rep rep'
    using that d unfolding bs by (simp add: bt_get_iff [symmetric])
  have "fst ` set bad = auth_ident ` set (nodes_at_most c bs ceil)"
    by (simp add: bad_def fst_set_bt_collect image_image)
  moreover have False if "a \<in> set good" "b \<in> set (nodes_at_most c bs ceil)" "auth_ident a = auth_ident b"
    for a b
  proof -
    from that(1) obtain i rep where 1: "(i, rep) \<in> set bs" "fl \<le> rep" "auth_ident a = i"
      using authority_ident [OF ok] by (auto simp: good_def nodes_at_least_iff)
    from that(2) obtain j rep' where 2: "(j, rep') \<in> set bs" "rep' \<le> ceil" "auth_ident b = j"
      using authority_ident [OF ok] by (auto simp: nodes_at_most_iff)
    from 1 2 that(3) have "rep = rep'" using uniq by metis
    with 1 2 lt show False by simp
  qed
  ultimately show "auth_ident ` set good \<inter> fst ` set bad = {}" by blast
qed

lemma pick_nodes_ok:
  assumes ok: "committee_ok c" and sc: "scores_ok c scores"
    and bs: "bs = authorities_by_score_desc scores"
    and sd: "0 < sd" and top: "(i, m) \<in> set bs" "0 < m"
  shows "\<exists>good bad. pick_nodes c bs lt sd m = Some (good, bad)
    \<and> swap_table_ok c \<lparr>st_round = r, good_nodes = good, bad_nodes = bad\<rparr>"
proof -
  obtain bad ceil where bl: "bad_loop c bs lt sd (m - 2 * sd) (m - 2 * sd) = (bad, ceil)"
    by (metis surj_pair)
  note bad = bad_loop_result [OF bl sd refl]
  let ?fl = "max (m - sd) (ceil + 1)"
  obtain fl where good: "good_loop c bs lt sd ceil ?fl ?fl = nodes_at_least c bs fl"
    "ceil + 1 \<le> fl" "fl \<le> ?fl"
    using good_loop_result [of ceil ?fl c bs lt sd ?fl] by auto
  have "?fl \<le> m" using bad(2) top(2) sd by auto
  with good(3) have "fl \<le> m" by simp
  have "i \<in> members c" using top(1) sc unfolding bs by (force simp: scores_ok_def)
  then obtain a where "authority c i = Some a"
    by (auto simp: members_iff is_authority_def authority_def)
  with \<open>fl \<le> m\<close> top(1) have "a \<in> set (nodes_at_least c bs fl)"
    unfolding nodes_at_least_iff by blast
  then have ne: "nodes_at_least c bs fl \<noteq> []" by auto
  have "pick_nodes c bs lt sd m =
      Some (nodes_at_least c bs fl, bt_collect (map (\<lambda>a. (auth_ident a, a)) (nodes_at_most c bs ceil)))"
    using bl good(1) ne bad(1) by (simp add: pick_nodes_def Let_def)
  with table_parts_ok [OF ok sc bs good(2)] ne show ?thesis
    by (intro exI conjI) (assumption, simp add: swap_table_ok_def)
qed

text \<open>
  The table of a schedule's final scores: construction does not panic, good and bad nodes are
  committee members and disjoint, and there is a good node whenever there is a bad one.
\<close>

lemma swap_table_new_ok:
  assumes ok: "committee_ok c" and sc: "scores_ok c scores" and fin: "final_of_schedule scores"
    and thr: "thr \<le> 33"
  shows "\<exists>t. swap_table_new c r scores thr = Some t \<and> swap_table_ok c t"
proof -
  define bs where "bs = authorities_by_score_desc scores"
  define lt where "lt = max ((length bs * thr) div 100) 1"
  have "fst ` set bs = members c" using sc by (simp add: bs_def scores_ok_def)
  then obtain x xs where bs: "bs = x # xs" using committee_nonempty [OF ok] by (cases bs) auto
  have "sorted_wrt score_le (x # xs)"
    using sort_scores_sorted [of "scores_per_authority scores"]
    by (simp add: bs [symmetric] bs_def authorities_by_score_desc_def)
  then have top: "\<forall>y\<in>set bs. snd y \<le> snd x" using highest_first by (simp add: bs)
  obtain sd where sd: "standard_dev bs = Some sd" by (auto simp: standard_dev_def bs)
  have hi: "(case bs of [] \<Rightarrow> 0 | x # _ \<Rightarrow> snd x) = snd x" by (simp add: bs)
  define zero where "zero \<longleftrightarrow> sd = 0 \<or> (if bs = [] then 0 else snd (last bs)) > snd x - 2 * sd"
  have unf: "swap_table_new c r scores thr =
      (case (if zero then Some ([], []) else pick_nodes c bs lt sd (snd x)) of None \<Rightarrow> None
       | Some (good, bad) \<Rightarrow> Some \<lparr>st_round = r, good_nodes = good, bad_nodes = bad\<rparr>)"
    using fin thr unfolding swap_table_new_def bs_def [symmetric] Let_def hi lt_def sd zero_def by simp
  show ?thesis
  proof (cases zero)
    case True
    then show ?thesis by (simp add: unf swap_table_ok_def)
  next
    case False
    then have "0 < sd" by (auto simp: zero_def)
    moreover have "0 < snd x" using standard_dev_pos [OF sd \<open>0 < sd\<close> top] .
    moreover have "(fst x, snd x) \<in> set bs" by (simp add: bs)
    ultimately show ?thesis
      using pick_nodes_ok [OF ok sc bs_def, of sd "fst x" "snd x" lt r] False by (auto simp: unf)
  qed
qed

section \<open>The elected leader\<close>

lemma leader_of_member:
  assumes ok: "schedule_ok s" and draw: "draw_ok draw" and even: "even r"
  shows "\<exists>a. leader_of draw s r = Some a \<and> authority (ls_committee s) (auth_ident a) = Some a"
proof -
  let ?c = "ls_committee s" and ?t = "leader_swap_table s"
  have c: "committee_ok ?c" and t: "swap_table_ok ?c ?t" using ok by (simp_all add: schedule_ok_def)
  have pos: "0 < committee_size ?c" using c by (auto simp: committee_ok_def committee_size_def)
  define i where "i = (r div 2 - 1) mod committee_size ?c"
  have i: "i < length (authorities ?c)" using pos by (simp add: i_def length_authorities [OF c])
  define l where "l = authorities ?c ! i"
  have l: "authority ?c (auth_ident l) = Some l"
    using i authorities_ok [OF c, of l] by (simp add: l_def)
  have eq: "leader_of draw s r =
      (case swap draw ?t (auth_ident l) r of None \<Rightarrow> None | Some None \<Rightarrow> Some l | Some (Some g) \<Rightarrow> Some g)"
    using pos i even unfolding leader_of_def Let_def i_def [symmetric] l_def [symmetric]
    by (simp add: even_iff_mod_2_eq_zero)
  show ?thesis
  proof (cases "bt_get (bad_nodes ?t) (auth_ident l) = None")
    case True
    then show ?thesis using l by (simp add: eq swap_def)
  next
    case False
    then have ne: "good_nodes ?t \<noteq> []" using t by (auto simp: swap_table_ok_def)
    let ?g = "good_nodes ?t ! draw r (length (good_nodes ?t))"
    have "?g \<in> set (good_nodes ?t)" using draw ne by (simp add: draw_ok_def)
    then have "authority ?c (auth_ident ?g) = Some ?g" using t by (simp add: swap_table_ok_def)
    with False ne show ?thesis by (simp add: eq swap_def)
  qed
qed

lemma leader_of_not_bad:
  assumes ok: "schedule_ok s" and draw: "draw_ok draw" and l: "leader_of draw s r = Some a"
  shows "auth_ident a \<notin> fst ` set (bad_nodes (leader_swap_table s))"
proof -
  let ?t = "leader_swap_table s"
  have t: "swap_table_ok (ls_committee s) ?t" using ok by (simp add: schedule_ok_def)
  from l obtain b where "swap draw ?t (auth_ident b) r = Some None \<and> a = b
      \<or> swap draw ?t (auth_ident b) r = Some (Some a)"
    by (auto simp: leader_of_def Let_def split: if_splits option.splits)
  then have "bt_get (bad_nodes ?t) (auth_ident a) = None \<or> a \<in> set (good_nodes ?t)"
    using draw by (auto simp: swap_def draw_ok_def split: if_splits)
  with t show ?thesis by (auto simp: bt_get_None_iff swap_table_ok_def)
qed

lemma round_robin:
  assumes c: "committee_ok c"
  shows "map (\<lambda>k. leader_of draw (schedule_new c swap_table_default) (2 * (k + 1)))
    [0..<committee_size c] = map Some (authorities c)"
  by (rule nth_equalityI)
    (simp_all add: length_authorities [OF c] leader_of_def schedule_new_def swap_def swap_table_default_def)

end
