(* ===== verification/Consensus_State.thy ===== *)
theory Consensus_State
  imports Leader_Schedule
begin

text \<open>
  The in-memory DAG and the state of the ordering engine, from \<open>state.rs\<close> and \<open>utils.rs\<close> of
  \<open>crates/consensus/primary/src/consensus\<close>: insertion with the parent check, garbage
  collection, recovery from the certificate store and the flattening of a leader's sub-DAG.
\<close>

section \<open>State\<close>

record consensus_round =
  committed_round :: round
  gc_round_of :: round

definition gc_round :: "round \<Rightarrow> round \<Rightarrow> round" where
  "gc_round commit_round gc_depth = commit_round - gc_depth"

definition new_with_gc_depth :: "round \<Rightarrow> round \<Rightarrow> consensus_round" where
  "new_with_gc_depth r depth = \<lparr>committed_round = r, gc_round_of = gc_round r depth\<rparr>"

definition round_update :: "consensus_round \<Rightarrow> round \<Rightarrow> round \<Rightarrow> consensus_round" where
  "round_update cr new_committed depth =
     (let last_committed_round = max (committed_round cr) new_committed
      in \<lparr>committed_round = last_committed_round,
          gc_round_of = gc_round last_committed_round depth\<rparr>)"

record consensus_state =
  last_round :: consensus_round
  gc_depth :: round
  last_committed :: "(auth_id, round) btree"
  last_committed_sub_dag :: "committed_sub_dag option"
  the_dag :: dag

datatype consensus_error =
    CertificateEquivocation certificate certificate
  | ShuttingDown
  | MissingParent digest certificate
  | MissingParentRound certificate

definition state_new :: "round \<Rightarrow> consensus_state" where
  "state_new depth =
     \<lparr>last_round = \<lparr>committed_round = 0, gc_round_of = 0\<rparr>, gc_depth = depth, last_committed = [],
      last_committed_sub_dag = None, the_dag = []\<rparr>"

section \<open>Insertion\<close>

definition row_digests :: "(auth_id, digest \<times> certificate) btree \<Rightarrow> digest set" where
  "row_digests m = (\<lambda>(_, d, _). d) ` set m"

definition check_parents :: "certificate \<Rightarrow> dag \<Rightarrow> round \<Rightarrow> consensus_error + unit" where
  "check_parents c d gc =
     (if c_round c \<le> gc + 1 then Inr ()
      else case bt_get d (c_round c - 1) of
        None \<Rightarrow> Inl (MissingParentRound c)
      | Some row \<Rightarrow>
          (case List.find (\<lambda>p. p \<notin> row_digests row) (c_parents c) of
             Some p \<Rightarrow> Inl (MissingParent p c)
           | None \<Rightarrow> Inr ()))"

text \<open>The row of a round, empty when the round has no entry (\<open>entry(..).or_default()\<close>).\<close>

definition dag_row :: "dag \<Rightarrow> round \<Rightarrow> (auth_id, digest \<times> certificate) btree" where
  "dag_row d r = (case bt_get d r of None \<Rightarrow> [] | Some m \<Rightarrow> m)"

definition dag_put :: "hash_fun \<Rightarrow> certificate \<Rightarrow> dag \<Rightarrow> dag" where
  "dag_put H c d =
     bt_insert (c_round c)
       (bt_insert (origin c) (cert_digest H c, c) (dag_row d (c_round c))) d"

definition committed_upto :: "(auth_id, round) btree \<Rightarrow> auth_id \<Rightarrow> round" where
  "committed_upto lc i = (case bt_get lc i of None \<Rightarrow> 0 | Some r \<Rightarrow> r)"

text \<open>The certificate is in the DAG also when an equivocation is reported: the check follows the
  insertion.\<close>

definition try_insert_in_dag ::
  "hash_fun \<Rightarrow> dag \<Rightarrow> (auth_id, round) btree \<Rightarrow> round \<Rightarrow> certificate \<Rightarrow> bool \<Rightarrow>
   dag \<times> (consensus_error + bool)" where
  "try_insert_in_dag H d lc gc c check =
     (if c_round c \<le> gc then (d, Inr False)
      else case (if check then check_parents c d gc else Inr ()) of
        Inl e \<Rightarrow> (d, Inl e)
      | Inr _ \<Rightarrow>
          (let existing = bt_get (dag_row d (c_round c)) (origin c);
               d' = dag_put H c d
           in case existing of
                Some (_, old) \<Rightarrow>
                  if cert_digest H old \<noteq> cert_digest H c
                  then (d', Inl (CertificateEquivocation c old))
                  else (d', Inr (c_round c > committed_upto lc (origin c)))
              | None \<Rightarrow> (d', Inr (c_round c > committed_upto lc (origin c)))))"

definition try_insert ::
  "hash_fun \<Rightarrow> consensus_state \<Rightarrow> certificate \<Rightarrow> consensus_state \<times> (consensus_error + bool)" where
  "try_insert H s c =
     (let (d, res) = try_insert_in_dag H (the_dag s) (last_committed s) (gc_round_of (last_round s)) c True
      in (s\<lparr>the_dag := d\<rparr>, res))"

section \<open>Garbage collection\<close>

definition update :: "consensus_state \<Rightarrow> certificate \<Rightarrow> consensus_state" where
  "update s c =
     (let lc = (case bt_get (last_committed s) (origin c) of
                  Some r \<Rightarrow> bt_insert (origin c) (max r (c_round c)) (last_committed s)
                | None \<Rightarrow> bt_insert (origin c) (c_round c) (last_committed s));
          lr = round_update (last_round s) (c_round c) (gc_depth s)
      in s\<lparr>last_committed := lc, last_round := lr,
           the_dag := bt_retain (\<lambda>r _. r > gc_round_of lr) (the_dag s)\<rparr>)"

definition proactive_gc :: "consensus_state \<Rightarrow> round \<Rightarrow> consensus_state \<times> nat" where
  "proactive_gc s highest_seen_round =
     (if highest_seen_round \<le> gc_depth s then (s, 0)
      else let proactive_gc_round = highest_seen_round - gc_depth s
      in if proactive_gc_round \<le> gc_round_of (last_round s) then (s, 0)
      else let d = bt_retain (\<lambda>r _. r > proactive_gc_round) (the_dag s)
      in (s\<lparr>the_dag := d\<rparr>, length (the_dag s) - length d))"

section \<open>Recovery\<close>

text \<open>One step of the recovery loop: certificates of other epochs and orphans are skipped.\<close>

fun insert_all ::
  "hash_fun \<Rightarrow> (auth_id, round) btree \<Rightarrow> round \<Rightarrow> epoch \<Rightarrow> certificate list \<Rightarrow> dag \<Rightarrow>
   consensus_error + dag" where
  "insert_all H lc gc e [] d = Inr d"
| "insert_all H lc gc e (c # cs) d =
     (if c_epoch c \<noteq> e then insert_all H lc gc e cs d
      else case try_insert_in_dag H d lc gc c True of
        (d', Inr _) \<Rightarrow> insert_all H lc gc e cs d'
      | (d', Inl (MissingParent _ _)) \<Rightarrow> insert_all H lc gc e cs d'
      | (d', Inl (MissingParentRound _)) \<Rightarrow> insert_all H lc gc e cs d'
      | (_, Inl err) \<Rightarrow> Inl err)"

text \<open>\<open>stored\<close> is what the store returns for \<open>after_round(gc_round + 1)\<close>.\<close>

definition construct_dag_from_cert_store ::
  "hash_fun \<Rightarrow> certificate list \<Rightarrow> (auth_id, round) btree \<Rightarrow> round \<Rightarrow> epoch \<Rightarrow>
   consensus_error + dag" where
  "construct_dag_from_cert_store H stored lc gc e =
     insert_all H lc gc e (sort_by (\<lambda>a b. c_round a \<le> c_round b) stored) []"

text \<open>\<open>None\<close>: the \<open>expect\<close> on the reconstruction panics.\<close>

definition new_from_store ::
  "hash_fun \<Rightarrow> round \<Rightarrow> round \<Rightarrow> (auth_id, round) btree \<Rightarrow> committed_sub_dag option \<Rightarrow>
   (round \<Rightarrow> certificate list) \<Rightarrow> epoch \<Rightarrow> consensus_state option" where
  "new_from_store H committed depth recovered latest after_round e =
     (let lr = new_with_gc_depth committed depth
      in case construct_dag_from_cert_store H (after_round (gc_round_of lr + 1)) recovered
                (gc_round_of lr) e of
           Inl _ \<Rightarrow> None
         | Inr d \<Rightarrow>
             Some \<lparr>last_round = lr, gc_depth = depth, last_committed = recovered,
                   last_committed_sub_dag = latest, the_dag = d\<rparr>)"

section \<open>Flattening a sub-DAG\<close>

definition find_parent :: "dag \<Rightarrow> round \<Rightarrow> digest \<Rightarrow> (digest \<times> certificate) option" where
  "find_parent d r p =
     (case bt_get d r of None \<Rightarrow> None | Some m \<Rightarrow> List.find (\<lambda>(x, _). x = p) (bt_values m))"

definition skip_committed :: "consensus_state \<Rightarrow> certificate \<Rightarrow> bool" where
  "skip_committed s c =
     (case bt_get (last_committed s) (origin c) of None \<Rightarrow> False | Some r \<Rightarrow> c_round c \<le> r)"

text \<open>The inner loop: push each parent that is present, new and not committed. The head of the
  buffer is the end of the \<open>Vec\<close>, where it is pushed and popped.\<close>

fun push_parents ::
  "consensus_state \<Rightarrow> round \<Rightarrow> digest list \<Rightarrow> certificate list \<times> digest set \<Rightarrow>
   certificate list \<times> digest set" where
  "push_parents s r [] acc = acc"
| "push_parents s r (p # ps) (buffer, already) =
     (case find_parent (the_dag s) r p of
        Some (dg, c) \<Rightarrow>
          if dg \<in> already \<or> skip_committed s c then push_parents s r ps (buffer, already)
          else push_parents s r ps (c # buffer, insert dg already)
      | None \<Rightarrow> push_parents s r ps (buffer, already))"

definition dag_digests :: "dag \<Rightarrow> digest set" where
  "dag_digests d = (\<Union>(_, m)\<in>set d. row_digests m)"

lemma finite_dag_digests [simp]: "finite (dag_digests d)"
  by (auto simp: dag_digests_def row_digests_def)

lemma find_parent_Some:
  "find_parent d r p = Some (dg, c) \<Longrightarrow> dg = p \<and> (\<exists>m i. bt_get d r = Some m \<and> (i, dg, c) \<in> set m)"
  by (auto simp: find_parent_def bt_values_def find_Some_iff split: option.splits)
    (metis nth_mem prod.collapse prod.inject)

lemma find_parent_digest: "find_parent d r p = Some (dg, c) \<Longrightarrow> dg \<in> dag_digests d"
  by (force dest!: find_parent_Some bt_get_set simp: dag_digests_def row_digests_def)

lemma push_parents_measure:
  "push_parents s r ps (buffer, already) = (buffer', already') \<Longrightarrow>
   2 * card (dag_digests (the_dag s) - already') + length buffer'
     \<le> 2 * card (dag_digests (the_dag s) - already) + length buffer"
proof (induction ps arbitrary: buffer already)
  case Nil
  then show ?case by simp
next
  case (Cons p ps)
  let ?D = "dag_digests (the_dag s)"
  show ?case
  proof (cases "find_parent (the_dag s) r p")
    case None
    then show ?thesis using Cons by simp
  next
    case (Some a)
    obtain dg c where a: "a = (dg, c)" by (cases a)
    show ?thesis
    proof (cases "dg \<in> already \<or> skip_committed s c")
      case True
      then show ?thesis using Cons Some a by simp
    next
      case False
      have "dg \<in> ?D - already" using False Some a find_parent_digest by blast
      then have "card (?D - already) = Suc (card (?D - insert dg already))"
        by (metis Diff_insert card.remove finite_Diff finite_dag_digests)
      moreover have "2 * card (?D - already') + length buffer' \<le> 2 * card (?D - insert dg already) + length (c # buffer)"
        using Cons.prems False Some a by (intro Cons.IH) simp
      ultimately show ?thesis by simp
    qed
  qed
qed

function order_loop ::
  "consensus_state \<Rightarrow> round \<Rightarrow> certificate list \<Rightarrow> digest set \<Rightarrow> certificate list \<Rightarrow> certificate list" where
  "order_loop s gc [] already ordered = ordered"
| "order_loop s gc (x # buffer) already ordered =
     (if c_round x = gc + 1 then order_loop s gc buffer already (ordered @ [x])
      else order_loop s gc (fst (push_parents s (c_round x - 1) (c_parents x) (buffer, already)))
             (snd (push_parents s (c_round x - 1) (c_parents x) (buffer, already))) (ordered @ [x]))"
  by pat_completeness auto
termination
  by (relation "measure (\<lambda>(s, gc, buffer, already, ordered).
        2 * card (dag_digests (the_dag s) - already) + length buffer)")
    (auto simp: less_Suc_eq_le intro!: push_parents_measure)

definition seq_le :: "hash_fun \<Rightarrow> certificate \<Rightarrow> certificate \<Rightarrow> bool" where
  "seq_le H a b \<longleftrightarrow>
     c_round a < c_round b \<or> (c_round a = c_round b \<and> cert_digest H a \<le> cert_digest H b)"

text \<open>
  \<open>None\<close>: the assertion that the leader is not of round 0 fails, or \<open>x.round() - 1\<close> underflows
  for a visited certificate of round 0 that has parents.
\<close>

definition order_dag :: "hash_fun \<Rightarrow> certificate \<Rightarrow> consensus_state \<Rightarrow> certificate list option" where
  "order_dag H ldr s =
     (if c_round ldr = 0 then None
      else let ordered = order_loop s (c_round ldr - gc_depth s) [ldr] {} []
      in if list_ex (\<lambda>x. c_round x = 0 \<and> c_parents x \<noteq> []) ordered then None
         else Some (sort_by (seq_le H) ordered))"

end
