(* ===== verification/Dag_Ordering.thy ===== *)
theory Dag_Ordering
  imports Consensus_State
begin

text \<open>
  Well-formed DAGs and the specification of \<open>order_dag\<close>: the flattened sub-DAG is the set of
  certificates reachable from the leader through parents that are present, not committed and above
  the garbage-collection round, each once, in the order of round and digest. The hash is only
  required to be free of collisions on the set \<open>U\<close> of header encodings in use.
\<close>

section \<open>Well-formed certificates and DAGs\<close>

definition cert_ok :: "hash_fun \<Rightarrow> header_wire set \<Rightarrow> committee \<Rightarrow> certificate \<Rightarrow> bool" where
  "cert_ok H U c x \<longleftrightarrow>
     wire (c_header x) \<in> U \<and> cert_digest H x = H (wire (c_header x)) \<and> is_authority c (origin x)"

definition row_ok ::
  "hash_fun \<Rightarrow> header_wire set \<Rightarrow> committee \<Rightarrow> round \<Rightarrow> (auth_id, digest \<times> certificate) btree \<Rightarrow> bool" where
  "row_ok H U c r m \<longleftrightarrow> bt_inv m
     \<and> (\<forall>(i, dg, x)\<in>set m. c_round x = r \<and> origin x = i \<and> dg = cert_digest H x \<and> cert_ok H U c x)"

definition dag_ok :: "hash_fun \<Rightarrow> header_wire set \<Rightarrow> committee \<Rightarrow> dag \<Rightarrow> bool" where
  "dag_ok H U c d \<longleftrightarrow> bt_inv d \<and> (\<forall>(r, m)\<in>set d. 0 < r \<and> row_ok H U c r m)"

definition dag_certs :: "dag \<Rightarrow> certificate set" where
  "dag_certs d = {x. \<exists>r m i dg. (r, m) \<in> set d \<and> (i, dg, x) \<in> set m}"

lemma dag_ok_Nil [simp]: "dag_ok H U c []"
  by (simp add: dag_ok_def)

lemma dag_ok_row: "dag_ok H U c d \<Longrightarrow> bt_get d r = Some m \<Longrightarrow> 0 < r \<and> row_ok H U c r m"
  by (auto simp: dag_ok_def dest!: bt_get_set)

lemma dag_ok_dag_row: "dag_ok H U c d \<Longrightarrow> row_ok H U c r (dag_row d r)"
  using dag_ok_row [of H U c d r] by (auto simp: dag_row_def row_ok_def split: option.splits)

lemma row_entry:
  "row_ok H U c r m \<Longrightarrow> (i, dg, x) \<in> set m \<Longrightarrow>
   c_round x = r \<and> origin x = i \<and> dg = cert_digest H x \<and> cert_ok H U c x"
  unfolding row_ok_def by blast

lemma in_dag_certs_iff:
  assumes "dag_ok H U c d"
  shows "x \<in> dag_certs d \<longleftrightarrow> bt_get (dag_row d (c_round x)) (origin x) = Some (cert_digest H x, x)"
proof
  assume "x \<in> dag_certs d"
  then obtain r m i dg where rm: "(r, m) \<in> set d" and e: "(i, dg, x) \<in> set m"
    by (auto simp: dag_certs_def)
  from assms rm have ok: "row_ok H U c r m" and "bt_get d r = Some m"
    by (auto simp: dag_ok_def bt_get_iff)
  moreover from row_entry [OF ok e] have "c_round x = r" "origin x = i" "dg = cert_digest H x" by auto
  moreover from ok e have "bt_get m i = Some (dg, x)" by (simp add: row_ok_def bt_get_iff)
  ultimately show "bt_get (dag_row d (c_round x)) (origin x) = Some (cert_digest H x, x)"
    by (simp add: dag_row_def)
next
  assume "bt_get (dag_row d (c_round x)) (origin x) = Some (cert_digest H x, x)"
  then show "x \<in> dag_certs d"
    by (auto simp: dag_certs_def dag_row_def split: option.splits dest!: bt_get_set)
qed

lemma dag_certs_ok:
  assumes "dag_ok H U c d" "x \<in> dag_certs d"
  shows "cert_ok H U c x" "0 < c_round x"
proof -
  from assms(2) obtain r m i dg where rm: "(r, m) \<in> set d" and e: "(i, dg, x) \<in> set m"
    by (auto simp: dag_certs_def)
  with assms(1) have "0 < r" "row_ok H U c r m" by (auto simp: dag_ok_def)
  with row_entry [OF _ e] show "cert_ok H U c x" "0 < c_round x" by auto
qed

lemma dag_certs_key:
  assumes "dag_ok H U c d" "x \<in> dag_certs d" "y \<in> dag_certs d"
    and "c_round x = c_round y" "origin x = origin y"
  shows "x = y"
  using assms by (auto simp: in_dag_certs_iff [OF assms(1)])

lemma cert_ok_digest:
  assumes "collision_free H U" "cert_ok H U c x" "cert_ok H U c' y" "cert_digest H x = cert_digest H y"
  shows "wire (c_header x) = wire (c_header y)"
  using assms by (auto simp: cert_ok_def collision_free_def dest: inj_onD)

lemma wire_fields:
  assumes "wire h = wire h'"
  shows "author h = author h'" "h_round h = h_round h'" "h_epoch h = h_epoch h'" "parents h = parents h'"
    "h_created_at h = h_created_at h'"
  using assms by (simp_all add: wire_def)

lemma dag_certs_digest:
  assumes "collision_free H U" "dag_ok H U c d" "x \<in> dag_certs d" "y \<in> dag_certs d"
    and "cert_digest H x = cert_digest H y"
  shows "x = y"
proof -
  have "wire (c_header x) = wire (c_header y)"
    by (rule cert_ok_digest [OF assms(1) dag_certs_ok(1) [OF assms(2,3)] dag_certs_ok(1) [OF assms(2,4)] assms(5)])
  then show ?thesis using dag_certs_key [OF assms(2-4)] wire_fields by blast
qed

lemma find_parent_key: "find_parent d r p = Some (dg, x) \<Longrightarrow> dg = p"
  using find_parent_Some by blast

lemma find_key: "(p, x) \<in> set xs \<Longrightarrow> \<exists>y. List.find (\<lambda>(q, _). q = p) xs = Some (p, y) \<and> (p, y) \<in> set xs"
  by (induction xs) auto

lemma find_parent_iff:
  assumes cf: "collision_free H U" and ok: "dag_ok H U c d"
  shows "find_parent d r p = Some (dg, x) \<longleftrightarrow>
    dg = p \<and> x \<in> dag_certs d \<and> c_round x = r \<and> cert_digest H x = p"
proof
  assume f: "find_parent d r p = Some (dg, x)"
  then obtain m i where m: "bt_get d r = Some m" "(i, dg, x) \<in> set m" and dg: "dg = p"
    using find_parent_Some by blast
  with row_entry [of H U c r m i dg x] dag_ok_row [OF ok m(1)]
  show "dg = p \<and> x \<in> dag_certs d \<and> c_round x = r \<and> cert_digest H x = p"
    by (auto simp: dag_certs_def dest!: bt_get_set)
next
  assume x: "dg = p \<and> x \<in> dag_certs d \<and> c_round x = r \<and> cert_digest H x = p"
  then have "bt_get (dag_row d r) (origin x) = Some (p, x)" using in_dag_certs_iff [OF ok] by auto
  then obtain m where m: "bt_get d r = Some m" "(origin x, p, x) \<in> set m"
    by (auto simp: dag_row_def split: option.splits dest!: bt_get_set)
  then have "(p, x) \<in> set (bt_values m)" by (force simp: bt_values_def)
  then obtain y where y: "List.find (\<lambda>(q, _). q = p) (bt_values m) = Some (p, y)"
    "(p, y) \<in> set (bt_values m)"
    using find_key by metis
  then obtain j where "(j, p, y) \<in> set m" by (auto simp: bt_values_def)
  with m(1) row_entry [of H U c r m j p y] dag_ok_row [OF ok m(1)]
  have "y \<in> dag_certs d" "cert_digest H y = p" by (auto simp: dag_certs_def dest!: bt_get_set)
  with x have "y = x" using dag_certs_digest [OF cf ok] by simp
  with y x m(1) show "find_parent d r p = Some (dg, x)" by (simp add: find_parent_def)
qed

section \<open>Operations keep DAGs well-formed\<close>

lemma row_ok_insert:
  assumes "row_ok H U c (c_round x) m" "cert_ok H U c x"
  shows "row_ok H U c (c_round x) (bt_insert (origin x) (cert_digest H x, x) m)"
  using assms set_bt_insert [of "origin x" "(cert_digest H x, x)" m]
  unfolding row_ok_def by fastforce

lemma dag_ok_put [keeps]:
  assumes "dag_ok H U c d" "cert_ok H U c x" "0 < c_round x"
  shows "dag_ok H U c (dag_put H x d)"
  using assms dag_ok_dag_row [OF assms(1)] row_ok_insert [OF _ assms(2)]
    set_bt_insert [of "c_round x" "bt_insert (origin x) (cert_digest H x, x) (dag_row d (c_round x))" d]
  unfolding dag_ok_def dag_put_def by fastforce

lemma dag_ok_retain [keeps]: "dag_ok H U c d \<Longrightarrow> dag_ok H U c (bt_retain P d)"
  by (auto simp: dag_ok_def) (auto simp: bt_retain_def)

lemma dag_row_put:
  assumes "dag_ok H U c d"
  shows "dag_row (dag_put H x d) r =
    (if r = c_round x then bt_insert (origin x) (cert_digest H x, x) (dag_row d r) else dag_row d r)"
  using assms by (auto simp: dag_ok_def dag_put_def dag_row_def bt_get_insert)

lemma dag_certs_put:
  assumes ok: "dag_ok H U c d" and x: "cert_ok H U c x" "0 < c_round x"
  shows "dag_certs (dag_put H x d) =
    insert x {y \<in> dag_certs d. c_round y \<noteq> c_round x \<or> origin y \<noteq> origin x}"
proof (rule set_eqI)
  fix y
  have "bt_inv (dag_row d (c_round x))" using dag_ok_dag_row [OF ok] by (auto simp: row_ok_def)
  then show "y \<in> dag_certs (dag_put H x d) \<longleftrightarrow>
      y \<in> insert x {y \<in> dag_certs d. c_round y \<noteq> c_round x \<or> origin y \<noteq> origin x}"
    unfolding in_dag_certs_iff [OF dag_ok_put [OF ok x]] insert_iff mem_Collect_eq
      in_dag_certs_iff [OF ok] dag_row_put [OF ok]
    by (auto simp: bt_get_insert)
qed

lemma dag_certs_retain: "dag_certs (bt_retain (\<lambda>r _. P r) d) = {x \<in> dag_certs d. \<exists>r m i dg. (r, m) \<in> set d \<and> (i, dg, x) \<in> set m \<and> P r}"
  by (auto simp: dag_certs_def bt_retain_def)

lemma dag_certs_retain_round:
  assumes "dag_ok H U c d"
  shows "dag_certs (bt_retain (\<lambda>r _. P r) d) = {x \<in> dag_certs d. P (c_round x)}"
  unfolding dag_certs_retain using assms row_entry
  by (fastforce simp: dag_certs_def dag_ok_def)

section \<open>The sub-DAG of a leader\<close>

text \<open>One step down: \<open>y\<close> is a parent of \<open>x\<close> that the traversal follows.\<close>

definition pstep :: "consensus_state \<Rightarrow> round \<Rightarrow> certificate \<Rightarrow> certificate \<Rightarrow> bool" where
  "pstep s gc x y \<longleftrightarrow> c_round x \<noteq> gc + 1
     \<and> (\<exists>p\<in>set (c_parents x). find_parent (the_dag s) (c_round x - 1) p = Some (p, y))
     \<and> \<not> skip_committed s y"

definition sub_dag_of :: "consensus_state \<Rightarrow> certificate \<Rightarrow> certificate set" where
  "sub_dag_of s ldr = {y. (pstep s (c_round ldr - gc_depth s))\<^sup>*\<^sup>* ldr y}"

lemma push_parents_spec:
  assumes cf: "collision_free H U" and ok: "dag_ok H U c (the_dag s)"
    and "push_parents s r ps (b, a) = (b', a')"
  defines "kids \<equiv> {y. \<exists>p\<in>set ps. find_parent (the_dag s) r p = Some (p, y) \<and> \<not> skip_committed s y}"
  shows "\<exists>new. b' = new @ b \<and> a' = a \<union> cert_digest H ` set new \<and> set new \<subseteq> kids
    \<and> distinct (map (cert_digest H) new) \<and> cert_digest H ` set new \<inter> a = {}
    \<and> cert_digest H ` kids \<subseteq> a'"
  using assms(3) unfolding kids_def
proof (induction ps arbitrary: b a)
  case Nil
  then show ?case by simp
next
  case (Cons p ps)
  let ?kids = "\<lambda>ps. {y. \<exists>p\<in>set ps. find_parent (the_dag s) r p = Some (p, y) \<and> \<not> skip_committed s y}"
  let ?own = "{y. find_parent (the_dag s) r p = Some (p, y) \<and> \<not> skip_committed s y}"
  have kids: "?kids (p # ps) = ?own \<union> ?kids ps" by auto
  have own: "cert_digest H y = p" if "y \<in> ?own" for y
    using that find_parent_iff [OF cf ok] by simp
  consider (skip) "push_parents s r ps (b, a) = (b', a')" "?own = {} \<or> p \<in> a"
    | (push) y where "push_parents s r ps (y # b, insert p a) = (b', a')" "y \<in> ?own" "p \<notin> a"
  proof (cases "find_parent (the_dag s) r p")
    case None
    then show ?thesis using Cons.prems that(1) by simp
  next
    case (Some e)
    then obtain y where "e = (p, y)" using find_parent_key by (cases e) blast
    with Some Cons.prems that show ?thesis by (cases "p \<in> a \<or> skip_committed s y") auto
  qed
  then show ?case
  proof cases
    case skip
    from Cons.IH [OF skip(1)] obtain new where new: "b' = new @ b" "a' = a \<union> cert_digest H ` set new"
      "set new \<subseteq> ?kids ps" "distinct (map (cert_digest H) new)" "cert_digest H ` set new \<inter> a = {}"
      "cert_digest H ` ?kids ps \<subseteq> a'" by blast
    have "cert_digest H ` ?own \<subseteq> a'" using skip(2) own new(2) by blast
    with new show ?thesis unfolding kids image_Un by (intro exI [of _ new] conjI) blast+
  next
    case push
    from Cons.IH [OF push(1)] obtain new where new: "b' = new @ y # b"
      "a' = insert p a \<union> cert_digest H ` set new"
      "set new \<subseteq> ?kids ps" "distinct (map (cert_digest H) new)"
      "cert_digest H ` set new \<inter> insert p a = {}"
      "cert_digest H ` ?kids ps \<subseteq> a'" by blast
    have "cert_digest H ` ?own \<subseteq> a'" using own new(2) by blast
    moreover have "set (new @ [y]) \<subseteq> ?own \<union> ?kids ps" using new(3) push(2) by auto
    moreover have "distinct (map (cert_digest H) (new @ [y]))"
      using new(4,5) own [OF push(2)] by auto
    ultimately show ?thesis
      using new own [OF push(2)] push(3) unfolding kids image_Un
      by (intro exI [of _ "new @ [y]"] conjI) auto
  qed
qed

lemma pstep_props:
  assumes cf: "collision_free H U" and ok: "dag_ok H U c (the_dag s)" and "pstep s gc x y" "0 < c_round x"
  shows "y \<in> dag_certs (the_dag s)" "c_round y < c_round x" "cert_digest H y \<in> set (c_parents x)"
    "\<not> skip_committed s y"
  using assms by (auto simp: pstep_def find_parent_iff [OF cf ok])

lemma reach_props:
  assumes cf: "collision_free H U" and ok: "dag_ok H U c (the_dag s)"
    and l: "ldr \<in> dag_certs (the_dag s)" and "(pstep s gc)\<^sup>*\<^sup>* ldr y"
  shows "y \<in> dag_certs (the_dag s)" "c_round y \<le> c_round ldr" "y \<noteq> ldr \<Longrightarrow> c_round y < c_round ldr"
    "y \<noteq> ldr \<Longrightarrow> \<not> skip_committed s y"
proof -
  from assms(4) have "y \<in> dag_certs (the_dag s) \<and> c_round y \<le> c_round ldr \<and> (y \<noteq> ldr \<longrightarrow> c_round y < c_round ldr \<and> \<not> skip_committed s y)"
  proof (induction rule: rtranclp_induct)
    case base
    then show ?case using l by simp
  next
    case (step y z)
    then have "0 < c_round y" by (simp add: dag_certs_ok(2) [OF ok])
    from pstep_props [OF cf ok step(2) this] step(3) show ?case by auto
  qed
  then show "y \<in> dag_certs (the_dag s)" "c_round y \<le> c_round ldr" "y \<noteq> ldr \<Longrightarrow> c_round y < c_round ldr"
    "y \<noteq> ldr \<Longrightarrow> \<not> skip_committed s y" by auto
qed

text \<open>The invariant of the traversal: what is buffered or ordered is reachable and distinct, and the
  followed parents of what is ordered are buffered or ordered.\<close>

definition order_inv ::
  "hash_fun \<Rightarrow> consensus_state \<Rightarrow> round \<Rightarrow> certificate \<Rightarrow> certificate list \<Rightarrow> digest set \<Rightarrow>
   certificate list \<Rightarrow> bool" where
  "order_inv H s gc ldr buf already ord \<longleftrightarrow>
     set (buf @ ord) \<subseteq> {y. (pstep s gc)\<^sup>*\<^sup>* ldr y} \<and> ldr \<in> set (buf @ ord)
     \<and> distinct (map (cert_digest H) (buf @ ord))
     \<and> cert_digest H ` set (buf @ ord) = insert (cert_digest H ldr) already
     \<and> (\<forall>x\<in>set ord. \<forall>y. pstep s gc x y \<longrightarrow> cert_digest H y \<in> already)"

lemma order_inv_step:
  assumes cf: "collision_free H U" and ok: "dag_ok H U c (the_dag s)"
    and l: "ldr \<in> dag_certs (the_dag s)"
    and inv: "order_inv H s gc ldr (x # buf) already ord"
    and push: "push_parents s (c_round x - 1) (c_parents x) (buf, already) = (b', a')"
    and nogc: "c_round x \<noteq> gc + 1"
  shows "order_inv H s gc ldr b' a' (ord @ [x])"
proof -
  let ?kids = "{y. \<exists>p\<in>set (c_parents x). find_parent (the_dag s) (c_round x - 1) p = Some (p, y)
    \<and> \<not> skip_committed s y}"
  have kids: "?kids = {y. pstep s gc x y}" using nogc by (auto simp: pstep_def)
  have x: "(pstep s gc)\<^sup>*\<^sup>* ldr x" using inv by (simp add: order_inv_def)
  note xr = reach_props [OF cf ok l x]
  have x0: "0 < c_round x" using dag_certs_ok(2) [OF ok xr(1)] .
  from push_parents_spec [OF cf ok push] obtain new where new: "b' = new @ buf"
    "a' = already \<union> cert_digest H ` set new" "set new \<subseteq> {y. pstep s gc x y}"
    "distinct (map (cert_digest H) new)" "cert_digest H ` set new \<inter> already = {}"
    "cert_digest H ` {y. pstep s gc x y} \<subseteq> a'" unfolding kids by blast
  have "cert_digest H ldr \<notin> cert_digest H ` set new"
  proof
    assume "cert_digest H ldr \<in> cert_digest H ` set new"
    then obtain y where y: "pstep s gc x y" "cert_digest H y = cert_digest H ldr" using new(3) by force
    note yp = pstep_props [OF cf ok y(1) x0]
    have "y = ldr" by (rule dag_certs_digest [OF cf ok yp(1) l y(2)])
    with yp(2) xr(2) show False by simp
  qed
  moreover have "cert_digest H ` set (x # buf @ ord) = insert (cert_digest H ldr) already"
    using inv by (simp only: order_inv_def append_Cons)
  ultimately have disj: "cert_digest H ` set new \<inter> cert_digest H ` set (x # buf @ ord) = {}"
    by (simp only: Int_insert_right new(5) if_False)
  have reach: "set new \<subseteq> {y. (pstep s gc)\<^sup>*\<^sup>* ldr y}" using new(3) x by auto
  note i = inv [unfolded order_inv_def]
  show ?thesis unfolding order_inv_def new(1)
  proof (intro conjI ballI allI impI)
    show "set ((new @ buf) @ ord @ [x]) \<subseteq> {y. (pstep s gc)\<^sup>*\<^sup>* ldr y}" using i reach by auto
    show "ldr \<in> set ((new @ buf) @ ord @ [x])" using i by auto
    have "set (buf @ ord @ [x]) = set (x # buf @ ord)" by auto
    with disj have "set (map (cert_digest H) new) \<inter> set (map (cert_digest H) (buf @ ord @ [x])) = {}"
      by (simp only: set_map)
    moreover have "distinct (map (cert_digest H) (buf @ ord @ [x]))" using i by auto
    ultimately show "distinct (map (cert_digest H) ((new @ buf) @ ord @ [x]))"
      using new(4) by (simp only: append_assoc map_append [of _ new] distinct_append simp_thms)
    show "cert_digest H ` set ((new @ buf) @ ord @ [x]) = insert (cert_digest H ldr) a'"
      using i unfolding new(2) by auto
    fix z y assume "z \<in> set (ord @ [x])" "pstep s gc z y"
    then show "cert_digest H y \<in> a'" using i new(2,6) by auto
  qed
qed

lemma order_inv_gc:
  "order_inv H s gc ldr (x # buf) already ord \<Longrightarrow> c_round x = gc + 1 \<Longrightarrow>
   order_inv H s gc ldr buf already (ord @ [x])"
  by (auto simp: order_inv_def pstep_def)

lemma order_loop_inv:
  assumes cf: "collision_free H U" and ok: "dag_ok H U c (the_dag s)"
    and l: "ldr \<in> dag_certs (the_dag s)" and inv: "order_inv H s gc ldr buf already ord"
  shows "\<exists>already'. order_inv H s gc ldr [] already' (order_loop s gc buf already ord)"
  using ok l inv
proof (induction s gc buf already ord rule: order_loop.induct)
  case (1 s gc already ord)
  then show ?case by auto
next
  case (2 s gc x buf already ord)
  show ?case
  proof (cases "c_round x = gc + 1")
    case True
    then show ?thesis using 2 order_inv_gc by simp
  next
    case False
    have "order_inv H s gc ldr (fst (push_parents s (c_round x - 1) (c_parents x) (buf, already)))
       (snd (push_parents s (c_round x - 1) (c_parents x) (buf, already))) (ord @ [x])"
      by (rule order_inv_step [OF cf "2.prems" _ False]) simp
    then show ?thesis using 2 False by simp
  qed
qed

text \<open>\<open>order_dag\<close> does not panic and yields exactly the sub-DAG of the leader.\<close>

lemma order_loop_result:
  assumes cf: "collision_free H U" and ok: "dag_ok H U c (the_dag s)"
    and l: "ldr \<in> dag_certs (the_dag s)"
  defines "out \<equiv> order_loop s (c_round ldr - gc_depth s) [ldr] {} []"
  shows "set out = sub_dag_of s ldr" "distinct (map (cert_digest H) out)"
proof -
  let ?gc = "c_round ldr - gc_depth s"
  have "order_inv H s ?gc ldr [ldr] {} []" by (simp add: order_inv_def)
  from order_loop_inv [OF cf ok l this] obtain a where inv: "order_inv H s ?gc ldr [] a out"
    unfolding out_def by blast
  then show "distinct (map (cert_digest H) out)" by (simp add: order_inv_def)
  have sub: "set out \<subseteq> {y. (pstep s ?gc)\<^sup>*\<^sup>* ldr y}" using inv by (simp add: order_inv_def)
  have "y \<in> set out" if "(pstep s ?gc)\<^sup>*\<^sup>* ldr y" for y
    using that
  proof (induction rule: rtranclp_induct)
    case base
    then show ?case using inv by (simp add: order_inv_def)
  next
    case (step y z)
    then have "cert_digest H z \<in> cert_digest H ` set out" using inv by (auto simp: order_inv_def)
    then obtain w where w: "w \<in> set out" "cert_digest H w = cert_digest H z" by auto
    have "w \<in> dag_certs (the_dag s)" using reach_props(1) [OF cf ok l] w(1) sub by blast
    moreover have "z \<in> dag_certs (the_dag s)"
      using reach_props(1) [OF cf ok l] step(1,2) by (meson rtranclp.rtrancl_into_rtrancl)
    ultimately have "w = z" using dag_certs_digest [OF cf ok] w(2) by simp
    with w(1) show ?case by simp
  qed
  with sub show "set out = sub_dag_of s ldr" by (auto simp: sub_dag_of_def)
qed

lemma seq_le_total_preorder: "total_preorder (seq_le H)"
  by (auto simp: total_preorder_def seq_le_def)

lemma order_dag_spec:
  assumes cf: "collision_free H U" and ok: "dag_ok H U c (the_dag s)"
    and l: "ldr \<in> dag_certs (the_dag s)"
  shows "\<exists>seq. order_dag H ldr s = Some seq \<and> set seq = sub_dag_of s ldr
    \<and> distinct (map (cert_digest H) seq) \<and> sorted_wrt (seq_le H) seq"
proof -
  let ?out = "order_loop s (c_round ldr - gc_depth s) [ldr] {} []"
  note out = order_loop_result [OF cf ok l]
  have pos: "0 < c_round x" if "x \<in> set ?out" for x
    using that reach_props(1) [OF cf ok l] dag_certs_ok(2) [OF ok] unfolding out(1) sub_dag_of_def by simp
  have "0 < c_round ldr" by (rule dag_certs_ok(2) [OF ok l])
  moreover have "\<not> list_ex (\<lambda>x. c_round x = 0 \<and> c_parents x \<noteq> []) ?out"
    using pos by (fastforce simp: list_ex_iff)
  ultimately have "order_dag H ldr s = Some (sort_by (seq_le H) ?out)"
    by (simp add: order_dag_def Let_def)
  moreover have "distinct (map (cert_digest H) (sort_by (seq_le H) ?out))"
    using out(2) by (metis distinct_map distinct_sort_by set_sort_by)
  ultimately show ?thesis
    using out sorted_sort_by [OF seq_le_total_preorder, of H ?out] by simp
qed

end
