(* ===== verification/Bullshark.thy ===== *)
theory Bullshark
  imports Dag_Ordering
begin

text \<open>
  The Bullshark protocol of \<open>crates/consensus/primary/src/consensus/bullshark.rs\<close>: leader
  election, the recursive commit of linked leaders, reputation scores and schedule changes. A
  \<open>None\<close> is a panic (or, for the retry loop alone, a run that does not end). Metrics and the wall
  clock of the last election are left out.
\<close>

section \<open>Protocol state\<close>

record bullshark =
  b_committee :: committee
  max_inserted_certificate_round :: round
  num_sub_dags_per_schedule :: nat
  b_schedule :: leader_schedule
  bad_nodes_stake_threshold :: nat

definition bullshark_new :: "committee \<Rightarrow> nat \<Rightarrow> leader_schedule \<Rightarrow> nat \<Rightarrow> bullshark" where
  "bullshark_new c n sched thr =
     \<lparr>b_committee = c, max_inserted_certificate_round = 0, num_sub_dags_per_schedule = n,
      b_schedule = sched, bad_nodes_stake_threshold = thr\<rparr>"

datatype outcome =
    CertificateBelowCommitRound
  | NoLeaderElectedForOddRound
  | LeaderBelowCommitRound
  | LeaderNotFound
  | NotEnoughSupportForLeader
  | Commit
  | ScheduleChanged

section \<open>Reputation and schedule\<close>

text \<open>\<open>n.is_multiple_of(m)\<close> is \<open>m dvd n\<close>, also for \<open>m = 0\<close>.\<close>

definition resolve_reputation_score ::
  "hash_fun \<Rightarrow> bullshark \<Rightarrow> consensus_state \<Rightarrow> certificate list \<Rightarrow> nat \<Rightarrow>
   reputation_scores option" where
  "resolve_reputation_score H b s committed_sequence sub_dag_index =
     (let score0 =
            (if num_sub_dags_per_schedule b dvd sub_dag_index div 2 then reputation_new (b_committee b)
             else case last_committed_sub_dag s of
               Some prev \<Rightarrow> reputation_score prev
             | None \<Rightarrow> reputation_new (b_committee b));
          score1 =
            (case last_committed_sub_dag s of
               None \<Rightarrow> score0
             | Some prev \<Rightarrow>
                 fold (\<lambda>x sc. if cert_digest H (leader prev) \<in> set (c_parents x)
                              then add_score (origin x) 1 sc else sc)
                   (filter (\<lambda>x. c_round x = leader_round prev + 1) committed_sequence) score0);
          score2 = score1\<lparr>final_of_schedule :=
                     num_sub_dags_per_schedule b dvd sub_dag_index div 2 + 1\<rparr>
      in if total_authorities score2 = committee_size (b_committee b) then Some score2 else None)"

definition update_leader_schedule ::
  "bullshark \<Rightarrow> round \<Rightarrow> reputation_scores \<Rightarrow> (bullshark \<times> bool) option" where
  "update_leader_schedule b ldr_round scores =
     (if final_of_schedule scores then
        (case swap_table_new (b_committee b) ldr_round scores (bad_nodes_stake_threshold b) of
           None \<Rightarrow> None
         | Some t \<Rightarrow> Some (b\<lparr>b_schedule := update_leader_swap_table t (b_schedule b)\<rparr>, True))
      else Some (b, False))"

definition report_leader_on_time_metrics ::
  "draw_fun \<Rightarrow> bullshark \<Rightarrow> round \<Rightarrow> bullshark option" where
  "report_leader_on_time_metrics draw b certificate_round =
     (if certificate_round > max_inserted_certificate_round b \<and> 2 dvd certificate_round
         \<and> certificate_round > 2 \<and> leader_of draw (b_schedule b) (certificate_round - 2) = None
      then None
      else Some (b\<lparr>max_inserted_certificate_round :=
                     max (max_inserted_certificate_round b) certificate_round\<rparr>))"

section \<open>Paths between leaders\<close>

fun linked_walk :: "dag \<Rightarrow> round list \<Rightarrow> certificate list \<Rightarrow> certificate list" where
  "linked_walk d [] ps = ps"
| "linked_walk d (r # rs) ps =
     linked_walk d rs
       (case bt_get d r of
          Some row \<Rightarrow>
            map snd (filter (\<lambda>(dg, _). list_ex (\<lambda>x. dg \<in> set (c_parents x)) ps) (bt_values row))
        | None \<Rightarrow> [])"

definition linked :: "hash_fun \<Rightarrow> certificate \<Rightarrow> certificate \<Rightarrow> dag \<Rightarrow> bool" where
  "linked H ldr prev d =
     list_ex (\<lambda>x. cert_eq H x prev) (linked_walk d (rev [c_round prev..<c_round ldr]) [ldr])"

text \<open>\<open>(lo..=hi).rev().step_by(2)\<close>.\<close>

definition back_by_two :: "round \<Rightarrow> round \<Rightarrow> round list" where
  "back_by_two lo hi = filter (\<lambda>r. (hi - r) mod 2 = 0) (rev [lo..<hi + 1])"

fun order_leaders_loop ::
  "hash_fun \<Rightarrow> draw_fun \<Rightarrow> leader_schedule \<Rightarrow> dag \<Rightarrow> certificate \<Rightarrow> round list \<Rightarrow>
   certificate list \<Rightarrow> certificate list option" where
  "order_leaders_loop H draw sched d ldr [] to_commit = Some to_commit"
| "order_leaders_loop H draw sched d ldr (r # rs) to_commit =
     (case leader_certificate draw sched r d of
        None \<Rightarrow> None
      | Some (_, None) \<Rightarrow> order_leaders_loop H draw sched d ldr rs to_commit
      | Some (_, Some prev) \<Rightarrow>
          if linked H ldr prev d
          then order_leaders_loop H draw sched d prev rs (prev # to_commit)
          else order_leaders_loop H draw sched d ldr rs to_commit)"

definition order_leaders ::
  "hash_fun \<Rightarrow> draw_fun \<Rightarrow> bullshark \<Rightarrow> certificate \<Rightarrow> consensus_state \<Rightarrow> certificate list option" where
  "order_leaders H draw b ldr s =
     (if c_round ldr mod 2 \<noteq> 0 \<or> c_round ldr < 2 then None
      else case order_leaders_loop H draw (b_schedule b) (the_dag s) ldr
                  (back_by_two (committed_round (last_round s) + 2) (c_round ldr - 2)) [ldr] of
        None \<Rightarrow> None
      | Some to_commit \<Rightarrow>
          if list_ex (\<lambda>x. authority (b_committee b) (origin x) = None) to_commit then None
          else Some to_commit)"

section \<open>Committing\<close>

text \<open>The body of the loop over the leaders: flatten, score, record and update the schedule.\<close>

definition commit_one ::
  "hash_fun \<Rightarrow> bullshark \<Rightarrow> consensus_state \<Rightarrow> certificate \<Rightarrow>
   (bullshark \<times> consensus_state \<times> committed_sub_dag \<times> bool) option" where
  "commit_one H b s ldr =
     (case order_dag H ldr s of None \<Rightarrow> None
      | Some sequence \<Rightarrow>
          (let s1 = fold (\<lambda>x s. update s x) sequence s
           in case resolve_reputation_score H b s1 sequence (cert_nonce ldr) of None \<Rightarrow> None
           | Some score \<Rightarrow>
               (let sd = sub_dag_new sequence ldr score (last_committed_sub_dag s1);
                    s2 = s1\<lparr>last_committed_sub_dag := Some sd\<rparr>
                in case update_leader_schedule b (c_round ldr) score of None \<Rightarrow> None
                | Some (b', changed) \<Rightarrow> Some (b', s2, sd, changed))))"

fun commit_all ::
  "hash_fun \<Rightarrow> bullshark \<Rightarrow> consensus_state \<Rightarrow> certificate list \<Rightarrow> committed_sub_dag list \<Rightarrow>
   (bullshark \<times> consensus_state \<times> outcome \<times> committed_sub_dag list) option" where
  "commit_all H b s [] acc = Some (b, s, Commit, acc)"
| "commit_all H b s (ldr # ldrs) acc =
     (case commit_one H b s ldr of None \<Rightarrow> None
      | Some (b', s', sd, changed) \<Rightarrow>
          if changed \<and> ldrs \<noteq> [] then Some (b', s', ScheduleChanged, acc @ [sd])
          else commit_all H b' s' ldrs (acc @ [sd]))"

definition leader_support ::
  "hash_fun \<Rightarrow> committee \<Rightarrow> certificate \<Rightarrow> (auth_id, digest \<times> certificate) btree \<Rightarrow> voting_power" where
  "leader_support H c ldr row =
     sum_list (map (\<lambda>(_, x). voting_power_by_id c (origin x))
       (filter (\<lambda>(_, x). cert_digest H ldr \<in> set (c_parents x)) (bt_values row)))"

definition commit_leader ::
  "hash_fun \<Rightarrow> draw_fun \<Rightarrow> bullshark \<Rightarrow> consensus_state \<Rightarrow> round \<Rightarrow>
   (bullshark \<times> consensus_state \<times> outcome \<times> committed_sub_dag list) option" where
  "commit_leader H draw b s ldr_round =
     (case leader_certificate draw (b_schedule b) ldr_round (the_dag s) of
        None \<Rightarrow> None
      | Some (_, None) \<Rightarrow> Some (b, s, LeaderNotFound, [])
      | Some (_, Some ldr) \<Rightarrow>
          (case bt_get (the_dag s) (ldr_round + 1) of None \<Rightarrow> None
           | Some row \<Rightarrow>
               if leader_support H (b_committee b) ldr row < validity_threshold (b_committee b)
               then Some (b, s, NotEnoughSupportForLeader, [])
               else (case order_leaders H draw b ldr s of None \<Rightarrow> None
                     | Some ldrs \<Rightarrow> commit_all H b s ldrs [])))"

text \<open>The retry loop: it repeats the election for the same round after every schedule change.\<close>

partial_function (option) commit_loop ::
  "hash_fun \<Rightarrow> draw_fun \<Rightarrow> bullshark \<Rightarrow> consensus_state \<Rightarrow> round \<Rightarrow> committed_sub_dag list \<Rightarrow>
   (bullshark \<times> consensus_state \<times> outcome \<times> committed_sub_dag list) option" where
  "commit_loop H draw b s ldr_round acc =
     (case commit_leader H draw b s ldr_round of None \<Rightarrow> None
      | Some (b', s', out, sds) \<Rightarrow>
          if out = ScheduleChanged then commit_loop H draw b' s' ldr_round (acc @ sds)
          else Some (b', s', out, acc @ sds))"

declare commit_loop.simps [code]

definition process_certificate ::
  "hash_fun \<Rightarrow> draw_fun \<Rightarrow> bullshark \<Rightarrow> consensus_state \<Rightarrow> certificate \<Rightarrow>
   (bullshark \<times> consensus_state \<times> (consensus_error + outcome \<times> committed_sub_dag list)) option" where
  "process_certificate H draw b s c =
     (case try_insert H s c of
        (s1, Inl e) \<Rightarrow> Some (b, s1, Inl e)
      | (s1, Inr False) \<Rightarrow> Some (b, s1, Inr (CertificateBelowCommitRound, []))
      | (s1, Inr True) \<Rightarrow>
          (case report_leader_on_time_metrics draw b (c_round c) of None \<Rightarrow> None
           | Some b1 \<Rightarrow>
               if c_round c = 0 then None
               else let r = c_round c - 1 in
                 if \<not> 2 dvd r \<or> r < 2 then Some (b1, s1, Inr (NoLeaderElectedForOddRound, []))
                 else if r \<le> committed_round (last_round s1)
                 then Some (b1, s1, Inr (LeaderBelowCommitRound, []))
                 else (case commit_loop H draw b1 s1 r [] of None \<Rightarrow> None
                       | Some (b2, s2, out, sds) \<Rightarrow>
                           Some (b2, s2, Inr (if sds = [] then out else Commit, sds)))))"

end
