(* ===== verification/Commit_Safety.thy ===== *)
theory Commit_Safety
  imports Bullshark
begin

text \<open>
  The invariant of the ordering engine and what it gives: no step of \<open>process_certificate\<close>
  panics, the retry loop ends, every committed sub-DAG consists of certificates that were not
  committed before, leaders are committed in increasing rounds and commit timestamps never go back.
\<close>

section \<open>The invariant\<close>

definition prev_ok :: "committee \<Rightarrow> round \<Rightarrow> committed_sub_dag option \<Rightarrow> bool" where
  "prev_ok c r prev =
     (case prev of None \<Rightarrow> True
      | Some sd \<Rightarrow> scores_ok c (reputation_score sd) \<and> leader_round sd \<le> r)"

definition state_ok :: "hash_fun \<Rightarrow> header_wire set \<Rightarrow> committee \<Rightarrow> consensus_state \<Rightarrow> bool" where
  "state_ok H U c s \<longleftrightarrow>
     dag_ok H U c (the_dag s)
     \<and> gc_round_of (last_round s) = gc_round (committed_round (last_round s)) (gc_depth s)
     \<and> (\<forall>x\<in>dag_certs (the_dag s). gc_round_of (last_round s) < c_round x)
     \<and> bt_inv (last_committed s)
     \<and> (\<forall>(i, r)\<in>set (last_committed s). r \<le> committed_round (last_round s))
     \<and> prev_ok c (committed_round (last_round s)) (last_committed_sub_dag s)"

definition bull_ok :: "bullshark \<Rightarrow> bool" where
  "bull_ok b \<longleftrightarrow> schedule_ok (b_schedule b) \<and> ls_committee (b_schedule b) = b_committee b
     \<and> bad_nodes_stake_threshold b \<le> 33"

lemma bull_ok_committee: "bull_ok b \<Longrightarrow> committee_ok (b_committee b)"
  by (auto simp: bull_ok_def schedule_ok_def)

lemma state_new_ok [keeps]: "state_ok H U c (state_new depth)"
  by (simp add: state_ok_def state_new_def gc_round_def dag_certs_def prev_ok_def)

section \<open>Insertion and garbage collection\<close>

lemma try_insert_dag:
  assumes "try_insert H s x = (s', res)"
  shows "s' = s \<or> (s' = s\<lparr>the_dag := dag_put H x (the_dag s)\<rparr> \<and> gc_round_of (last_round s) < c_round x)"
    and "res = Inr True \<Longrightarrow> s' = s\<lparr>the_dag := dag_put H x (the_dag s)\<rparr>
      \<and> gc_round_of (last_round s) < c_round x"
  using assms
  by (auto simp: try_insert_def try_insert_in_dag_def Let_def
      split: if_splits sum.splits option.splits prod.splits)

lemma state_ok_put:
  assumes "state_ok H U c s" "cert_ok H U c x" "gc_round_of (last_round s) < c_round x"
  shows "state_ok H U c (s\<lparr>the_dag := dag_put H x (the_dag s)\<rparr>)"
proof -
  have ok: "dag_ok H U c (the_dag s)" using assms(1) by (simp add: state_ok_def)
  have "0 < c_round x" using assms(3) by simp
  note put = dag_certs_put [OF ok assms(2) this] dag_ok_put [OF ok assms(2) this]
  show ?thesis using assms put by (auto simp: state_ok_def)
qed

lemma state_ok_try_insert [keeps]:
  assumes "state_ok H U c s" "cert_ok H U c x" "try_insert H s x = (s', res)"
  shows "state_ok H U c s'"
  using try_insert_dag(1) [OF assms(3)] state_ok_put [OF assms(1,2)] assms(1) by auto

lemma state_ok_retain:
  assumes "state_ok H U c s"
  shows "state_ok H U c (s\<lparr>the_dag := bt_retain (\<lambda>r _. P r) (the_dag s)\<rparr>)"
  using assms dag_certs_retain_round [of H U c "the_dag s" P]
  by (auto simp: state_ok_def dag_ok_retain)

lemma state_ok_proactive_gc [keeps]: "state_ok H U c s \<Longrightarrow> state_ok H U c (fst (proactive_gc s h))"
  by (simp add: proactive_gc_def Let_def state_ok_retain)

lemma update_fields [simp]:
  "gc_depth (update s x) = gc_depth s"
  "last_committed_sub_dag (update s x) = last_committed_sub_dag s"
  "committed_round (last_round (update s x)) = max (committed_round (last_round s)) (c_round x)"
  "gc_round_of (last_round (update s x)) =
     max (committed_round (last_round s)) (c_round x) - gc_depth s"
  "the_dag (update s x) =
     bt_retain (\<lambda>r _. max (committed_round (last_round s)) (c_round x) - gc_depth s < r) (the_dag s)"
  by (simp_all add: update_def round_update_def gc_round_def Let_def)

lemma get_update_committed:
  assumes "bt_inv (last_committed s)"
  shows "bt_get (last_committed (update s x)) i =
    (if i = origin x then Some (max (committed_upto (last_committed s) i) (c_round x))
     else bt_get (last_committed s) i)"
  using assms by (auto simp: update_def Let_def committed_upto_def bt_get_insert split: option.splits)

lemma bt_inv_update: "bt_inv (last_committed s) \<Longrightarrow> bt_inv (last_committed (update s x))"
  by (auto simp: update_def Let_def split: option.splits)

lemma committed_upto_le:
  assumes "state_ok H U c s"
  shows "committed_upto (last_committed s) i \<le> committed_round (last_round s)"
  using assms by (auto simp: state_ok_def committed_upto_def split: option.splits dest!: bt_get_set)

lemma prev_ok_mono: "prev_ok c r prev \<Longrightarrow> r \<le> r' \<Longrightarrow> prev_ok c r' prev"
  by (auto simp: prev_ok_def split: option.splits)

lemma state_ok_update [keeps]:
  assumes ok: "state_ok H U c s"
  shows "state_ok H U c (update s x)"
proof -
  have d: "dag_ok H U c (the_dag s)" and inv: "bt_inv (last_committed s)" using ok by (simp_all add: state_ok_def)
  have "r \<le> committed_round (last_round (update s x))" if "(i, r) \<in> set (last_committed (update s x))" for i r
  proof -
    have "bt_get (last_committed (update s x)) i = Some r"
      using that bt_inv_update [OF inv] by (simp add: bt_get_iff)
    moreover have "r \<le> committed_round (last_round s)" if "bt_get (last_committed s) i = Some r"
      using ok that by (auto simp: state_ok_def dest!: bt_get_set)
    ultimately show ?thesis
      using committed_upto_le [OF ok, of i] by (auto simp: get_update_committed [OF inv] split: if_splits)
  qed
  moreover have "prev_ok c (max (committed_round (last_round s)) (c_round x)) (last_committed_sub_dag s)"
    using ok prev_ok_mono by (fastforce simp: state_ok_def)
  ultimately show ?thesis
    using d inv by (auto simp: state_ok_def dag_ok_retain dag_certs_retain_round [OF d] bt_inv_update gc_round_def)
qed

section \<open>Committed certificates\<close>

lemma skip_committed_iff: "skip_committed s x \<longleftrightarrow> (\<exists>r. bt_get (last_committed s) (origin x) = Some r \<and> c_round x \<le> r)"
  by (auto simp: skip_committed_def split: option.splits)

lemma skip_update:
  assumes "bt_inv (last_committed s)"
  shows "skip_committed (update s x) y \<longleftrightarrow>
    skip_committed s y \<or> (origin y = origin x \<and> c_round y \<le> c_round x)"
  using assms
  by (auto simp: skip_committed_iff get_update_committed committed_upto_def max_def split: option.splits if_splits)

abbreviation update_all :: "certificate list \<Rightarrow> consensus_state \<Rightarrow> consensus_state" where
  "update_all seq s \<equiv> fold (\<lambda>x s. update s x) seq s"

lemma state_ok_update_all [keeps]: "state_ok H U c s \<Longrightarrow> state_ok H U c (update_all seq s)"
  by (induction seq arbitrary: s) (auto intro: state_ok_update)

lemma update_all_fields [simp]:
  "gc_depth (update_all seq s) = gc_depth s"
  "last_committed_sub_dag (update_all seq s) = last_committed_sub_dag s"
  by (induction seq arbitrary: s) simp_all

lemma update_all_round:
  "committed_round (last_round (update_all seq s)) = fold max (map c_round seq) (committed_round (last_round s))"
  by (induction seq arbitrary: s) (simp_all add: max.commute)

lemma skip_update_all:
  assumes "bt_inv (last_committed s)"
  shows "skip_committed (update_all seq s) y \<longleftrightarrow>
    skip_committed s y \<or> (\<exists>x\<in>set seq. origin y = origin x \<and> c_round y \<le> c_round x)"
  using assms by (induction seq arbitrary: s) (auto simp: skip_update bt_inv_update)

lemma filter_mono: "a \<le> R \<Longrightarrow> {x \<in> {x \<in> A. a - g < f x}. R - g < (f x :: nat)} = {x \<in> A. R - g < f x}"
  by (auto intro: le_less_trans [OF diff_le_mono])

lemma dag_certs_update_all:
  assumes "state_ok H U c s" "seq \<noteq> []"
  shows "dag_certs (the_dag (update_all seq s)) =
    {x \<in> dag_certs (the_dag s). committed_round (last_round (update_all seq s)) - gc_depth s < c_round x}"
  using assms
proof (induction seq arbitrary: s)
  case Nil
  then show ?case by simp
next
  case (Cons y seq)
  have d: "dag_ok H U c (the_dag s)" using Cons.prems by (simp add: state_ok_def)
  have e: "dag_certs (the_dag (update s y)) =
      {x \<in> dag_certs (the_dag s). committed_round (last_round (update s y)) - gc_depth s < c_round x}"
    by (simp add: dag_certs_retain_round [OF d])
  show ?case
  proof (cases "seq = []")
    case True
    then show ?thesis using e by simp
  next
    case False
    define R where "R = committed_round (last_round (update_all seq (update s y)))"
    have le: "committed_round (last_round (update s y)) \<le> R"
      unfolding R_def update_all_round fold_max_nat by (rule Max_ge) simp_all
    have "dag_certs (the_dag (update_all seq (update s y))) =
        {x \<in> dag_certs (the_dag (update s y)). R - gc_depth s < c_round x}"
      using Cons.IH [OF state_ok_update [OF Cons.prems(1)] False] unfolding R_def update_fields(1) .
    also have "\<dots> = {x \<in> dag_certs (the_dag s). R - gc_depth s < c_round x}"
      unfolding e by (rule filter_mono [OF le])
    finally show ?thesis unfolding fold_simps R_def .
  qed
qed

section \<open>Committing one leader\<close>

lemma scores_fold_ok:
  assumes "scores_ok c sc" "\<forall>x\<in>set xs. is_authority c (origin x)"
  shows "scores_ok c (fold (\<lambda>x sc. if P x then add_score (origin x) 1 sc else sc) xs sc)"
  using assms by (induction xs arbitrary: sc) (auto simp: add_score_ok members_iff)

lemma scores_ok_total: "committee_ok c \<Longrightarrow> scores_ok c sc \<Longrightarrow> total_authorities sc = committee_size c"
  unfolding scores_ok_def total_authorities_def
  by (metis bt_inv_distinct card_members distinct_card length_map set_map)

lemma scores_ok_final [simp]: "scores_ok c (sc\<lparr>final_of_schedule := f\<rparr>) = scores_ok c sc"
  by (simp add: scores_ok_def)

lemma resolve_ok [panic_free]:
  assumes "committee_ok (b_committee b)" "prev_ok (b_committee b) r (last_committed_sub_dag s)"
    and "\<forall>x\<in>set seq. is_authority (b_committee b) (origin x)"
  shows "\<exists>sc. resolve_reputation_score H b s seq i = Some sc \<and> scores_ok (b_committee b) sc"
proof -
  let ?c = "b_committee b"
  define s0 where "s0 = (if num_sub_dags_per_schedule b dvd i div 2 then reputation_new ?c
     else case last_committed_sub_dag s of Some prev \<Rightarrow> reputation_score prev | None \<Rightarrow> reputation_new ?c)"
  define s1 where "s1 = (case last_committed_sub_dag s of None \<Rightarrow> s0
     | Some prev \<Rightarrow> fold (\<lambda>x sc. if cert_digest H (leader prev) \<in> set (c_parents x)
           then add_score (origin x) 1 sc else sc)
         (filter (\<lambda>x. c_round x = leader_round prev + 1) seq) s0)"
  have "scores_ok ?c s0"
    using assms reputation_new_ok by (auto simp: s0_def prev_ok_def split: option.splits)
  then have "scores_ok ?c s1"
    using assms(3) by (auto simp: s1_def intro!: scores_fold_ok split: option.splits)
  then show ?thesis
    using scores_ok_total [OF assms(1)]
    by (simp add: resolve_reputation_score_def Let_def s0_def [symmetric] s1_def [symmetric])
qed

lemma update_schedule_ok [panic_free]:
  assumes "bull_ok b" "scores_ok (b_committee b) sc"
  shows "\<exists>b' ch. update_leader_schedule b r sc = Some (b', ch) \<and> bull_ok b'
    \<and> b_committee b' = b_committee b"
  using assms swap_table_new_ok [of "b_committee b" sc "bad_nodes_stake_threshold b" r]
  by (cases "final_of_schedule sc")
    (auto simp: update_leader_schedule_def update_leader_swap_table_def bull_ok_def schedule_ok_def
      ex_bool_eq)

lemma sub_dag_of_leader: "ldr \<in> sub_dag_of s ldr"
  by (simp add: sub_dag_of_def)

lemma sub_dag_of_props:
  assumes cf: "collision_free H U" and ok: "state_ok H U c s" and l: "ldr \<in> dag_certs (the_dag s)"
    and gt: "committed_round (last_round s) < c_round ldr" and x: "x \<in> sub_dag_of s ldr"
  shows "x \<in> dag_certs (the_dag s)" "c_round x \<le> c_round ldr" "\<not> skip_committed s x"
    "is_authority c (origin x)"
proof -
  have d: "dag_ok H U c (the_dag s)" using ok by (simp add: state_ok_def)
  have r: "(pstep s (c_round ldr - gc_depth s))\<^sup>*\<^sup>* ldr x" using x by (simp add: sub_dag_of_def)
  note rp = reach_props [OF cf d l r]
  show "x \<in> dag_certs (the_dag s)" "c_round x \<le> c_round ldr" by (fact rp)+
  show "is_authority c (origin x)" using dag_certs_ok(1) [OF d rp(1)] by (simp add: cert_ok_def)
  have "\<not> skip_committed s ldr"
    using committed_upto_le [OF ok, of "origin ldr"] gt
    by (auto simp: skip_committed_iff committed_upto_def)
  then show "\<not> skip_committed s x" using rp(4) by auto
qed

text \<open>The slot of a certificate in the DAG.\<close>

definition cert_key :: "certificate \<Rightarrow> auth_id \<times> round" where
  "cert_key x = (origin x, c_round x)"

lemma distinct_cert_key:
  assumes "dag_ok H U c d" "set xs \<subseteq> dag_certs d" "distinct (map (cert_digest H) xs)"
  shows "distinct (map cert_key xs)"
proof -
  have "distinct xs" using assms(3) by (simp add: distinct_map)
  moreover have "inj_on cert_key (set xs)"
    using assms(2) dag_certs_key [OF assms(1)] by (intro inj_onI) (auto simp: cert_key_def)
  ultimately show ?thesis by (simp add: distinct_map)
qed

definition committed_by ::
  "hash_fun \<Rightarrow> consensus_state \<Rightarrow> certificate \<Rightarrow> consensus_state \<Rightarrow> committed_sub_dag \<Rightarrow> bool" where
  "committed_by H s ldr s' sd \<longleftrightarrow>
     leader sd = ldr \<and> set (certificates sd) = sub_dag_of s ldr
     \<and> (\<forall>x\<in>set (certificates sd). \<not> skip_committed s x \<and> c_round x \<le> c_round ldr)
     \<and> distinct (map cert_key (certificates sd))
     \<and> distinct (map (cert_digest H) (certificates sd)) \<and> sorted_wrt (seq_le H) (certificates sd)
     \<and> sub_dag_ts sd = max (case last_committed_sub_dag s of None \<Rightarrow> 0 | Some p \<Rightarrow> sub_dag_ts p)
         (h_created_at (c_header ldr))
     \<and> last_committed_sub_dag s' = Some sd \<and> committed_round (last_round s') = c_round ldr
     \<and> gc_depth s' = gc_depth s
     \<and> dag_certs (the_dag s') = {x \<in> dag_certs (the_dag s). c_round ldr - gc_depth s < c_round x}
     \<and> (\<forall>y. skip_committed s' y \<longleftrightarrow> skip_committed s y
          \<or> (\<exists>x\<in>sub_dag_of s ldr. origin y = origin x \<and> c_round y \<le> c_round x))"

lemma commit_one_ok [panic_free]:
  assumes cf: "collision_free H U" and b: "bull_ok b" and ok: "state_ok H U (b_committee b) s"
    and l: "ldr \<in> dag_certs (the_dag s)" and gt: "committed_round (last_round s) < c_round ldr"
  shows "\<exists>b' s' sd ch. commit_one H b s ldr = Some (b', s', sd, ch) \<and> bull_ok b'
    \<and> b_committee b' = b_committee b \<and> state_ok H U (b_committee b) s' \<and> committed_by H s ldr s' sd"
proof -
  let ?c = "b_committee b"
  have d: "dag_ok H U ?c (the_dag s)" and lc: "bt_inv (last_committed s)" using ok by (simp_all add: state_ok_def)
  from order_dag_spec [OF cf d l] obtain seq where seq: "order_dag H ldr s = Some seq"
    "set seq = sub_dag_of s ldr" "distinct (map (cert_digest H) seq)" "sorted_wrt (seq_le H) seq" by blast
  note props = sub_dag_of_props [OF cf ok l gt]
  let ?s1 = "update_all seq s"
  have ok1: "state_ok H U ?c ?s1" by (rule state_ok_update_all [OF ok])
  have mem: "ldr \<in> set seq" using sub_dag_of_leader seq(2) by simp
  then have ne: "seq \<noteq> []" by auto
  have "Max (insert (committed_round (last_round s)) (c_round ` set seq)) = c_round ldr"
    using props(2) mem gt unfolding seq(2) by (intro Max_eqI) (auto simp: seq(2) [symmetric])
  then have cr: "committed_round (last_round ?s1) = c_round ldr"
    by (simp add: update_all_round fold_max_nat)
  have "prev_ok ?c (c_round ldr) (last_committed_sub_dag ?s1)" using ok1 cr by (simp add: state_ok_def)
  moreover have "\<forall>x\<in>set seq. is_authority ?c (origin x)" using props(4) seq(2) by simp
  ultimately obtain sc where sc: "resolve_reputation_score H b ?s1 seq (cert_nonce ldr) = Some sc"
    "scores_ok ?c sc"
    using resolve_ok [OF bull_ok_committee [OF b]] by blast
  from update_schedule_ok [OF b sc(2)] obtain b' ch where
    sch: "update_leader_schedule b (c_round ldr) sc = Some (b', ch)" "bull_ok b'" "b_committee b' = ?c" by blast
  let ?sd = "sub_dag_new seq ldr sc (last_committed_sub_dag ?s1)"
  let ?s2 = "?s1\<lparr>last_committed_sub_dag := Some ?sd\<rparr>"
  have "commit_one H b s ldr = Some (b', ?s2, ?sd, ch)"
    by (simp add: commit_one_def seq(1) sc(1) sch(1) Let_def del: update_all_fields)
  moreover have "state_ok H U ?c ?s2"
    using ok1 sc(2) cr by (auto simp: state_ok_def prev_ok_def sub_dag_new_def)
  moreover have "set seq \<subseteq> dag_certs (the_dag s)" using props(1) seq(2) by blast
  then have "distinct (map cert_key seq)" by (rule distinct_cert_key [OF d _ seq(3)])
  then have "committed_by H s ldr ?s2 ?sd"
    using seq cr dag_certs_update_all [OF ok ne] skip_update_all [OF lc, of seq] props(2,3)
    by (simp add: committed_by_def sub_dag_new_def skip_committed_iff)
  ultimately show ?thesis using sch by blast
qed

section \<open>Sequences of commits\<close>

text \<open>
  The abstract behaviour: a state goes to the next by committing the sub-DAG of a leader above the
  last committed round.
\<close>

inductive commits :: "hash_fun \<Rightarrow> consensus_state \<Rightarrow> committed_sub_dag list \<Rightarrow> consensus_state \<Rightarrow> bool"
  for H where
  commits_Nil: "commits H s [] s"
| commits_Cons: "ldr \<in> dag_certs (the_dag s) \<Longrightarrow> committed_round (last_round s) < c_round ldr \<Longrightarrow>
    committed_by H s ldr s1 sd \<Longrightarrow> commits H s1 sds s' \<Longrightarrow> commits H s (sd # sds) s'"

inductive_cases commits_NilE: "commits H s [] s'"
inductive_cases commits_ConsE: "commits H s (sd # sds) s'"

lemma commits_append:
  "commits H s xs s1 \<Longrightarrow> commits H s1 ys s2 \<Longrightarrow> commits H s (xs @ ys) s2"
  by (induction rule: commits.induct) (auto intro: commits.intros)

lemma commits_mono:
  "commits H s sds s' \<Longrightarrow>
   gc_depth s' = gc_depth s \<and> committed_round (last_round s) \<le> committed_round (last_round s')
   \<and> (sds \<noteq> [] \<longrightarrow> committed_round (last_round s) < committed_round (last_round s')
        \<and> leader_round (last sds) = committed_round (last_round s') \<and> last_committed_sub_dag s' = Some (last sds))"
proof (induction rule: commits.induct)
  case (commits_Nil s)
  then show ?case by simp
next
  case (commits_Cons ldr s s1 sd sds s')
  then show ?case by (cases sds) (auto simp: committed_by_def elim: commits_NilE)
qed

lemma commits_keep:
  "commits H s sds s' \<Longrightarrow> x \<in> dag_certs (the_dag s) \<Longrightarrow> committed_round (last_round s') < c_round x \<Longrightarrow>
   x \<in> dag_certs (the_dag s')"
proof (induction rule: commits.induct)
  case (commits_Nil s)
  then show ?case by simp
next
  case (commits_Cons ldr s s1 sd sds s')
  have "c_round ldr \<le> committed_round (last_round s')"
    using commits_mono [OF commits_Cons.hyps(4)] commits_Cons.hyps(3) by (auto simp: committed_by_def)
  with commits_Cons show ?case by (auto simp: committed_by_def)
qed

lemma commit_all_ok [panic_free]:
  assumes cf: "collision_free H U"
  shows "bull_ok b \<Longrightarrow> state_ok H U (b_committee b) s \<Longrightarrow> sorted_wrt (\<lambda>x y. c_round x < c_round y) ldrs \<Longrightarrow>
    \<forall>l\<in>set ldrs. l \<in> dag_certs (the_dag s) \<and> committed_round (last_round s) < c_round l \<Longrightarrow>
    \<exists>b' s' out sds. commit_all H b s ldrs acc = Some (b', s', out, acc @ sds) \<and> bull_ok b'
      \<and> b_committee b' = b_committee b \<and> state_ok H U (b_committee b) s' \<and> commits H s sds s'
      \<and> (ldrs \<noteq> [] \<longrightarrow> sds \<noteq> [])
      \<and> (out = Commit \<or> out = ScheduleChanged \<and> committed_round (last_round s') < c_round (last ldrs))"
proof (induction ldrs arbitrary: b s acc)
  case Nil
  then show ?case by (auto intro: commits_Nil)
next
  case (Cons l ls)
  from Cons.prems have l: "l \<in> dag_certs (the_dag s)" "committed_round (last_round s) < c_round l" by auto
  from commit_one_ok [OF cf Cons.prems(1,2) l] obtain b1 s1 sd ch where
    one: "commit_one H b s l = Some (b1, s1, sd, ch)" "bull_ok b1" "b_committee b1 = b_committee b"
      "state_ok H U (b_committee b) s1" "committed_by H s l s1 sd" by blast
  have cr: "committed_round (last_round s1) = c_round l" using one(5) by (simp add: committed_by_def)
  show ?case
  proof (cases "ch \<and> ls \<noteq> []")
    case True
    then have "commit_all H b s (l # ls) acc = Some (b1, s1, ScheduleChanged, acc @ [sd])" by (simp add: one(1))
    moreover have "commits H s [sd] s1" using l one(5) by (auto intro: commits.intros)
    moreover have "c_round l < c_round (last (l # ls))" using True Cons.prems(3) by simp
    ultimately show ?thesis using one cr
      by (intro exI [of _ b1] exI [of _ s1] exI [of _ ScheduleChanged] exI [of _ "[sd]"] conjI) auto
  next
    case False
    have "\<forall>l'\<in>set ls. l' \<in> dag_certs (the_dag s1) \<and> committed_round (last_round s1) < c_round l'"
      using Cons.prems(3,4) one(5) cr by (auto simp: committed_by_def)
    then obtain b' s' out sds where r: "commit_all H b1 s1 ls (acc @ [sd]) = Some (b', s', out, (acc @ [sd]) @ sds)"
      "bull_ok b'" "b_committee b' = b_committee b" "state_ok H U (b_committee b) s'" "commits H s1 sds s'"
      "out = Commit \<or> out = ScheduleChanged \<and> committed_round (last_round s') < c_round (last ls)"
      using Cons.IH [of b1 s1 "acc @ [sd]"] Cons.prems(3) one by auto
    have "commit_all H b s (l # ls) acc = Some (b', s', out, acc @ sd # sds)"
      using False r(1) by (auto simp: one(1))
    moreover have "commits H s (sd # sds) s'" using l one(5) r(5) by (rule commits_Cons)
    moreover have "out = ScheduleChanged \<Longrightarrow> ls \<noteq> []" using r(1) by (cases ls) auto
    ultimately show ?thesis using r
      by (intro exI [of _ b'] exI [of _ s'] exI [of _ out] exI [of _ "sd # sds"] conjI) auto
  qed
qed

section \<open>The leaders to commit\<close>

lemma leader_certificate_ok [panic_free]:
  assumes "bull_ok b" "draw_ok draw" "even r" "dag_ok H U (b_committee b) d"
  shows "\<exists>a oc. leader_certificate draw (b_schedule b) r d = Some (a, oc)
    \<and> (\<forall>x. oc = Some x \<longrightarrow> x \<in> dag_certs d \<and> c_round x = r \<and> origin x = auth_ident a)"
proof -
  from assms(1) have "schedule_ok (b_schedule b)" by (simp add: bull_ok_def)
  from leader_of_member [OF this assms(2,3)] obtain a where a: "leader_of draw (b_schedule b) r = Some a" by blast
  have "x \<in> dag_certs d \<and> c_round x = r \<and> origin x = auth_ident a"
    if "bt_get d r = Some m" "bt_get m (auth_ident a) = Some (dg, x)" for m dg x
    using that dag_ok_row [OF assms(4) that(1)] row_entry [of H U _ r m "auth_ident a" dg x]
    by (auto simp: dag_certs_def dest!: bt_get_set)
  then show ?thesis
    by (simp add: leader_certificate_def a split: option.split)
qed

lemma set_back_by_two: "r \<in> set (back_by_two lo hi) \<longleftrightarrow> lo \<le> r \<and> r \<le> hi \<and> even (hi - r)"
  by (auto simp: back_by_two_def)

lemma sorted_back_by_two: "sorted_wrt (>) (back_by_two lo hi)"
  unfolding back_by_two_def
  by (intro sorted_wrt_filter) (simp only: sorted_wrt_rev sorted_wrt_upt)

lemma order_leaders_loop_ok [panic_free]:
  assumes b: "bull_ok b" and draw: "draw_ok draw" and d: "dag_ok H U (b_committee b) d"
  shows "sorted_wrt (>) rs \<Longrightarrow> \<forall>r\<in>set rs. even r \<and> cr < r \<and> r < c_round ldr \<Longrightarrow>
    hd acc = ldr \<Longrightarrow> acc \<noteq> [] \<Longrightarrow> sorted_wrt (\<lambda>x y. c_round x < c_round y) acc \<Longrightarrow>
    \<forall>x\<in>set acc. x \<in> dag_certs d \<and> cr < c_round x \<Longrightarrow>
    \<exists>out. order_leaders_loop H draw (b_schedule b) d ldr rs acc = Some out \<and> out \<noteq> [] \<and> last out = last acc
      \<and> sorted_wrt (\<lambda>x y. c_round x < c_round y) out \<and> (\<forall>x\<in>set out. x \<in> dag_certs d \<and> cr < c_round x)"
proof (induction rs arbitrary: ldr acc)
  case Nil
  then show ?case by simp
next
  case (Cons r rs)
  from Cons.prems(2) have "even r" by simp
  from leader_certificate_ok [OF b draw this d] obtain a oc where
    lc: "leader_certificate draw (b_schedule b) r d = Some (a, oc)"
    and x: "\<And>x. oc = Some x \<Longrightarrow> x \<in> dag_certs d \<and> c_round x = r" by auto
  have below: "\<forall>r'\<in>set rs. r' < r" using Cons.prems(1) by auto
  show ?case
  proof (cases "\<exists>p. oc = Some p \<and> linked H ldr p d")
    case True
    then obtain p where p: "oc = Some p" "linked H ldr p d" by blast
    have hd: "\<forall>y\<in>set acc. c_round ldr \<le> c_round y"
      using Cons.prems(3,4,5) by (cases acc) auto
    have "\<exists>out. order_leaders_loop H draw (b_schedule b) d p rs (p # acc) = Some out \<and> out \<noteq> []
        \<and> last out = last (p # acc) \<and> sorted_wrt (\<lambda>x y. c_round x < c_round y) out
        \<and> (\<forall>x\<in>set out. x \<in> dag_certs d \<and> cr < c_round x)"
      using Cons.prems below x [OF p(1)] hd by (intro Cons.IH) fastforce+
    with p lc Cons.prems(4) show ?thesis by simp
  next
    case False
    have "\<exists>out. order_leaders_loop H draw (b_schedule b) d ldr rs acc = Some out \<and> out \<noteq> []
        \<and> last out = last acc \<and> sorted_wrt (\<lambda>x y. c_round x < c_round y) out
        \<and> (\<forall>x\<in>set out. x \<in> dag_certs d \<and> cr < c_round x)"
      using Cons.prems by (intro Cons.IH) auto
    with False lc show ?thesis by (auto split: option.split)
  qed
qed

lemma order_leaders_ok [panic_free]:
  assumes b: "bull_ok b" and draw: "draw_ok draw" and ok: "state_ok H U (b_committee b) s"
    and l: "ldr \<in> dag_certs (the_dag s)" "even (c_round ldr)" "2 \<le> c_round ldr"
    and gt: "committed_round (last_round s) < c_round ldr"
  shows "\<exists>ldrs. order_leaders H draw b ldr s = Some ldrs \<and> ldrs \<noteq> [] \<and> last ldrs = ldr
    \<and> sorted_wrt (\<lambda>x y. c_round x < c_round y) ldrs
    \<and> (\<forall>x\<in>set ldrs. x \<in> dag_certs (the_dag s) \<and> committed_round (last_round s) < c_round x)"
proof -
  let ?cr = "committed_round (last_round s)"
  have d: "dag_ok H U (b_committee b) (the_dag s)" using ok by (simp add: state_ok_def)
  have "\<forall>r\<in>set (back_by_two (?cr + 2) (c_round ldr - 2)). even r \<and> ?cr < r \<and> r < c_round ldr"
    using l(2,3) by (auto simp: set_back_by_two)
  from order_leaders_loop_ok [OF b draw d sorted_back_by_two this, of "[ldr]"] obtain out where
    out: "order_leaders_loop H draw (b_schedule b) (the_dag s) ldr
      (back_by_two (?cr + 2) (c_round ldr - 2)) [ldr] = Some out" "out \<noteq> []" "last out = ldr"
      "sorted_wrt (\<lambda>x y. c_round x < c_round y) out"
      "\<forall>x\<in>set out. x \<in> dag_certs (the_dag s) \<and> ?cr < c_round x"
    using l gt by auto
  have "\<not> list_ex (\<lambda>x. authority (b_committee b) (origin x) = None) out"
    using out(5) dag_certs_ok(1) [OF d]
    by (auto simp: list_ex_iff cert_ok_def is_authority_def authority_def)
  then show ?thesis using out l by (simp add: order_leaders_def even_iff_mod_2_eq_zero)
qed

section \<open>The commit loop\<close>

lemma row_exists:
  assumes "dag_ok H U c d" "x \<in> dag_certs d"
  shows "\<exists>row. bt_get d (c_round x) = Some row"
  using assms(2) unfolding in_dag_certs_iff [OF assms(1)] dag_row_def by (auto split: option.splits)

lemma commit_leader_ok [panic_free]:
  assumes cf: "collision_free H U" and b: "bull_ok b" and draw: "draw_ok draw"
    and ok: "state_ok H U (b_committee b) s"
    and r: "even r" "2 \<le> r" "committed_round (last_round s) < r"
    and kid: "x \<in> dag_certs (the_dag s)" "c_round x = r + 1"
  shows "\<exists>b' s' out sds. commit_leader H draw b s r = Some (b', s', out, sds) \<and> bull_ok b'
    \<and> b_committee b' = b_committee b \<and> state_ok H U (b_committee b) s' \<and> commits H s sds s'
    \<and> (out = ScheduleChanged \<longrightarrow> sds \<noteq> [] \<and> committed_round (last_round s') < r)"
proof -
  have d: "dag_ok H U (b_committee b) (the_dag s)" using ok by (simp add: state_ok_def)
  obtain row where row: "bt_get (the_dag s) (r + 1) = Some row" using row_exists [OF d kid(1)] kid(2) by auto
  from leader_certificate_ok [OF b draw r(1) d] obtain a oc where
    lc: "leader_certificate draw (b_schedule b) r (the_dag s) = Some (a, oc)"
    and l: "\<And>x. oc = Some x \<Longrightarrow> x \<in> dag_certs (the_dag s) \<and> c_round x = r" by auto
  show ?thesis
  proof (cases "\<exists>l. oc = Some l \<and> \<not> leader_support H (b_committee b) l row < validity_threshold (b_committee b)")
    case True
    then obtain l where l': "oc = Some l" "\<not> leader_support H (b_committee b) l row < validity_threshold (b_committee b)"
      by blast
    note lp = l [OF l'(1)]
    from order_leaders_ok [OF b draw ok, of l] lp r obtain ldrs where
      ldrs: "order_leaders H draw b l s = Some ldrs" "ldrs \<noteq> []" "last ldrs = l"
        "sorted_wrt (\<lambda>x y. c_round x < c_round y) ldrs"
        "\<forall>x\<in>set ldrs. x \<in> dag_certs (the_dag s) \<and> committed_round (last_round s) < c_round x" by auto
    have "commit_leader H draw b s r = commit_all H b s ldrs []"
      using lc l' row ldrs(1) by (simp add: commit_leader_def)
    then show ?thesis
      using commit_all_ok [OF cf b ok ldrs(4,5), of "[]"] ldrs(2,3) lp by fastforce
  next
    case False
    then show ?thesis
      using lc row b ok by (auto simp: commit_leader_def commits_Nil split: option.split)
  qed
qed

text \<open>Every retry has committed a leader below the round, so the loop ends.\<close>

lemma commit_loop_ok [panic_free]:
  assumes cf: "collision_free H U" and draw: "draw_ok draw" and r: "even r" "2 \<le> r"
  shows "bull_ok b \<Longrightarrow> state_ok H U (b_committee b) s \<Longrightarrow> committed_round (last_round s) < r \<Longrightarrow>
    x \<in> dag_certs (the_dag s) \<Longrightarrow> c_round x = r + 1 \<Longrightarrow>
    \<exists>b' s' out sds. commit_loop H draw b s r acc = Some (b', s', out, acc @ sds) \<and> bull_ok b'
      \<and> b_committee b' = b_committee b \<and> state_ok H U (b_committee b) s' \<and> commits H s sds s'
      \<and> out \<noteq> ScheduleChanged"
proof (induction "r - committed_round (last_round s)" arbitrary: b s acc rule: less_induct)
  case less
  from commit_leader_ok [OF cf less.prems(1) draw less.prems(2) r less.prems(3-5)]
  obtain b1 s1 out sds where one: "commit_leader H draw b s r = Some (b1, s1, out, sds)" "bull_ok b1"
    "b_committee b1 = b_committee b" "state_ok H U (b_committee b) s1" "commits H s sds s1"
    "out = ScheduleChanged \<longrightarrow> sds \<noteq> [] \<and> committed_round (last_round s1) < r" by blast
  show ?case
  proof (cases "out = ScheduleChanged")
    case True
    with one(6) have ne: "sds \<noteq> []" and lt: "committed_round (last_round s1) < r" by auto
    have "r - committed_round (last_round s1) < r - committed_round (last_round s)"
      using commits_mono [OF one(5)] ne lt by auto
    moreover have "x \<in> dag_certs (the_dag s1)"
      using commits_keep [OF one(5) less.prems(4)] lt less.prems(5) by simp
    ultimately obtain b' s' out' sds' where
      "commit_loop H draw b1 s1 r (acc @ sds) = Some (b', s', out', (acc @ sds) @ sds')" "bull_ok b'"
      "b_committee b' = b_committee b" "state_ok H U (b_committee b) s'" "commits H s1 sds' s'"
      "out' \<noteq> ScheduleChanged"
      using less.hyps [of s1 b1 "acc @ sds"] one lt less.prems(5) by auto
    then show ?thesis
      using commits_append [OF one(5)] True one(1) by (subst commit_loop.simps) auto
  next
    case False
    then show ?thesis using one by (subst commit_loop.simps) auto
  qed
qed

lemma report_ok [panic_free]:
  assumes b: "bull_ok b" and draw: "draw_ok draw"
  shows "report_leader_on_time_metrics draw b r =
    Some (b\<lparr>max_inserted_certificate_round := max (max_inserted_certificate_round b) r\<rparr>)"
proof -
  have "schedule_ok (b_schedule b)" using b by (simp add: bull_ok_def)
  then have "leader_of draw (b_schedule b) (r - 2) \<noteq> None" if "even r" "2 < r"
    using leader_of_member [OF _ draw, of "b_schedule b" "r - 2"] that by auto
  then show ?thesis by (auto simp: report_leader_on_time_metrics_def)
qed

lemma bull_ok_max [simp]: "bull_ok (b\<lparr>max_inserted_certificate_round := m\<rparr>) = bull_ok b"
  by (simp add: bull_ok_def)

text \<open>What a call of \<open>process_certificate\<close> does, for every certificate of a committee member.\<close>

lemma process_certificate_ok [panic_free]:
  assumes cf: "collision_free H U" and draw: "draw_ok draw" and b: "bull_ok b"
    and ok: "state_ok H U (b_committee b) s" and c: "cert_ok H U (b_committee b) c"
  shows "\<exists>b' s1 s' res. process_certificate H draw b s c = Some (b', s', res) \<and> bull_ok b'
    \<and> b_committee b' = b_committee b \<and> state_ok H U (b_committee b) s'
    \<and> (s1 = s \<or> s1 = s\<lparr>the_dag := dag_put H c (the_dag s)\<rparr>)
    \<and> commits H s1 (case res of Inl _ \<Rightarrow> [] | Inr (_, sds) \<Rightarrow> sds) s'
    \<and> (\<forall>out sds. res = Inr (out, sds) \<longrightarrow> out \<noteq> ScheduleChanged)"
proof -
  obtain s1 ins where ins: "try_insert H s c = (s1, ins)" by (metis surj_pair)
  have ok1: "state_ok H U (b_committee b) s1" by (rule state_ok_try_insert [OF ok c ins])
  have s1: "s1 = s \<or> s1 = s\<lparr>the_dag := dag_put H c (the_dag s)\<rparr>" using try_insert_dag(1) [OF ins] by auto
  let ?b1 = "b\<lparr>max_inserted_certificate_round := max (max_inserted_certificate_round b) (c_round c)\<rparr>"
  have b1: "bull_ok ?b1" using b by simp
  show ?thesis
  proof (cases "ins = Inr True \<and> even (c_round c - 1) \<and> 2 \<le> c_round c - 1
      \<and> committed_round (last_round s1) < c_round c - 1")
    case True
    have put: "s1 = s\<lparr>the_dag := dag_put H c (the_dag s)\<rparr>" "0 < c_round c"
      using try_insert_dag(2) [OF ins] True by auto
    have dok: "dag_ok H U (b_committee b) (the_dag s)" using ok by (simp add: state_ok_def)
    have "c \<in> dag_certs (the_dag s1)"
      using dag_certs_put [OF dok c put(2)] by (simp add: put(1))
    then obtain b' s' out sds where cl: "commit_loop H draw ?b1 s1 (c_round c - 1) [] = Some (b', s', out, [] @ sds)"
      "bull_ok b'" "b_committee b' = b_committee b" "state_ok H U (b_committee b) s'" "commits H s1 sds s'"
      "out \<noteq> ScheduleChanged"
      using commit_loop_ok [OF cf draw _ _ b1, of "c_round c - 1" s1 c "[]"] True ok1 put(2) by auto
    have r: "\<not> (odd (c_round c - 1) \<or> c_round c - 1 < 2)" "\<not> c_round c - 1 \<le> committed_round (last_round s1)"
      "c_round c \<noteq> 0" using True put(2) by auto
    have "process_certificate H draw b s c = Some (b', s', Inr (if sds = [] then out else Commit, sds))"
      unfolding process_certificate_def ins report_ok [OF b draw] Let_def
      using True r cl(1) by (simp only: prod.case sum.case bool.case option.case if_False append_Nil)
    with cl s1 show ?thesis
      by (intro exI [of _ b'] exI [of _ s1] exI [of _ s'] exI conjI) (assumption | simp)+
  next
    case False
    have "\<exists>b' res. process_certificate H draw b s c = Some (b', s1, res) \<and> (b' = b \<or> b' = ?b1)
        \<and> (\<forall>out sds. res = Inr (out, sds) \<longrightarrow> sds = [] \<and> out \<noteq> ScheduleChanged)"
    proof (cases "ins = Inr True")
      case True
      then have "c_round c \<noteq> 0" using try_insert_dag(2) [OF ins] by auto
      then show ?thesis
        unfolding process_certificate_def ins report_ok [OF b draw] Let_def using True False by auto
    next
      case False
      then show ?thesis
        unfolding process_certificate_def ins by (cases ins) (auto split: bool.splits)
    qed
    then obtain b' res where pc: "process_certificate H draw b s c = Some (b', s1, res)" "b' = b \<or> b' = ?b1"
      "\<And>out sds. res = Inr (out, sds) \<Longrightarrow> sds = [] \<and> out \<noteq> ScheduleChanged" by blast
    moreover have "(case res of Inl _ \<Rightarrow> [] | Inr (_, sds) \<Rightarrow> sds) = []"
      using pc(3) by (auto split: sum.split)
    moreover have "bull_ok b' \<and> b_committee b' = b_committee b" using pc(2) b by auto
    ultimately show ?thesis
      using s1 ok1 commits_Nil by (intro exI [of _ b'] exI [of _ s1] exI conjI) (assumption | simp)+
  qed
qed

section \<open>The history of commits\<close>

definition committed_keys :: "committed_sub_dag list \<Rightarrow> (auth_id \<times> round) list" where
  "committed_keys outs = map cert_key (concat (map certificates outs))"

definition history_ok :: "consensus_state \<Rightarrow> committed_sub_dag list \<Rightarrow> bool" where
  "history_ok s outs \<longleftrightarrow>
     distinct (committed_keys outs)
     \<and> (\<forall>sd\<in>set outs. \<forall>x\<in>set (certificates sd). skip_committed s x)
     \<and> sorted_wrt (<) (map leader_round outs)
     \<and> (\<forall>sd\<in>set outs. leader_round sd \<le> committed_round (last_round s))
     \<and> sorted (map sub_dag_ts outs)
     \<and> (outs \<noteq> [] \<longrightarrow> last_committed_sub_dag s = Some (last outs))"

lemma history_ok_Nil [simp]: "history_ok s []"
  by (simp add: history_ok_def committed_keys_def)

lemma history_ok_dag [simp]: "history_ok (s\<lparr>the_dag := d\<rparr>) outs = history_ok s outs"
  by (simp add: history_ok_def skip_committed_iff)

lemma skip_cert_key: "cert_key x = cert_key y \<Longrightarrow> skip_committed s x = skip_committed s y"
  by (simp add: cert_key_def skip_committed_iff)

lemma history_ok_commit:
  assumes "history_ok s outs" "committed_by H s ldr s1 sd" "committed_round (last_round s) < c_round ldr"
  shows "history_ok s1 (outs @ [sd])"
proof -
  note c = assms(2) [unfolded committed_by_def] and h = assms(1) [unfolded history_ok_def]
  have new: "\<not> skip_committed s x" if "x \<in> set (certificates sd)" for x using c that by simp
  have old: "skip_committed s y" if "o' \<in> set outs" "y \<in> set (certificates o')" for o' y using h that by simp
  have "cert_key x \<noteq> cert_key y"
    if "x \<in> set (certificates sd)" "o' \<in> set outs" "y \<in> set (certificates o')" for x o' y
    using new [OF that(1)] old [OF that(2,3)] skip_cert_key by metis
  then have fresh: "set (committed_keys outs) \<inter> set (map cert_key (certificates sd)) = {}"
    by (auto simp: committed_keys_def)
  have ts: "sub_dag_ts o' \<le> sub_dag_ts sd" if "o' \<in> set outs" for o'
  proof -
    have "outs \<noteq> []" using that by auto
    then have "last_committed_sub_dag s = Some (last outs)" using h by simp
    then have "sub_dag_ts (last outs) \<le> sub_dag_ts sd" using c by simp
    then show ?thesis using sorted_last_ge [of sub_dag_ts outs o'] h that by simp
  qed
  have skip: "skip_committed s1 y" if "skip_committed s y \<or> y \<in> set (certificates sd)" for y
    using that c by auto
  have keys: "committed_keys (outs @ [sd]) = committed_keys outs @ map cert_key (certificates sd)"
    by (simp add: committed_keys_def)
  have rounds: "leader_round o' < leader_round sd" if "o' \<in> set outs" for o'
    using h c assms(3) that by fastforce
  show ?thesis unfolding history_ok_def keys
  proof (intro conjI)
    show "distinct (committed_keys outs @ map cert_key (certificates sd))"
      using fresh h c by (simp only: distinct_append simp_thms)
    show "\<forall>sda\<in>set (outs @ [sd]). \<forall>x\<in>set (certificates sda). skip_committed s1 x"
      using skip old by auto
    show "sorted_wrt (<) (map leader_round (outs @ [sd]))"
      using rounds h by (simp add: sorted_wrt_append)
    show "\<forall>sda\<in>set (outs @ [sd]). leader_round sda \<le> committed_round (last_round s1)"
      using rounds c by (auto intro: less_imp_le)
    show "sorted (map sub_dag_ts (outs @ [sd]))" using ts h by (simp add: sorted_append)
    show "outs @ [sd] \<noteq> [] \<longrightarrow> last_committed_sub_dag s1 = Some (last (outs @ [sd]))" using c by simp
  qed
qed

lemma history_ok_commits:
  "commits H s sds s' \<Longrightarrow> history_ok s outs \<Longrightarrow> history_ok s' (outs @ sds)"
proof (induction arbitrary: outs rule: commits.induct)
  case (commits_Nil s)
  then show ?case by simp
next
  case (commits_Cons ldr s s1 sd sds s')
  from history_ok_commit [OF commits_Cons.prems commits_Cons.hyps(3,2)] commits_Cons.IH [of "outs @ [sd]"]
  show ?case by simp
qed

end
