(* ===== verification/Consensus_Bus.thy ===== *)
theory Consensus_Bus
  imports Consensus_State
begin

text \<open>
  The parts of \<open>crates/consensus/primary/src/consensus_bus.rs\<close> and
  \<open>recently_executed_blocks.rs\<close> that carry decisions: the window of recently executed blocks and
  the wait on it, the node mode and its transitions, the promotion barrier and the watches that
  consensus updates. A channel is the list of the values sent on it, a watch is its latest value.
\<close>

section \<open>Recently executed blocks\<close>

text \<open>A sealed header is its number, its hash and the nonce packed into it.\<close>

record sealed_header =
  sh_number :: nat
  sh_hash :: digest
  sh_nonce :: nat
  sh_beacon_root :: "digest option"

definition sealed_default :: sealed_header where
  "sealed_default = \<lparr>sh_number = 0, sh_hash = 0, sh_nonce = 0, sh_beacon_root = None\<rparr>"

record recent_blocks =
  num_blocks :: nat
  blocks :: "sealed_header list"

definition recent_new :: "nat \<Rightarrow> recent_blocks" where
  "recent_new n = \<lparr>num_blocks = n, blocks = []\<rparr>"

definition push_latest :: "sealed_header \<Rightarrow> recent_blocks \<Rightarrow> recent_blocks" where
  "push_latest h rb =
     (let bs = (if length (blocks rb) \<ge> num_blocks rb then drop 1 (blocks rb) else blocks rb)
      in rb\<lparr>blocks := bs @ [h]\<rparr>)"

definition latest_block :: "recent_blocks \<Rightarrow> sealed_header" where
  "latest_block rb = (if blocks rb = [] then sealed_default else last (blocks rb))"

definition latest_block_num_hash :: "recent_blocks \<Rightarrow> nat \<times> digest" where
  "latest_block_num_hash rb = (sh_number (latest_block rb), sh_hash (latest_block rb))"

definition oldest_block_number :: "recent_blocks \<Rightarrow> nat" where
  "oldest_block_number rb = (case blocks rb of [] \<Rightarrow> 0 | h # _ \<Rightarrow> sh_number h)"

definition contains_hash :: "recent_blocks \<Rightarrow> digest \<Rightarrow> bool" where
  "contains_hash rb d = list_ex (\<lambda>h. sh_hash h = d) (blocks rb)"

definition block_at_number :: "recent_blocks \<Rightarrow> nat \<Rightarrow> sealed_header option" where
  "block_at_number rb n = List.find (\<lambda>h. sh_number h = n) (blocks rb)"

definition subdag_leader :: "sealed_header \<Rightarrow> 32 word \<times> 32 word" where
  "subdag_leader h = unpack_nonce (of_nat (sh_nonce h))"

subsection \<open>Waiting for a block\<close>

datatype wait_error = Stalled | Closed | Forked

definition check_executed :: "recent_blocks \<Rightarrow> nat \<times> digest \<Rightarrow> wait_error + unit" where
  "check_executed rb block =
     (if fst block < oldest_block_number rb then Inr ()
      else if contains_hash rb (snd block) then Inr ()
      else Inl Forked)"

text \<open>
  The wait over the successive values of the watch; \<open>None\<close>: still waiting when they are exhausted.
\<close>

fun wait_for_execution :: "recent_blocks list \<Rightarrow> nat \<times> digest \<Rightarrow> (wait_error + unit) option" where
  "wait_for_execution [] block = None"
| "wait_for_execution (rb # ticks) block =
     (if blocks rb = [] \<or> fst (latest_block_num_hash rb) < fst block
      then wait_for_execution ticks block
      else Some (check_executed rb block))"

section \<open>Node mode and watches\<close>

datatype node_mode = CvvActive | CvvInactive | Observer

definition is_active_cvv :: "node_mode \<Rightarrow> bool" where
  "is_active_cvv m = (m = CvvActive)"

definition is_cvv :: "node_mode \<Rightarrow> bool" where
  "is_cvv m = (m = CvvActive \<or> m = CvvInactive)"

definition is_observer :: "node_mode \<Rightarrow> bool" where
  "is_observer m = (m = Observer)"

definition is_batch_producing :: "node_mode \<Rightarrow> bool" where
  "is_batch_producing m = (m = CvvActive)"

record promotion_barrier =
  pb_epoch :: epoch
  pb_round :: round
  pb_digest :: "digest option"

definition is_cleared :: "promotion_barrier \<Rightarrow> epoch \<Rightarrow> round \<Rightarrow> (digest \<Rightarrow> bool) \<Rightarrow> bool" where
  "is_cleared pb current_epoch committed contains =
     (if pb_epoch pb \<noteq> current_epoch then True
      else case pb_digest pb of
        Some d \<Rightarrow> contains d
      | None \<Rightarrow> committed \<ge> pb_round pb)"

record consensus_bus =
  committed_round_updates :: round
  gc_round_updates :: round
  primary_round_updates :: round
  cert_store_round :: round
  execution_replay_complete :: bool
  recently_executed :: recent_blocks
  current_mode :: node_mode
  mode_transition :: "node_mode option"
  barrier :: "promotion_barrier option"
  sequence_ch :: "committed_sub_dag list"
  committed_ch :: "(round \<times> certificate list) list"
  fetcher_ch :: "certificate list"
  shutdown_notified :: bool

definition update_consensus_rounds :: "consensus_round \<Rightarrow> consensus_bus \<Rightarrow> consensus_bus" where
  "update_consensus_rounds r bus =
     bus\<lparr>gc_round_updates := gc_round_of r, committed_round_updates := committed_round r\<rparr>"

definition request_mode_transition :: "node_mode \<Rightarrow> consensus_bus \<Rightarrow> consensus_bus \<times> bool" where
  "request_mode_transition target bus =
     (if current_mode bus = Observer \<or> current_mode bus = target then (bus, False)
      else if mode_transition bus = Some target then (bus, False)
      else (bus\<lparr>mode_transition := Some target\<rparr>, True))"

text \<open>The barrier only moves up within an epoch; a barrier of another epoch is replaced.\<close>

definition raise_barrier :: "epoch \<Rightarrow> round \<Rightarrow> digest option \<Rightarrow> consensus_bus \<Rightarrow> consensus_bus" where
  "raise_barrier e failing_round missing bus =
     (let supersedes = (case barrier bus of None \<Rightarrow> True
        | Some b \<Rightarrow> pb_epoch b \<noteq> e \<or> failing_round > pb_round b)
      in if supersedes
         then bus\<lparr>barrier := Some \<lparr>pb_epoch = e, pb_round = failing_round, pb_digest = missing\<rparr>\<rparr>
         else bus)"

definition reset_for_epoch :: "consensus_bus \<Rightarrow> consensus_bus" where
  "reset_for_epoch bus =
     (let capacity = num_blocks (recently_executed bus);
          latest = latest_block (recently_executed bus)
      in bus\<lparr>cert_store_round := 0, committed_round_updates := 0, gc_round_updates := 0,
             primary_round_updates := 0, execution_replay_complete := False,
             recently_executed := push_latest latest (recent_new capacity)\<rparr>)"

section \<open>Lemmas\<close>

definition recent_ok :: "recent_blocks \<Rightarrow> bool" where
  "recent_ok rb \<longleftrightarrow> length (blocks rb) \<le> max 1 (num_blocks rb)
     \<and> sorted_wrt (<) (map sh_number (blocks rb))"

lemma recent_ok_push [keeps]:
  assumes "recent_ok rb" "blocks rb \<noteq> [] \<longrightarrow> sh_number (latest_block rb) < sh_number h"
  shows "recent_ok (push_latest h rb)"
proof -
  have lt: "\<forall>x\<in>set (blocks rb). sh_number x < sh_number h"
  proof
    fix x assume x: "x \<in> set (blocks rb)"
    then have ne: "blocks rb \<noteq> []" by auto
    have "sorted (map sh_number (blocks rb))"
      using assms(1) by (auto simp: recent_ok_def strict_sorted_iff)
    then have "sh_number x \<le> sh_number (last (blocks rb))"
      using x by (rule sorted_last_ge)
    with assms(2) ne show "sh_number x < sh_number h" by (simp add: latest_block_def)
  qed
  have "sorted_wrt (<) (map sh_number (drop 1 (blocks rb)))"
    using assms(1) sorted_wrt_drop by (auto simp: recent_ok_def simp flip: drop_map)
  with assms(1) lt show ?thesis
    by (auto simp: recent_ok_def push_latest_def Let_def sorted_wrt_append dest: in_set_dropD)
qed

lemma wait_answer:
  "wait_for_execution ticks block = Some res \<Longrightarrow>
   \<exists>rb\<in>set ticks. blocks rb \<noteq> [] \<and> fst block \<le> sh_number (latest_block rb) \<and> res = check_executed rb block"
  by (induction ticks block rule: wait_for_execution.induct)
    (auto simp: latest_block_num_hash_def split: if_splits)

lemma latest_in_window: "blocks rb \<noteq> [] \<Longrightarrow> latest_block rb \<in> set (blocks rb)"
  by (simp add: latest_block_def)

end
