(* ===== verification/Consensus_Task.thy ===== *)
theory Consensus_Task
  imports Commit_Safety Consensus_Bus "HOL-Library.Sublist"
begin

text \<open>
  The consensus task of \<open>crates/consensus/primary/src/consensus/state.rs\<close> (\<open>Consensus\<close>): recovery
  in \<open>spawn\<close>, the handler \<open>new_certificate\<close> with what it sends on the bus, and the event loop
  \<open>run\<close> as a step relation over certificates and ticks of the pruning timer. The environment
  decides whether a base block has been executed (\<open>executed\<close>) and whether the receivers of the
  channels are alive (\<open>alive\<close>).
\<close>

section \<open>The task\<close>

record consensus_task =
  ct_committee :: committee
  ct_bull :: bullshark
  ct_state :: consensus_state
  ct_active :: bool
  highest_seen_round :: round

text \<open>Recovery; \<open>None\<close>: an assertion or the reconstruction of the DAG panics.\<close>

definition spawn ::
  "hash_fun \<Rightarrow> (auth_id, round) btree \<Rightarrow> committed_sub_dag option \<Rightarrow> (round \<Rightarrow> certificate list) \<Rightarrow>
   round \<Rightarrow> committee \<Rightarrow> bullshark \<Rightarrow> consensus_bus \<Rightarrow> (consensus_task \<times> consensus_bus) option" where
  "spawn H recovered latest after_round depth c protocol bus =
     (let primed_round = committed_round_updates bus;
          db_round = fold max (bt_values recovered) 0;
          last_committed_round = max primed_round db_round;
          latest_sub_dag = (case latest of None \<Rightarrow> None
            | Some sd \<Rightarrow> if leader_epoch sd \<ge> committee_epoch c then Some sd else None)
      in if (case latest_sub_dag of None \<Rightarrow> False | Some sd \<Rightarrow> last_committed_round < leader_round sd) then None
      else case new_from_store H last_committed_round depth recovered latest_sub_dag after_round
                  (committee_epoch c) of
        None \<Rightarrow> None
      | Some s \<Rightarrow>
          Some (\<lparr>ct_committee = c, ct_bull = protocol, ct_state = s,
                 ct_active = is_active_cvv (current_mode bus), highest_seen_round = 0\<rparr>,
                if committed_round (last_round s) > primed_round
                then update_consensus_rounds (last_round s) bus else bus))"

datatype send_result = AllSent "certificate list" | BogusSubDag | SendFailed

text \<open>Move to \<open>CvvInactive\<close> and notify the shutdown of the epoch.\<close>

definition demote :: "consensus_bus \<Rightarrow> consensus_bus" where
  "demote bus = (fst (request_mode_transition CvvInactive bus))\<lparr>shutdown_notified := True\<rparr>"

fun send_sub_dags ::
  "(nat \<times> digest \<Rightarrow> bool) \<Rightarrow> bool \<Rightarrow> committed_sub_dag list \<Rightarrow> certificate list \<Rightarrow> consensus_bus \<Rightarrow>
   consensus_bus \<times> send_result" where
  "send_sub_dags executed alive [] certs bus = (bus, AllSent certs)"
| "send_sub_dags executed alive (sd # sds) certs bus =
     (if \<not> executed (latest_execution_block (c_header (leader sd))) then (demote bus, BogusSubDag)
      else if \<not> alive then (bus, SendFailed)
      else send_sub_dags executed alive sds (certs @ certificates sd)
             (bus\<lparr>sequence_ch := sequence_ch bus @ [sd]\<rparr>))"

text \<open>The arm for a certificate whose parents are not in the DAG.\<close>

definition behind_network ::
  "committee \<Rightarrow> digest option \<Rightarrow> certificate \<Rightarrow> consensus_bus \<Rightarrow> consensus_bus" where
  "behind_network c missing failing bus =
     demote ((raise_barrier (committee_epoch c) (c_round failing) missing bus)
       \<lparr>fetcher_ch := fetcher_ch bus @ [failing]\<rparr>)"

text \<open>\<open>None\<close>: a panic, of the protocol or of the assertion on the committed round.\<close>

definition new_certificate ::
  "hash_fun \<Rightarrow> draw_fun \<Rightarrow> (nat \<times> digest \<Rightarrow> bool) \<Rightarrow> bool \<Rightarrow> consensus_task \<Rightarrow> consensus_bus \<Rightarrow>
   certificate \<Rightarrow> (consensus_task \<times> consensus_bus \<times> (consensus_error + unit)) option" where
  "new_certificate H draw executed alive t bus c =
     (if c_epoch c \<noteq> committee_epoch (ct_committee t) then Some (t, bus, Inr ())
      else case process_certificate H draw (ct_bull t) (ct_state t) c of
        None \<Rightarrow> None
      | Some (b, s, res) \<Rightarrow>
          (let t' = t\<lparr>ct_bull := b, ct_state := s\<rparr> in
           case res of
             Inl (MissingParent d x) \<Rightarrow> Some (t', behind_network (ct_committee t) (Some d) x bus, Inl ShuttingDown)
           | Inl (MissingParentRound x) \<Rightarrow> Some (t', behind_network (ct_committee t) None x bus, Inl ShuttingDown)
           | Inl e \<Rightarrow> Some (t', bus, Inl e)
           | Inr (_, sds) \<Rightarrow>
               if \<not> ct_active t then Some (t', bus, Inr ())
               else (case send_sub_dags executed alive sds [] bus of
                       (bus', BogusSubDag) \<Rightarrow> Some (t', bus', Inr ())
                     | (bus', SendFailed) \<Rightarrow> Some (t', bus', Inl ShuttingDown)
                     | (bus', AllSent certs) \<Rightarrow>
                         if certs = [] then Some (t', bus', Inr ())
                         else let leader_commit_round = fold max (map c_round certs) 0 in
                           if \<not> alive then Some (t', bus', Inl ShuttingDown)
                           else if committed_round (last_round s) \<noteq> leader_commit_round then None
                           else Some (t', update_consensus_rounds (last_round s)
                                  (bus'\<lparr>committed_ch := committed_ch bus' @ [(leader_commit_round, certs)]\<rparr>),
                                  Inr ()))))"

section \<open>The event loop\<close>

text \<open>
  Certificates come from the certificate manager after validation, so they satisfy \<open>cert_ok\<close>. A
  handler that returns an error ends the loop.
\<close>

inductive task_step ::
  "hash_fun \<Rightarrow> header_wire set \<Rightarrow> draw_fun \<Rightarrow> consensus_task \<times> consensus_bus \<Rightarrow>
   consensus_task \<times> consensus_bus \<Rightarrow> bool"
  for H U draw where
  step_certificate:
    "cert_ok H U (ct_committee t) c \<Longrightarrow>
     new_certificate H draw executed alive
       (t\<lparr>highest_seen_round := max (highest_seen_round t) (c_round c)\<rparr>) bus c = Some (t', bus', Inr ()) \<Longrightarrow>
     task_step H U draw (t, bus) (t', bus')"
| step_gc:
    "highest_seen_round t > 0 \<Longrightarrow>
     task_step H U draw (t, bus)
       (t\<lparr>ct_state := fst (proactive_gc (ct_state t) (highest_seen_round t))\<rparr>, bus)"

inductive_cases task_stepE: "task_step H U draw x y"

section \<open>The invariant of the task\<close>

definition task_ok :: "hash_fun \<Rightarrow> header_wire set \<Rightarrow> consensus_task \<Rightarrow> consensus_bus \<Rightarrow> bool" where
  "task_ok H U t bus \<longleftrightarrow>
     bull_ok (ct_bull t) \<and> b_committee (ct_bull t) = ct_committee t
     \<and> state_ok H U (ct_committee t) (ct_state t)
     \<and> (\<exists>outs. history_ok (ct_state t) outs \<and> subseq (sequence_ch bus) outs)"

lemma demote_fields [simp]:
  "sequence_ch (demote bus) = sequence_ch bus" "committed_ch (demote bus) = committed_ch bus"
  by (simp_all add: demote_def request_mode_transition_def)

lemma behind_network_sequence [simp]: "sequence_ch (behind_network c m x bus) = sequence_ch bus"
  by (simp add: behind_network_def raise_barrier_def Let_def)

lemma send_sub_dags_prefix:
  "send_sub_dags executed alive sds certs bus = (bus', res) \<Longrightarrow>
   \<exists>n. sequence_ch bus' = sequence_ch bus @ take n sds
     \<and> (\<forall>cs. res = AllSent cs \<longrightarrow> cs = certs @ concat (map certificates sds) \<and> take n sds = sds)"
proof (induction sds arbitrary: certs bus)
  case Nil
  then show ?case by auto
next
  case (Cons sd sds)
  show ?case
  proof (cases "executed (latest_execution_block (c_header (leader sd))) \<and> alive")
    case True
    then have "send_sub_dags executed alive sds (certs @ certificates sd)
        (bus\<lparr>sequence_ch := sequence_ch bus @ [sd]\<rparr>) = (bus', res)" using Cons.prems by simp
    from Cons.IH [OF this] obtain n where
      "sequence_ch bus' = sequence_ch bus @ take (Suc n) (sd # sds)"
      "\<forall>cs. res = AllSent cs \<longrightarrow> cs = certs @ concat (map certificates (sd # sds)) \<and> take (Suc n) (sd # sds) = sd # sds"
      by auto
    then show ?thesis by blast
  next
    case False
    then show ?thesis using Cons.prems by (intro exI [of _ 0]) (auto split: if_splits)
  qed
qed

lemma commits_rounds:
  "commits H s sds s' \<Longrightarrow> sd \<in> set sds \<Longrightarrow>
   leader sd \<in> set (certificates sd) \<and> (\<forall>x\<in>set (certificates sd). c_round x \<le> leader_round sd)
     \<and> leader_round sd \<le> committed_round (last_round s')"
proof (induction rule: commits.induct)
  case (commits_Nil s)
  then show ?case by simp
next
  case (commits_Cons ldr s s1 sd' sds s')
  then show ?case
    using commits_mono [OF commits_Cons.hyps(4)] by (auto simp: committed_by_def sub_dag_of_leader)
qed

text \<open>The assertion of the handler: the highest committed round is the committed round of the state.\<close>

lemma leader_commit_round:
  assumes "commits H s sds s'" "concat (map certificates sds) \<noteq> []"
  shows "fold max (map c_round (concat (map certificates sds))) 0 = committed_round (last_round s')"
proof -
  have "sds \<noteq> []" using assms(2) by auto
  then have l: "leader_round (last sds) = committed_round (last_round s')" "last sds \<in> set sds"
    using commits_mono [OF assms(1)] by auto
  note r = commits_rounds [OF assms(1)]
  have "leader (last sds) \<in> set (concat (map certificates sds))" using r [OF l(2)] l(2) by auto
  moreover have "c_round x \<le> committed_round (last_round s')" if "x \<in> set (concat (map certificates sds))" for x
    using that r by (fastforce intro: le_trans)
  ultimately show ?thesis
    unfolding fold_max_nat using l(1) by (intro Max_eqI) (auto intro: rev_image_eqI)
qed

lemma task_ok_extend:
  assumes "task_ok H U t bus" "bull_ok b" "b_committee b = ct_committee t"
    and "state_ok H U (ct_committee t) s" "s1 = ct_state t \<or> s1 = (ct_state t)\<lparr>the_dag := d\<rparr>"
    and "commits H s1 sds s" "sequence_ch bus' = sequence_ch bus @ take n sds"
  shows "task_ok H U (t\<lparr>ct_bull := b, ct_state := s\<rparr>) bus'"
proof -
  from assms(1) obtain outs where outs: "history_ok (ct_state t) outs" "subseq (sequence_ch bus) outs"
    by (auto simp: task_ok_def)
  have "history_ok s1 outs" using outs(1) assms(5) by auto
  then have "history_ok s (outs @ sds)" by (rule history_ok_commits [OF assms(6)])
  moreover have "subseq (sequence_ch bus @ take n sds) (outs @ sds)"
    by (intro list_emb_append_mono outs(2) prefix_imp_subseq take_is_prefix)
  ultimately show ?thesis using assms by (auto simp: task_ok_def)
qed

lemma new_certificate_ok [panic_free]:
  assumes cf: "collision_free H U" and draw: "draw_ok draw" and t: "task_ok H U t bus"
    and c: "cert_ok H U (ct_committee t) c"
  shows "\<exists>t' bus' res. new_certificate H draw executed alive t bus c = Some (t', bus', res)
    \<and> task_ok H U t' bus' \<and> ct_committee t' = ct_committee t"
proof (cases "c_epoch c = committee_epoch (ct_committee t)")
  case False
  then show ?thesis using t by (simp add: new_certificate_def)
next
  case True
  from t have b: "bull_ok (ct_bull t)" and bc: "b_committee (ct_bull t) = ct_committee t"
    and s: "state_ok H U (ct_committee t) (ct_state t)" by (auto simp: task_ok_def)
  from process_certificate_ok [OF cf draw b, of "ct_state t" c] s c bc obtain b' s1 s' res where
    pc: "process_certificate H draw (ct_bull t) (ct_state t) c = Some (b', s', res)" "bull_ok b'"
      "b_committee b' = ct_committee t" "state_ok H U (ct_committee t) s'"
      "s1 = ct_state t \<or> s1 = (ct_state t)\<lparr>the_dag := dag_put H c (the_dag (ct_state t))\<rparr>"
      "commits H s1 (case res of Inl _ \<Rightarrow> [] | Inr (_, sds) \<Rightarrow> sds) s'" by auto
  let ?t = "t\<lparr>ct_bull := b', ct_state := s'\<rparr>"
  note ext = task_ok_extend [OF t pc(2-6)]
  show ?thesis
  proof (cases res)
    case (Inl e)
    have "task_ok H U ?t bus'" if "sequence_ch bus' = sequence_ch bus" for bus'
      using ext [of bus' 0] that Inl by simp
    then show ?thesis
      using Inl True pc(1) by (auto simp: new_certificate_def Let_def split: consensus_error.split)
  next
    case (Inr p)
    then obtain out sds where p: "res = Inr (out, sds)" by (cases p) auto
    have com: "commits H s1 sds s'" using pc(6) p by simp
    obtain bus1 r where send: "send_sub_dags executed alive sds [] bus = (bus1, r)" by (metis surj_pair)
    from send_sub_dags_prefix [OF send] obtain n where n: "sequence_ch bus1 = sequence_ch bus @ take n sds"
      "\<And>cs. r = AllSent cs \<Longrightarrow> cs = concat (map certificates sds)" by auto
    have ok: "task_ok H U ?t bus'" if "sequence_ch bus' = sequence_ch bus \<or> sequence_ch bus' = sequence_ch bus1" for bus'
      using ext [of bus' 0] ext [of bus' n] that n(1) p by auto
    have eq: "fold max (map c_round cs) 0 = committed_round (last_round s')" if "r = AllSent cs" "cs \<noteq> []" for cs
      using leader_commit_round [OF com] n(2) that by simp
    show ?thesis
      using True pc(1) p send eq ok
      by (auto simp: new_certificate_def Let_def update_consensus_rounds_def split: send_result.split)
  qed
qed

lemma task_step_ok [keeps]:
  assumes cf: "collision_free H U" and draw: "draw_ok draw"
    and "task_step H U draw (t, bus) (t', bus')" "task_ok H U t bus"
  shows "task_ok H U t' bus'"
  using assms(3)
proof (cases rule: task_step.cases)
  case (step_certificate c executed alive)
  let ?t = "t\<lparr>highest_seen_round := max (highest_seen_round t) (c_round c)\<rparr>"
  have "task_ok H U ?t bus" using assms(4) by (simp add: task_ok_def)
  from new_certificate_ok [OF cf draw this, of c executed alive] step_certificate show ?thesis by auto
next
  case step_gc
  have "last_committed (fst (proactive_gc s h)) = last_committed s \<and> last_round (fst (proactive_gc s h)) = last_round s
      \<and> last_committed_sub_dag (fst (proactive_gc s h)) = last_committed_sub_dag s" for s h
    by (simp add: proactive_gc_def Let_def)
  then have "history_ok (fst (proactive_gc s h)) outs = history_ok s outs" for s h outs
    by (simp add: history_ok_def skip_committed_iff)
  with step_gc assms(4) show ?thesis by (simp add: task_ok_def state_ok_proactive_gc)
qed

lemma task_reachable_ok:
  assumes "collision_free H U" "draw_ok draw" "(task_step H U draw)\<^sup>*\<^sup>* x y" "task_ok H U (fst x) (snd x)"
  shows "task_ok H U (fst y) (snd y)"
  using assms(3,4)
proof (induction rule: rtranclp_induct)
  case base
  then show ?case .
next
  case (step y z)
  then show ?case using task_step_ok [OF assms(1,2)] by (cases y, cases z) auto
qed

section \<open>What the subscriber sees\<close>

lemma subseq_keys: "subseq xs ys \<Longrightarrow> subseq (committed_keys xs) (committed_keys ys)"
  by (induction rule: list_emb.induct) (auto simp: committed_keys_def intro: list_emb_append_mono)

lemma subseq_distinct: "subseq xs ys \<Longrightarrow> distinct ys \<Longrightarrow> distinct xs"
  by (induction rule: list_emb.induct) (auto dest: list_emb_set)

lemma subseq_sorted_wrt: "subseq xs ys \<Longrightarrow> sorted_wrt R (map f ys) \<Longrightarrow> sorted_wrt R (map f xs)"
  by (induction rule: list_emb.induct) (auto dest: list_emb_set)

lemma task_ok_sequence:
  assumes "task_ok H U t bus"
  shows "distinct (committed_keys (sequence_ch bus))" "sorted_wrt (<) (map leader_round (sequence_ch bus))"
    "sorted (map sub_dag_ts (sequence_ch bus))"
proof -
  from assms obtain outs where outs: "history_ok (ct_state t) outs" "subseq (sequence_ch bus) outs"
    by (auto simp: task_ok_def)
  show "distinct (committed_keys (sequence_ch bus))"
    by (rule subseq_distinct [OF subseq_keys [OF outs(2)]]) (use outs(1) in \<open>simp add: history_ok_def\<close>)
  show "sorted_wrt (<) (map leader_round (sequence_ch bus))" "sorted (map sub_dag_ts (sequence_ch bus))"
    by (rule subseq_sorted_wrt [OF outs(2)], use outs(1) in \<open>simp add: history_ok_def\<close>)+
qed

end
