(* ===== verification/Dag_Agreement.thy ===== *)
theory Dag_Agreement
  imports Commit_Safety
begin

text \<open>
  Why two validators commit the same leaders. \<open>linked\<close> decides the existence of a path of parent
  links; a leader that reaches the validity threshold of support in one validator's DAG is linked
  from every certificate two or more rounds later in the DAG of any other validator, so the other
  validator orders it before whatever it commits later.
\<close>

section \<open>Parent links\<close>

definition link :: "hash_fun \<Rightarrow> dag \<Rightarrow> certificate \<Rightarrow> certificate \<Rightarrow> bool" where
  "link H d x y \<longleftrightarrow> y \<in> dag_certs d \<and> c_round x = Suc (c_round y) \<and> cert_digest H y \<in> set (c_parents x)"

lemma link_path_round: "(link H d)\<^sup>*\<^sup>* x y \<Longrightarrow> c_round y \<le> c_round x"
  by (induction rule: rtranclp_induct) (auto simp: link_def)

lemma link_path_round_less: "(link H d)\<^sup>*\<^sup>* x y \<Longrightarrow> x \<noteq> y \<Longrightarrow> c_round y < c_round x"
  by (erule converse_rtranclpE) (auto simp: link_def dest!: link_path_round)

lemma row_certs:
  assumes ok: "dag_ok H U c d" and row: "bt_get d r = Some row"
  shows "(dg, y) \<in> set (bt_values row) \<longleftrightarrow> y \<in> dag_certs d \<and> c_round y = r \<and> dg = cert_digest H y"
proof
  assume "(dg, y) \<in> set (bt_values row)"
  then obtain i where i: "(i, dg, y) \<in> set row" by (auto simp: bt_values_def)
  then show "y \<in> dag_certs d \<and> c_round y = r \<and> dg = cert_digest H y"
    using row_entry [of H U c r row i dg y] dag_ok_row [OF ok row] row
    by (auto simp: dag_certs_def dest!: bt_get_set)
next
  assume y: "y \<in> dag_certs d \<and> c_round y = r \<and> dg = cert_digest H y"
  then have "bt_get row (origin y) = Some (cert_digest H y, y)"
    using in_dag_certs_iff [OF ok, of y] row y by (auto simp: dag_row_def)
  then show "(dg, y) \<in> set (bt_values row)"
    using y by (force simp: bt_values_def dest!: bt_get_set)
qed

lemma linked_walk_paths:
  assumes ok: "dag_ok H U c d"
  shows "m \<le> n \<Longrightarrow> \<forall>x\<in>set ps. c_round x = n \<Longrightarrow>
    set (linked_walk d (rev [m..<n]) ps) = {y. c_round y = m \<and> (\<exists>x\<in>set ps. (link H d)\<^sup>*\<^sup>* x y)}"
proof (induction n arbitrary: ps)
  case 0
  then show ?case by (auto dest: link_path_round_less)
next
  case (Suc n)
  show ?case
  proof (cases "m = Suc n")
    case True
    have "x = y" if "x \<in> set ps" "(link H d)\<^sup>*\<^sup>* x y" "c_round y = m" for x y
      using link_path_round_less [OF that(2)] that Suc.prems(2) True by fastforce
    then show ?thesis using True Suc.prems(2) by auto
  next
    case False
    then have mn: "m \<le> n" using Suc.prems(1) by simp
    define qs where "qs = (case bt_get d n of
        Some row \<Rightarrow> map snd (filter (\<lambda>(dg, _). list_ex (\<lambda>x. dg \<in> set (c_parents x)) ps) (bt_values row))
      | None \<Rightarrow> [])"
    have qs: "set qs = {y. \<exists>x\<in>set ps. link H d x y}"
    proof (cases "bt_get d n")
      case None
      then have "\<nexists>y. y \<in> dag_certs d \<and> c_round y = n" using row_exists [OF ok] by fastforce
      then show ?thesis using Suc.prems(2) None by (auto simp: qs_def link_def)
    next
      case (Some row)
      show ?thesis
        using Suc.prems(2) row_certs [OF ok Some]
        by (auto simp: qs_def Some link_def list_ex_iff image_iff)
    qed
    have "\<forall>y\<in>set qs. c_round y = n" using Suc.prems(2) by (auto simp: qs link_def)
    then have "set (linked_walk d (rev [m..<n]) qs) = {y. c_round y = m \<and> (\<exists>x\<in>set qs. (link H d)\<^sup>*\<^sup>* x y)}"
      by (rule Suc.IH [OF mn])
    moreover have "(\<exists>x\<in>set qs. (link H d)\<^sup>*\<^sup>* x y) \<longleftrightarrow> (\<exists>x\<in>set ps. (link H d)\<^sup>*\<^sup>* x y)" if "c_round y = m" for y
    proof
      assume "\<exists>x\<in>set qs. (link H d)\<^sup>*\<^sup>* x y"
      then show "\<exists>x\<in>set ps. (link H d)\<^sup>*\<^sup>* x y"
        unfolding qs using converse_rtranclp_into_rtranclp [of "link H d"] by blast
    next
      assume "\<exists>x\<in>set ps. (link H d)\<^sup>*\<^sup>* x y"
      then obtain x where x: "x \<in> set ps" "(link H d)\<^sup>*\<^sup>* x y" by blast
      then have "x \<noteq> y" using that Suc.prems(2) mn by auto
      with x(2) obtain z where "link H d x z" "(link H d)\<^sup>*\<^sup>* z y" by (metis converse_rtranclpE)
      with x(1) show "\<exists>x\<in>set qs. (link H d)\<^sup>*\<^sup>* x y" unfolding qs by blast
    qed
    moreover have "linked_walk d (rev [m..<Suc n]) ps = linked_walk d (rev [m..<n]) qs"
      using mn by (simp add: qs_def)
    ultimately show ?thesis by (simp cong: conj_cong)
  qed
qed

lemma linked_iff_path:
  assumes cf: "collision_free H U" and ok: "dag_ok H U c d"
    and x: "x \<in> dag_certs d" and y: "y \<in> dag_certs d" "c_round y \<le> c_round x"
  shows "linked H x y d \<longleftrightarrow> (link H d)\<^sup>*\<^sup>* x y"
proof -
  have paths: "set (linked_walk d (rev [c_round y..<c_round x]) [x]) =
      {z. c_round z = c_round y \<and> (link H d)\<^sup>*\<^sup>* x z}"
    using linked_walk_paths [OF ok y(2), of "[x]"] by simp
  have "z = y" if "(link H d)\<^sup>*\<^sup>* x z" "cert_eq H z y" for z
  proof -
    have "z \<in> dag_certs d" using that(1) x by (cases rule: rtranclp.cases) (auto simp: link_def)
    then show ?thesis using that(2) dag_certs_digest [OF cf ok _ y(1)] by (simp add: cert_eq_def cert_digest_def)
  qed
  then show ?thesis
    unfolding linked_def list_ex_iff paths by (auto simp: cert_eq_def)
qed

section \<open>Support and quorums of parents\<close>

definition supporters :: "hash_fun \<Rightarrow> dag \<Rightarrow> certificate \<Rightarrow> certificate set" where
  "supporters H d l = {y \<in> dag_certs d. c_round y = c_round l + 1 \<and> cert_digest H l \<in> set (c_parents y)}"

lemma leader_support_eq:
  assumes ok: "dag_ok H U c d" and row: "bt_get d (c_round l + 1) = Some row"
  shows "leader_support H c l row = (\<Sum>i\<in>origin ` supporters H d l. voting_power_by_id c i)"
proof -
  let ?f = "filter (\<lambda>(_, x). cert_digest H l \<in> set (c_parents x)) (bt_values row)"
  have r: "row_ok H U c (c_round l + 1) row" using dag_ok_row [OF ok row] by simp
  then have "map (\<lambda>(_, x). origin x) (bt_values row) = map fst row"
    by (auto simp: row_ok_def bt_values_def)
  moreover have "distinct (map fst row)" using r by (simp add: row_ok_def bt_inv_distinct)
  ultimately have "distinct (map (\<lambda>(_, x). origin x) ?f)" by (metis distinct_map_filter)
  moreover have "set (map (\<lambda>(_, x). origin x) ?f) = origin ` supporters H d l"
    using row_certs [OF ok row] by (force simp: supporters_def)
  moreover have "leader_support H c l row = sum_list (map (voting_power_by_id c) (map (\<lambda>(_, x). origin x) ?f))"
    by (simp add: leader_support_def comp_def case_prod_unfold)
  ultimately show ?thesis by (metis sum_list_distinct_conv_sum_set)
qed

text \<open>What voting guarantees of a certificate's parents: they are present and hold a quorum.\<close>

definition parents_quorum :: "hash_fun \<Rightarrow> committee \<Rightarrow> dag \<Rightarrow> certificate \<Rightarrow> bool" where
  "parents_quorum H c d x \<longleftrightarrow>
     quorum_threshold c \<le> (\<Sum>i\<in>origin ` {y. link H d x y}. voting_power_by_id c i)"

definition parents_present :: "hash_fun \<Rightarrow> dag \<Rightarrow> certificate \<Rightarrow> bool" where
  "parents_present H d x \<longleftrightarrow>
     (\<forall>p\<in>set (c_parents x). \<exists>y\<in>dag_certs d. cert_digest H y = p \<and> c_round x = Suc (c_round y))"

text \<open>No author has two different headers for a round in the two DAGs.\<close>

definition no_equivocation :: "dag \<Rightarrow> dag \<Rightarrow> bool" where
  "no_equivocation d1 d2 \<longleftrightarrow>
     (\<forall>x\<in>dag_certs d1. \<forall>y\<in>dag_certs d2. cert_key x = cert_key y \<longrightarrow> wire (c_header x) = wire (c_header y))"

lemma origins_members: "dag_ok H U c d \<Longrightarrow> A \<subseteq> dag_certs d \<Longrightarrow> origin ` A \<subseteq> members c"
  using dag_certs_ok(1) by (fastforce simp: cert_ok_def members_iff)

lemma quorum_pos: "committee_ok c \<Longrightarrow> 0 < quorum_threshold c"
  by (simp add: thresholds_eq)

lemma supported_leader_linked:
  assumes c: "committee_ok c" and cf: "collision_free H U"
    and d1: "dag_ok H U c d1" and d2: "dag_ok H U c d2" and ne: "no_equivocation d1 d2"
    and row: "bt_get d1 (c_round l + 1) = Some row"
    and supp: "validity_threshold c \<le> leader_support H c l row"
    and quorums: "\<forall>y\<in>dag_certs d2. c_round l + 1 < c_round y \<longrightarrow> parents_quorum H c d2 y"
    and present: "\<forall>y\<in>dag_certs d2. c_round y = c_round l + 1 \<longrightarrow> parents_present H d2 y"
    and x: "x \<in> dag_certs d2" "c_round l + 2 \<le> c_round x"
  shows "\<exists>l'\<in>dag_certs d2. cert_digest H l' = cert_digest H l \<and> c_round l' = c_round l \<and> (link H d2)\<^sup>*\<^sup>* x l'"
  using x
proof (induction "c_round x" arbitrary: x rule: less_induct)
  case less
  let ?Q = "{y. link H d2 x y}"
  have Q: "quorum_threshold c \<le> (\<Sum>i\<in>origin ` ?Q. voting_power_by_id c i)"
    using quorums less.prems by (auto simp: parents_quorum_def)
  have Qm: "origin ` ?Q \<subseteq> members c" by (rule origins_members [OF d2]) (auto simp: link_def)
  show ?case
  proof (cases "c_round x = c_round l + 2")
    case True
    have "origin ` supporters H d1 l \<subseteq> members c" by (rule origins_members [OF d1]) (auto simp: supporters_def)
    then have "origin ` supporters H d1 l \<inter> origin ` ?Q \<noteq> {}"
      using cq.validity_meets_quorum [OF c _ Qm _ Q] supp leader_support_eq [OF d1 row] by simp
    then obtain y1 y2 where y: "y1 \<in> supporters H d1 l" "link H d2 x y2" "origin y1 = origin y2" by auto
    have y2: "y2 \<in> dag_certs d2" "c_round y2 = c_round l + 1" using y(2) True by (auto simp: link_def)
    have "wire (c_header y1) = wire (c_header y2)"
      using ne y y2 by (auto simp: no_equivocation_def supporters_def cert_key_def)
    from wire_fields(4) [OF this] have kid: "cert_digest H l \<in> set (c_parents y2)"
      using y(1) by (simp add: supporters_def)
    then obtain l' where l': "l' \<in> dag_certs d2" "cert_digest H l' = cert_digest H l" "c_round y2 = Suc (c_round l')"
      using present y2 by (auto simp: parents_present_def)
    then have "link H d2 y2 l'" using kid by (simp add: link_def)
    with y(2) have "(link H d2)\<^sup>*\<^sup>* x l'" by (meson r_into_rtranclp rtranclp.rtrancl_into_rtrancl)
    with l' y2(2) show ?thesis by auto
  next
    case False
    have "?Q \<noteq> {}"
    proof
      assume "?Q = {}"
      then have "quorum_threshold c = 0" using Q by simp
      with quorum_pos [OF c] show False by simp
    qed
    then obtain z where z: "link H d2 x z" by blast
    then have "z \<in> dag_certs d2" "c_round z < c_round x" "c_round l + 2 \<le> c_round z"
      using less.prems(2) False by (auto simp: link_def)
    then obtain l' where "l' \<in> dag_certs d2" "cert_digest H l' = cert_digest H l" "c_round l' = c_round l"
      "(link H d2)\<^sup>*\<^sup>* z l'"
      using less.hyps [of z] by auto
    then show ?thesis using z by (meson converse_rtranclp_into_rtranclp)
  qed
qed

section \<open>The other validator orders the leader\<close>

lemma order_leaders_loop_mem:
  "order_leaders_loop H draw sched d ldr rs acc = Some out \<Longrightarrow> set acc \<subseteq> set out"
  by (induction H draw sched d ldr rs acc rule: order_leaders_loop.induct)
    (auto split: option.splits prod.splits if_splits)

lemma order_leaders_loop_finds:
  assumes l: "leader_certificate draw sched (c_round l) d = Some (a, Some l)"
    and linked: "\<And>x. x \<in> dag_certs d \<Longrightarrow> c_round l + 2 \<le> c_round x \<Longrightarrow> linked H x l d"
    and certs: "\<And>r a x. leader_certificate draw sched r d = Some (a, Some x) \<Longrightarrow> x \<in> dag_certs d \<and> c_round x = r"
  shows "order_leaders_loop H draw sched d ldr rs acc = Some out \<Longrightarrow> c_round l \<in> set rs \<Longrightarrow>
    sorted_wrt (>) rs \<Longrightarrow> \<forall>r\<in>set rs. even r \<Longrightarrow> even (c_round ldr) \<Longrightarrow> \<forall>r\<in>set rs. r < c_round ldr \<Longrightarrow>
    ldr \<in> dag_certs d \<Longrightarrow> l \<in> set out"
proof (induction rs arbitrary: ldr acc)
  case Nil
  then show ?case by simp
next
  case (Cons r rs)
  show ?case
  proof (cases "r = c_round l")
    case True
    have "c_round l + 2 \<le> c_round ldr" using Cons.prems(4-6) True by (auto elim!: evenE)
    then have "linked H ldr l d" using linked Cons.prems(7) by blast
    then have "order_leaders_loop H draw sched d l rs (l # acc) = Some out"
      using Cons.prems(1) l True by simp
    from order_leaders_loop_mem [OF this] show ?thesis by simp
  next
    case False
    then have l_rs: "c_round l \<in> set rs" using Cons.prems(2) by simp
    from Cons.prems(1) consider "order_leaders_loop H draw sched d ldr rs acc = Some out"
      | a p where "leader_certificate draw sched r d = Some (a, Some p)"
        "order_leaders_loop H draw sched d p rs (p # acc) = Some out"
      by (auto split: option.splits prod.splits if_splits)
    then show ?thesis
    proof cases
      case 1
      then show ?thesis using Cons.IH [OF 1 l_rs] Cons.prems by simp
    next
      case 2
      then have "p \<in> dag_certs d" "c_round p = r" using certs by blast+
      then show ?thesis using Cons.IH [OF 2(2) l_rs] Cons.prems by simp
    qed
  qed
qed

lemma order_leaders_finds:
  assumes l: "leader_certificate draw (b_schedule b) (c_round l) (the_dag s) = Some (a, Some l)"
    and linked: "\<And>x. x \<in> dag_certs (the_dag s) \<Longrightarrow> c_round l + 2 \<le> c_round x \<Longrightarrow> linked H x l (the_dag s)"
    and b: "bull_ok b" and draw: "draw_ok draw" and ok: "state_ok H U (b_committee b) s"
    and ldr: "ldr \<in> dag_certs (the_dag s)" "c_round l + 2 \<le> c_round ldr"
    and gt: "committed_round (last_round s) + 2 \<le> c_round l" "even (c_round l)"
    and out: "order_leaders H draw b ldr s = Some out"
  shows "l \<in> set out"
proof -
  let ?d = "the_dag s" and ?rs = "back_by_two (committed_round (last_round s) + 2) (c_round ldr - 2)"
  have d: "dag_ok H U (b_committee b) ?d" using ok by (simp add: state_ok_def)
  from out have even: "even (c_round ldr)" "2 \<le> c_round ldr"
    and loop: "order_leaders_loop H draw (b_schedule b) ?d ldr ?rs [ldr] = Some out"
    by (auto simp: order_leaders_def even_iff_mod_2_eq_zero split: if_splits option.splits)
  have "x \<in> dag_certs ?d \<and> c_round x = r"
    if "leader_certificate draw (b_schedule b) r ?d = Some (a, Some x)" for r a x
  proof -
    have "even r" using that by (auto simp: leader_certificate_def leader_of_def split: if_splits option.splits)
    from leader_certificate_ok [OF b draw this d] that show ?thesis by auto
  qed
  moreover have "c_round l \<in> set ?rs" using gt ldr(2) even by (auto simp: set_back_by_two)
  moreover have "\<forall>r\<in>set ?rs. even r" "\<forall>r\<in>set ?rs. r < c_round ldr"
    using even by (auto simp: set_back_by_two)
  ultimately show ?thesis
    using order_leaders_loop_finds [OF l linked _ loop] sorted_back_by_two even(1) ldr(1) by blast
qed

end
