(* ===== verification/Example_Network.thy ===== *)
theory Example_Network
  imports Consensus_Task Dag_Agreement
begin

text \<open>
  A run of the ordering engine on the example network: three of the four authorities propose in
  rounds one to three and the leader of round two is committed.
\<close>

definition ex_draw :: draw_fun where
  "ex_draw r n = r mod n"

definition ex_schedule :: leader_schedule where
  "ex_schedule = schedule_new ex_committee swap_table_default"

definition ex_bull :: bullshark where
  "ex_bull = bullshark_new ex_committee 10 ex_schedule 20"

definition ex_row :: "round \<Rightarrow> auth_id list \<Rightarrow> (auth_id, digest \<times> certificate) btree" where
  "ex_row r as = map (\<lambda>a. (a, (100 * r + a, ex_cert r a))) as"

definition ex_state :: consensus_state where
  "ex_state = (state_new 50)\<lparr>the_dag := [(1, ex_row 1 [1, 2, 3]), (2, ex_row 2 [1, 2, 3]), (3, ex_row 3 [1])]\<rparr>"

lemma ex_draw_ok: "draw_ok ex_draw"
  by (simp add: draw_ok_def ex_draw_def)

lemma ex_bull_ok: "bull_ok ex_bull"
  by (simp add: bull_ok_def ex_bull_def bullshark_new_def ex_schedule_def schedule_new_def schedule_ok_def
      ex_committee_ok swap_table_default_ok)

lemma ex_cert_ok: "a \<in> {1, 2, 3, 4} \<Longrightarrow> cert_ok ex_hash ex_wires ex_committee (ex_cert r a)"
  using ex_sealed [of a r] ex_members by (auto simp: cert_ok_def sealed_def members_iff)

lemma dag_certs_list: "dag_certs d = set (concat (map (\<lambda>(_, m). map (\<lambda>(_, _, x). x) m) d))"
  by (force simp: dag_certs_def)

lemma ex_dag_certs:
  "dag_certs (the_dag ex_state) =
   {ex_cert 1 1, ex_cert 1 2, ex_cert 1 3, ex_cert 2 1, ex_cert 2 2, ex_cert 2 3, ex_cert 3 1}"
  unfolding dag_certs_list by (simp add: ex_state_def state_new_def ex_row_def insert_commute)

lemma ex_row_ok: "as \<in> {[1, 2, 3], [1], [1, 2]} \<Longrightarrow> row_ok ex_hash ex_wires ex_committee r (ex_row r as)"
  by (auto simp: row_ok_def ex_row_def bt_inv_def ex_cert_ok)

lemma ex_state_ok: "state_ok ex_hash ex_wires ex_committee ex_state"
proof -
  have "dag_ok ex_hash ex_wires ex_committee (the_dag ex_state)"
    using ex_row_ok by (simp add: dag_ok_def ex_state_def state_new_def bt_inv_def)
  moreover have "0 < c_round x" if "x \<in> dag_certs (the_dag ex_state)" for x
    using that unfolding ex_dag_certs by (elim insertE emptyE) simp_all
  ultimately show ?thesis
    using state_new_ok [of ex_hash ex_wires ex_committee 50] by (simp add: state_ok_def ex_state_def state_new_def gc_round_def)
qed

text \<open>The state after the supporting certificate is inserted.\<close>

definition ex_state2 :: consensus_state where
  "ex_state2 = (state_new 50)\<lparr>the_dag := [(1, ex_row 1 [1, 2, 3]), (2, ex_row 2 [1, 2, 3]), (3, ex_row 3 [1, 2])]\<rparr>"

definition ex_bull3 :: bullshark where
  "ex_bull3 = ex_bull\<lparr>max_inserted_certificate_round := 3\<rparr>"

lemmas ex_unfold = ex_bull_def bullshark_new_def ex_schedule_def schedule_new_def ex_state_def ex_state2_def ex_bull3_def
  state_new_def ex_row_def Let_def bt_get_def bt_values_def

lemma ex_insert: "try_insert ex_hash ex_state (ex_cert 3 2) = (ex_state2, Inr True)"
  by (simp add: ex_unfold try_insert_def try_insert_in_dag_def check_parents_def dag_put_def dag_row_def row_digests_def
      committed_upto_def)

lemma ex_leader: "leader_certificate ex_draw ex_schedule 2 (the_dag ex_state2) = Some (ex_authority 1, Some (ex_cert 2 1))"
  by (simp add: ex_unfold leader_certificate_def leader_of_def swap_def swap_table_default_def committee_size_def
      authorities_def ex_committee_def ex_authority_def)

lemma ex_report: "report_leader_on_time_metrics ex_draw ex_bull 3 = Some ex_bull3"
  by (simp add: ex_unfold report_leader_on_time_metrics_def)

lemma ex_order_leaders: "order_leaders ex_hash ex_draw ex_bull3 (ex_cert 2 1) ex_state2 = Some [ex_cert 2 1]"
  by (simp add: ex_unfold order_leaders_def back_by_two_def authority_def ex_committee_def)

lemma ex_order_dag: "order_dag ex_hash (ex_cert 2 1) ex_state2 = Some [ex_cert 1 1, ex_cert 1 2, ex_cert 1 3, ex_cert 2 1]"
  by (simp add: ex_unfold order_dag_def find_parent_def skip_committed_def seq_le_def)

lemma ex_support: "leader_support ex_hash ex_committee (ex_cert 2 1) (ex_row 3 [1, 2]) = 2"
  by (simp add: ex_unfold leader_support_def ex_powers)

lemma ex_nonce: "cert_nonce (ex_cert 2 1) = 2"
  by (simp add: cert_nonce_def header_nonce_def nonce_of_def pack_nonce_def)

lemma ex_total: "total_authorities (reputation_new ex_committee\<lparr>final_of_schedule := f\<rparr>) = committee_size ex_committee"
  by (simp add: total_authorities_def reputation_new_def committee_size_def authorities_def bt_collect_def
      bt_values_def ex_committee_def ex_authority_def)

lemma ex_commit_one:
  "\<exists>s' sd. commit_one ex_hash ex_bull3 ex_state2 (ex_cert 2 1) = Some (ex_bull3, s', sd, False)
    \<and> certificates sd = [ex_cert 1 1, ex_cert 1 2, ex_cert 1 3, ex_cert 2 1] \<and> leader sd = ex_cert 2 1"
proof -
  have "\<not> 10 dvd Suc (Suc 0)" by presburger
  then show ?thesis unfolding commit_one_def ex_order_dag ex_nonce
    by (simp add: ex_total ex_unfold resolve_reputation_score_def update_leader_schedule_def
      update_def sub_dag_new_def)
qed

lemma ex_commit:
  "\<exists>b' s' sd. process_certificate ex_hash ex_draw ex_bull ex_state (ex_cert 3 2) = Some (b', s', Inr (Commit, [sd]))
    \<and> certificates sd = [ex_cert 1 1, ex_cert 1 2, ex_cert 1 3, ex_cert 2 1] \<and> leader sd = ex_cert 2 1"
proof -
  obtain s' sd where one: "commit_one ex_hash ex_bull3 ex_state2 (ex_cert 2 1) = Some (ex_bull3, s', sd, False)"
    and sd: "certificates sd = [ex_cert 1 1, ex_cert 1 2, ex_cert 1 3, ex_cert 2 1]" "leader sd = ex_cert 2 1"
    using ex_commit_one by blast
  have f: "b_schedule ex_bull3 = ex_schedule" "b_committee ex_bull3 = ex_committee"
    "bt_get (the_dag ex_state2) 3 = Some (ex_row 3 [1, 2])" "committed_round (last_round ex_state2) = 0"
    by (simp_all add: ex_unfold)
  have "commit_leader ex_hash ex_draw ex_bull3 ex_state2 2 = Some (ex_bull3, s', Commit, [sd])"
    by (simp add: commit_leader_def f ex_leader ex_support ex_order_leaders ex_thresholds one del: One_nat_def)
  then have "commit_loop ex_hash ex_draw ex_bull3 ex_state2 2 [] = Some (ex_bull3, s', Commit, [sd])"
    by (subst commit_loop.simps) simp
  then have "process_certificate ex_hash ex_draw ex_bull ex_state (ex_cert 3 2) = Some (ex_bull3, s', Inr (Commit, [sd]))"
    by (simp add: process_certificate_def ex_insert ex_report f del: One_nat_def)
  with sd show ?thesis by blast
qed

text \<open>A second validator, which is one round further.\<close>

definition ex_state4 :: consensus_state where
  "ex_state4 = (state_new 50)\<lparr>the_dag :=
     [(1, ex_row 1 [1, 2, 3]), (2, ex_row 2 [1, 2, 3]), (3, ex_row 3 [1, 2, 3]), (4, ex_row 4 [1])]\<rparr>"

lemma ex_dag_certs4:
  "dag_certs (the_dag ex_state4) = {ex_cert 1 1, ex_cert 1 2, ex_cert 1 3, ex_cert 2 1, ex_cert 2 2, ex_cert 2 3,
     ex_cert 3 1, ex_cert 3 2, ex_cert 3 3, ex_cert 4 1}"
  unfolding dag_certs_list by (simp add: ex_state4_def state_new_def ex_row_def insert_commute)

lemma ex_dag_certs2:
  "dag_certs (the_dag ex_state2) = {ex_cert 1 1, ex_cert 1 2, ex_cert 1 3, ex_cert 2 1, ex_cert 2 2, ex_cert 2 3,
     ex_cert 3 1, ex_cert 3 2}"
  unfolding dag_certs_list by (simp add: ex_state2_def state_new_def ex_row_def insert_commute)

lemma ex_state4_ok: "state_ok ex_hash ex_wires ex_committee ex_state4"
proof -
  have "dag_ok ex_hash ex_wires ex_committee (the_dag ex_state4)"
    using ex_row_ok by (simp add: dag_ok_def ex_state4_def state_new_def bt_inv_def)
  moreover have "0 < c_round x" if "x \<in> dag_certs (the_dag ex_state4)" for x
    using that unfolding ex_dag_certs4 by (elim insertE emptyE) simp_all
  ultimately show ?thesis
    using state_new_ok [of ex_hash ex_wires ex_committee 50] by (simp add: state_ok_def ex_state4_def state_new_def gc_round_def)
qed

lemma ex_dag2_ok: "dag_ok ex_hash ex_wires ex_committee (the_dag ex_state2)"
  using ex_row_ok by (simp add: dag_ok_def ex_state2_def state_new_def bt_inv_def)

lemma ex_no_equivocation: "no_equivocation (the_dag ex_state2) (the_dag ex_state4)"
proof -
  have k: "cert_key (ex_cert r a) = (a, r)" for r a by (simp add: cert_key_def)
  show ?thesis
    unfolding no_equivocation_def ex_dag_certs2 ex_dag_certs4 by (simp add: k)
qed

lemma ex_links:
  "r \<in> {3, 4} \<Longrightarrow>
   {y. link ex_hash (the_dag ex_state4) (ex_cert r a) y} = {ex_cert (r - 1) 1, ex_cert (r - 1) 2, ex_cert (r - 1) 3}"
  unfolding link_def ex_dag_certs4 by (elim insertE emptyE) (auto simp: Let_def)

lemma ex_parents_quorum: "parents_quorum ex_hash ex_committee (the_dag ex_state4) (ex_cert 4 1)"
  unfolding parents_quorum_def by (subst ex_links) (simp_all add: ex_powers ex_thresholds)

lemma ex_parents_present: "parents_present ex_hash (the_dag ex_state4) (ex_cert 3 a)"
  unfolding parents_present_def ex_dag_certs4 by simp

lemma ex_linked4: "linked ex_hash (ex_cert 4 1) (ex_cert 2 1) (the_dag ex_state4)"
  by (simp add: ex_unfold ex_state4_def linked_def cert_eq_def upt_rec)

lemma ex_order_leaders4:
  "order_leaders ex_hash ex_draw ex_bull (ex_cert 4 1) ex_state4 = Some [ex_cert 2 1, ex_cert 4 1]"
proof -
  have "leader_certificate ex_draw ex_schedule 2 (the_dag ex_state4) = Some (ex_authority 1, Some (ex_cert 2 1))"
    by (simp add: ex_unfold ex_state4_def leader_certificate_def leader_of_def swap_def swap_table_default_def
        committee_size_def authorities_def ex_committee_def ex_authority_def)
  moreover note ex_linked4
  moreover have "back_by_two (Suc (Suc 0)) 2 = [2]" by (simp add: back_by_two_def upt_conv_Cons)
  moreover have "b_schedule ex_bull = ex_schedule" "b_committee ex_bull = ex_committee"
    "committed_round (last_round ex_state4) = 0"
    by (simp_all add: ex_bull_def bullshark_new_def ex_state4_def state_new_def)
  moreover have "authority ex_committee 1 = Some (ex_authority 1)" by (simp add: authority_def ex_committee_def bt_get_def)
  ultimately show ?thesis by (simp add: order_leaders_def del: One_nat_def)
qed

end
