(* ===== verification/Pending_Certs.thy ===== *)
theory Pending_Certs
  imports Certificates "HOL-Library.Product_Lexorder"
begin

text \<open>
  Certificates that wait for their parents, from
  \<open>crates/consensus/primary/src/state_sync/pending_cert_manager.rs\<close>. A \<open>HashSet\<close> of digests is a
  set, and \<open>iter\<close> is the order in which the code happens to walk it. The watch of the proposer's
  backpressure gate is the field \<open>suspended_cert_count\<close>.
\<close>

section \<open>State and operations\<close>

type_synonym pending_certificate = "certificate \<times> digest set"

record pending_manager =
  pm_pending :: "(digest, pending_certificate) btree"
  missing_for_pending :: "(round \<times> digest, digest set) btree"
  suspended_cert_count :: nat

datatype cert_manager_error =
    PendingParentsMismatch digest
  | PendingCertificateNotFound digest
  | UnverifiedSignature digest
  | Pending digest
  | CmCertificate certificate_error
  | FatalAppendParent
  | CmSend
  | FatalForwardAcceptedCertificate

definition pending_new :: pending_manager where
  "pending_new = \<lparr>pm_pending = [], missing_for_pending = [], suspended_cert_count = 0\<rparr>"

definition publish_count :: "pending_manager \<Rightarrow> pending_manager" where
  "publish_count pm = pm\<lparr>suspended_cert_count := length (pm_pending pm)\<rparr>"

definition missing_at :: "pending_manager \<Rightarrow> round \<times> digest \<Rightarrow> digest set" where
  "missing_at pm k = (case bt_get (missing_for_pending pm) k of None \<Rightarrow> {} | Some S \<Rightarrow> S)"

type_synonym iter_fun = "digest set \<Rightarrow> digest list"

definition add_missing :: "digest \<Rightarrow> round \<Rightarrow> digest \<Rightarrow> pending_manager \<Rightarrow> pending_manager" where
  "add_missing d parent_round p pm =
     pm\<lparr>missing_for_pending :=
          bt_insert (parent_round, p) (insert d (missing_at pm (parent_round, p))) (missing_for_pending pm)\<rparr>"

definition insert_pending ::
  "hash_fun \<Rightarrow> iter_fun \<Rightarrow> certificate \<Rightarrow> digest set \<Rightarrow> pending_manager \<Rightarrow>
   pending_manager \<times> (cert_manager_error + unit)" where
  "insert_pending H iter cert missing_parents pm =
     (let d = cert_digest H cert;
          parent_round = c_round cert - 1;
          existing = bt_get (pm_pending pm) d;
          pm1 = pm\<lparr>pm_pending := bt_insert d (cert, missing_parents) (pm_pending pm)\<rparr>
      in if (case existing of Some (_, miss) \<Rightarrow> miss \<noteq> missing_parents | None \<Rightarrow> False)
         then (pm1, Inl (PendingParentsMismatch d))
         else (publish_count (fold (add_missing d parent_round) (iter missing_parents) pm1), Inr ()))"

text \<open>The loop over the certificates that waited for \<open>next_digest\<close>.\<close>

fun free_children ::
  "digest \<Rightarrow> digest list \<Rightarrow> pending_manager \<Rightarrow> (round \<times> digest) list \<Rightarrow> certificate list \<Rightarrow>
   pending_manager \<times> (cert_manager_error + (round \<times> digest) list \<times> certificate list)" where
  "free_children next_digest [] pm queue ready = (pm, Inr (queue, ready))"
| "free_children next_digest (pd # pds) pm queue ready =
     (case bt_get (pm_pending pm) pd of
        None \<Rightarrow> (pm, Inl (PendingCertificateNotFound pd))
      | Some (cert, miss) \<Rightarrow>
          if miss - {next_digest} = {} then
            free_children next_digest pds (pm\<lparr>pm_pending := bt_remove pd (pm_pending pm)\<rparr>)
              (queue @ [(c_round cert, pd)]) (ready @ [cert])
          else
            free_children next_digest pds
              (pm\<lparr>pm_pending := bt_insert pd (cert, miss - {next_digest}) (pm_pending pm)\<rparr>) queue ready)"

text \<open>Each entry added to the queue takes a certificate out of the pending map.\<close>

definition pending_digests :: "pending_manager \<Rightarrow> digest set" where
  "pending_digests pm = fst ` set (pm_pending pm)"

lemma finite_pending_digests [simp]: "finite (pending_digests pm)"
  by (simp add: pending_digests_def)

lemma free_children_measure:
  "free_children d pds pm queue ready = (pm', Inr (queue', ready')) \<Longrightarrow>
   2 * card (pending_digests pm') + length queue' \<le> 2 * card (pending_digests pm) + length queue"
proof (induction d pds pm queue ready rule: free_children.induct)
  case (2 d pd pds pm queue ready)
  from "2.prems" obtain cert miss where get: "bt_get (pm_pending pm) pd = Some (cert, miss)"
    by (auto split: option.splits)
  then have mem: "pd \<in> pending_digests pm" using bt_get_set by (force simp: pending_digests_def)
  show ?case
  proof (cases "miss - {d} = {}")
    case True
    let ?pm = "pm\<lparr>pm_pending := bt_remove pd (pm_pending pm)\<rparr>"
    have "pending_digests ?pm = pending_digests pm - {pd}"
      by (auto simp: pending_digests_def bt_remove_def)
    then have "card (pending_digests pm) = Suc (card (pending_digests ?pm))"
      using card.remove [OF finite_pending_digests mem] by simp
    then show ?thesis using "2.IH"(1) [OF get refl True] "2.prems" get True by simp
  next
    case False
    let ?pm = "pm\<lparr>pm_pending := bt_insert pd (cert, miss - {d}) (pm_pending pm)\<rparr>"
    have "pending_digests ?pm = pending_digests pm"
      using mem bt_keys_insert [of pd "(cert, miss - {d})" "pm_pending pm"] by (auto simp: pending_digests_def)
    then show ?thesis using "2.IH"(2) [OF get refl False] "2.prems" get False by simp
  qed
qed simp

text \<open>The cascade through the certificates that become ready.\<close>

function cascade ::
  "iter_fun \<Rightarrow> (round \<times> digest) list \<Rightarrow> pending_manager \<Rightarrow> certificate list \<Rightarrow>
   pending_manager \<times> (cert_manager_error + certificate list)" where
  "cascade iter [] pm ready = (pm, Inr ready)"
| "cascade iter (k # queue) pm ready =
     (case bt_get (missing_for_pending pm) k of
        None \<Rightarrow> cascade iter queue pm ready
      | Some pds \<Rightarrow>
          (case free_children (snd k) (iter pds)
                  (pm\<lparr>missing_for_pending := bt_remove k (missing_for_pending pm)\<rparr>) queue ready of
             (pm', Inl e) \<Rightarrow> (pm', Inl e)
           | (pm', Inr (queue', ready')) \<Rightarrow> cascade iter queue' pm' ready'))"
  by pat_completeness auto
termination
  by (relation "measure (\<lambda>(iter, queue, pm, ready). 2 * card (pending_digests pm) + length queue)")
    (auto dest!: free_children_measure [OF sym] simp: pending_digests_def)

definition update_pending ::
  "iter_fun \<Rightarrow> round \<Rightarrow> digest \<Rightarrow> pending_manager \<Rightarrow>
   pending_manager \<times> (cert_manager_error + certificate list)" where
  "update_pending iter r d pm =
     (case cascade iter [(r, d)] pm [] of
        (pm', Inl e) \<Rightarrow> (pm', Inl e)
      | (pm', Inr ready) \<Rightarrow> (publish_count pm', Inr ready))"

definition next_for_gc_round :: "round \<Rightarrow> pending_manager \<Rightarrow> pending_manager \<times> (round \<times> digest) option" where
  "next_for_gc_round gc pm =
     (case bt_first (missing_for_pending pm) of
        None \<Rightarrow> (pm, None)
      | Some ((r, d), _) \<Rightarrow>
          if r > gc then (pm, None)
          else (case bt_get (pm_pending pm) d of
                  Some (cert, _) \<Rightarrow>
                    (pm\<lparr>pm_pending := bt_insert d (cert, {}) (pm_pending pm)\<rparr>, Some (r, d))
                | None \<Rightarrow> (pm, Some (r, d))))"

definition is_pending :: "pending_manager \<Rightarrow> digest \<Rightarrow> bool" where
  "is_pending pm d = (bt_get (pm_pending pm) d \<noteq> None)"

definition num_pending :: "pending_manager \<Rightarrow> nat" where
  "num_pending pm = length (pm_pending pm)"

definition filter_unknown_digests :: "pending_manager \<Rightarrow> digest list \<Rightarrow> digest list" where
  "filter_unknown_digests pm unknown = filter (\<lambda>d. bt_get (pm_pending pm) d = None) unknown"

section \<open>The invariant\<close>

definition iter_ok :: "iter_fun \<Rightarrow> bool" where
  "iter_ok iter \<longleftrightarrow> (\<forall>S. finite S \<longrightarrow> set (iter S) = S \<and> distinct (iter S))"

text \<open>
  A digest is registered under a missing parent exactly when the certificate waits for that parent,
  and a pending certificate waits for something.
\<close>

definition entries_nonempty :: "pending_manager \<Rightarrow> bool" where
  "entries_nonempty pm \<longleftrightarrow> (\<forall>k S. bt_get (missing_for_pending pm) k = Some S \<longrightarrow> S \<noteq> {})"

definition pending_ok :: "hash_fun \<Rightarrow> pending_manager \<Rightarrow> bool" where
  "pending_ok H pm \<longleftrightarrow>
     bt_inv (pm_pending pm) \<and> bt_inv (missing_for_pending pm) \<and> entries_nonempty pm
     \<and> (\<forall>d c miss. bt_get (pm_pending pm) d = Some (c, miss) \<longrightarrow>
          cert_digest H c = d \<and> finite miss \<and> miss \<noteq> {})
     \<and> (\<forall>r p. finite (missing_at pm (r, p)))
     \<and> (\<forall>d r p. d \<in> missing_at pm (r, p) \<longleftrightarrow>
          (\<exists>c miss. bt_get (pm_pending pm) d = Some (c, miss) \<and> p \<in> miss \<and> r = c_round c - 1))"

lemma pending_new_ok [keeps]: "pending_ok H pending_new"
  by (simp add: pending_ok_def pending_new_def missing_at_def entries_nonempty_def)

lemma publish_count_simps [simp]:
  "pm_pending (publish_count pm) = pm_pending pm"
  "missing_for_pending (publish_count pm) = missing_for_pending pm"
  by (simp_all add: publish_count_def)

lemma missing_at_publish [simp]: "missing_at (publish_count pm) k = missing_at pm k"
  by (simp add: missing_at_def)

lemma pending_ok_publish [simp]: "pending_ok H (publish_count pm) = pending_ok H pm"
  by (simp add: pending_ok_def entries_nonempty_def)

lemma add_missing_inv: "bt_inv (missing_for_pending pm) \<Longrightarrow> bt_inv (missing_for_pending (add_missing d r p pm))"
  by (simp add: add_missing_def)

lemma missing_at_add:
  "bt_inv (missing_for_pending pm) \<Longrightarrow>
   missing_at (add_missing d r p pm) k = (if k = (r, p) then insert d (missing_at pm k) else missing_at pm k)"
  by (simp add: add_missing_def missing_at_def bt_get_insert)

lemma fold_add_missing_pending [simp]: "pm_pending (fold (add_missing d r) ps pm) = pm_pending pm"
  by (induction ps arbitrary: pm) (simp_all add: add_missing_def)

lemma fold_add_missing_inv:
  "bt_inv (missing_for_pending pm) \<Longrightarrow> bt_inv (missing_for_pending (fold (add_missing d r) ps pm))"
  by (induction ps arbitrary: pm) (simp_all add: add_missing_inv)

lemma add_missing_nonempty:
  "bt_inv (missing_for_pending pm) \<Longrightarrow> entries_nonempty pm \<Longrightarrow> entries_nonempty (add_missing d r p pm)"
  by (simp add: entries_nonempty_def add_missing_def bt_get_insert)

lemma fold_add_missing_nonempty:
  "bt_inv (missing_for_pending pm) \<Longrightarrow> entries_nonempty pm \<Longrightarrow> entries_nonempty (fold (add_missing d r) ps pm)"
  by (induction ps arbitrary: pm) (simp_all add: add_missing_nonempty add_missing_inv)

lemma fold_add_missing_at:
  "bt_inv (missing_for_pending pm) \<Longrightarrow>
   missing_at (fold (add_missing d r) ps pm) k =
     (if fst k = r \<and> snd k \<in> set ps then insert d (missing_at pm k) else missing_at pm k)"
proof (induction ps arbitrary: pm)
  case (Cons p ps)
  show ?case
    by (auto simp: Cons.IH [OF add_missing_inv [OF Cons.prems]] missing_at_add [OF Cons.prems] prod_eq_iff)
qed simp

lemma pending_okD:
  assumes "pending_ok H pm"
  shows "bt_inv (pm_pending pm)" "bt_inv (missing_for_pending pm)" "entries_nonempty pm"
    "finite (missing_at pm (r, p))"
    "bt_get (pm_pending pm) d = Some (c, m) \<Longrightarrow> cert_digest H c = d \<and> finite m \<and> m \<noteq> {}"
    "d \<in> missing_at pm (r, p) \<longleftrightarrow>
      (\<exists>c m. bt_get (pm_pending pm) d = Some (c, m) \<and> p \<in> m \<and> r = c_round c - 1)"
  using assms by (simp_all add: pending_ok_def)

lemma insert_pending_ok [keeps]:
  assumes iter: "iter_ok iter" and ok: "pending_ok H pm" and new: "\<not> is_pending pm (cert_digest H cert)"
    and miss: "finite missing" "missing \<noteq> {}"
  shows "\<exists>pm'. insert_pending H iter cert missing pm = (pm', Inr ()) \<and> pending_ok H pm'
    \<and> bt_get (pm_pending pm') = (bt_get (pm_pending pm))(cert_digest H cert \<mapsto> (cert, missing))"
proof -
  let ?d = "cert_digest H cert" and ?r = "c_round cert - 1"
  let ?pm1 = "pm\<lparr>pm_pending := bt_insert ?d (cert, missing) (pm_pending pm)\<rparr>"
  let ?pm2 = "fold (add_missing ?d ?r) (iter missing) ?pm1"
  note o = pending_okD [OF ok]
  have none: "bt_get (pm_pending pm) ?d = None" using new by (cases "bt_get (pm_pending pm) ?d") (simp_all add: is_pending_def)
  have it: "set (iter missing) = missing" using iter miss(1) by (simp add: iter_ok_def)
  have inv1: "bt_inv (missing_for_pending ?pm1)" using o(2) by simp
  have at1: "missing_at ?pm1 k = missing_at pm k" for k by (simp add: missing_at_def)
  have get: "bt_get (pm_pending ?pm2) = (bt_get (pm_pending pm))(?d \<mapsto> (cert, missing))"
    using o(1) by (simp add: bt_get_insert fun_eq_iff)
  have at: "missing_at ?pm2 k = (if fst k = ?r \<and> snd k \<in> missing then insert ?d (missing_at pm k) else missing_at pm k)" for k
    using fold_add_missing_at [OF inv1] at1 by (simp add: it)
  have notin: "?d \<notin> missing_at pm (r, p)" for r p unfolding o(6) using none by simp
  have ne: "entries_nonempty ?pm1" using o(3) by (simp add: entries_nonempty_def)
  have iff: "d \<in> missing_at ?pm2 (r, p) \<longleftrightarrow>
        (\<exists>c m. bt_get (pm_pending ?pm2) d = Some (c, m) \<and> p \<in> m \<and> r = c_round c - 1)" for d r p
  proof (cases "d = ?d")
    case True
    then show ?thesis using notin [of r p] by (simp only: at get) auto
  next
    case False
    then have "d \<in> missing_at ?pm2 (r, p) \<longleftrightarrow> d \<in> missing_at pm (r, p)" by (simp only: at) simp
    moreover have "bt_get (pm_pending ?pm2) d = bt_get (pm_pending pm) d" using False by (simp only: get) simp
    ultimately show ?thesis by (simp only: o(6))
  qed
  have fin: "finite (missing_at ?pm2 (r, p))" for r p unfolding at using o(4) by simp
  have pend: "cert_digest H c = d \<and> finite m \<and> m \<noteq> {}" if "bt_get (pm_pending ?pm2) d = Some (c, m)" for d c m
  proof (cases "d = ?d")
    case True
    with that [unfolded get] have "c = cert" "m = missing" by simp_all
    with True miss show ?thesis by simp
  next
    case False
    with that [unfolded get] have "bt_get (pm_pending pm) d = Some (c, m)" by simp
    then show ?thesis by (rule o(5))
  qed
  have inv: "bt_inv (pm_pending ?pm2)" using o(1) by simp
  have "pending_ok H ?pm2" unfolding pending_ok_def
    by (intro conjI allI impI inv fold_add_missing_inv [OF inv1] fold_add_missing_nonempty [OF inv1 ne]
        fin iff pend)
  with get none show ?thesis by (simp add: insert_pending_def Let_def)
qed

section \<open>The cascade\<close>

text \<open>What a certificate still waits for once the keys \<open>K\<close> have been accepted.\<close>

definition still_missing :: "(round \<times> digest) set \<Rightarrow> certificate \<Rightarrow> digest set \<Rightarrow> digest set" where
  "still_missing K c miss = {p \<in> miss. (c_round c - 1, p) \<notin> K}"

definition cert_key_of :: "hash_fun \<Rightarrow> certificate \<Rightarrow> round \<times> digest" where
  "cert_key_of H c = (c_round c, cert_digest H c)"

definition wait_of :: "pending_manager \<Rightarrow> digest \<Rightarrow> certificate \<times> digest set" where
  "wait_of pm x = the (bt_get (pm_pending pm) x)"

abbreviation freed :: "digest \<Rightarrow> pending_manager \<Rightarrow> digest list \<Rightarrow> digest list" where
  "freed d pm pds \<equiv> filter (\<lambda>x. snd (wait_of pm x) - {d} = {}) pds"

lemma freed_cong:
  "(\<And>x. x \<in> set pds \<Longrightarrow> bt_get (pm_pending pm') x = bt_get (pm_pending pm) x) \<Longrightarrow>
   freed d pm' pds = freed d pm pds
   \<and> map (\<lambda>x. fst (wait_of pm' x)) (freed d pm pds) = map (\<lambda>x. fst (wait_of pm x)) (freed d pm pds)
   \<and> map (\<lambda>x. (c_round (fst (wait_of pm' x)), x)) (freed d pm pds) =
      map (\<lambda>x. (c_round (fst (wait_of pm x)), x)) (freed d pm pds)"
  by (auto simp: wait_of_def intro!: filter_cong)

lemma free_children_run:
  assumes "\<forall>x \<in> set pds. bt_get (pm_pending pm) x \<noteq> None" "distinct pds" "bt_inv (pm_pending pm)"
  shows "\<exists>q. free_children d pds pm queue ready =
      (pm\<lparr>pm_pending := q\<rparr>, Inr (queue @ map (\<lambda>x. (c_round (fst (wait_of pm x)), x)) (freed d pm pds),
                              ready @ map (\<lambda>x. fst (wait_of pm x)) (freed d pm pds)))
    \<and> bt_inv q
    \<and> (\<forall>x. bt_get q x = (if x \<notin> set pds then bt_get (pm_pending pm) x
          else if snd (wait_of pm x) - {d} = {} then None
          else Some (fst (wait_of pm x), snd (wait_of pm x) - {d})))"
  using assms
proof (induction pds arbitrary: pm queue ready)
  case Nil
  then show ?case by (auto intro!: exI [of _ "pm_pending pm"])
next
  case (Cons y pds)
  then obtain c m where y: "bt_get (pm_pending pm) y = Some (c, m)" by auto
  define q1 where "q1 = (if m - {d} = {} then bt_remove y (pm_pending pm) else bt_insert y (c, m - {d}) (pm_pending pm))"
  let ?pm = "pm\<lparr>pm_pending := q1\<rparr>"
  have inv: "bt_inv q1" using Cons.prems by (simp add: q1_def)
  have other: "bt_get q1 x = bt_get (pm_pending pm) x" if "x \<noteq> y" for x
    using that Cons.prems by (simp add: q1_def bt_get_insert bt_get_remove)
  have at_y: "bt_get q1 y = (if m - {d} = {} then None else Some (c, m - {d}))"
    using Cons.prems by (simp add: q1_def bt_get_insert bt_get_remove)
  have ne: "x \<noteq> y" if "x \<in> set pds" for x using that Cons.prems by auto
  have pre: "\<forall>x \<in> set pds. bt_get (pm_pending ?pm) x \<noteq> None"
    using Cons.prems other ne by simp
  have w: "wait_of pm y = (c, m)" using y by (simp add: wait_of_def)
  have same: "wait_of ?pm x = wait_of pm x" if "x \<noteq> y" for x using other that by (simp add: wait_of_def)
  note fc = freed_cong [of pds ?pm pm d]
  note step = Cons.IH [OF pre, of "if m - {d} = {} then queue @ [(c_round c, y)] else queue"
        "if m - {d} = {} then ready @ [c] else ready"]
  obtain q where q: "free_children d pds ?pm (if m - {d} = {} then queue @ [(c_round c, y)] else queue)
        (if m - {d} = {} then ready @ [c] else ready) =
      (?pm\<lparr>pm_pending := q\<rparr>,
        Inr ((if m - {d} = {} then queue @ [(c_round c, y)] else queue)
               @ map (\<lambda>x. (c_round (fst (wait_of ?pm x)), x)) (freed d ?pm pds),
             (if m - {d} = {} then ready @ [c] else ready) @ map (\<lambda>x. fst (wait_of ?pm x)) (freed d ?pm pds)))"
    "bt_inv q"
    "\<And>x. bt_get q x = (if x \<notin> set pds then bt_get (pm_pending ?pm) x
          else if snd (wait_of ?pm x) - {d} = {} then None
          else Some (fst (wait_of ?pm x), snd (wait_of ?pm x) - {d}))"
    using step Cons.prems inv by auto
  have "free_children d (y # pds) pm queue ready =
      (pm\<lparr>pm_pending := q\<rparr>, Inr (queue @ map (\<lambda>x. (c_round (fst (wait_of pm x)), x)) (freed d pm (y # pds)),
                              ready @ map (\<lambda>x. fst (wait_of pm x)) (freed d pm (y # pds))))"
    using q(1) fc other ne by (simp add: y w q1_def split: if_splits)
  moreover have "bt_get q x = (if x \<notin> set (y # pds) then bt_get (pm_pending pm) x
          else if snd (wait_of pm x) - {d} = {} then None
          else Some (fst (wait_of pm x), snd (wait_of pm x) - {d}))" for x
    using q(3) [of x] other [of x] same [of x] at_y w ne [of x] by (cases "x = y") auto
  ultimately show ?case using q(2) by blast
qed

text \<open>One turn of the cascade: what waited for the key \<open>k\<close> and for nothing else is freed.\<close>

lemma waiting_iff:
  assumes "pending_ok H pm" "bt_get (pm_pending pm) x = Some (c, m)"
  shows "x \<in> missing_at pm k \<longleftrightarrow> still_missing {k} c m \<noteq> m"
    "x \<in> missing_at pm k \<Longrightarrow> m - {snd k} = still_missing {k} c m"
  using assms by (cases k; auto simp: pending_okD(6) still_missing_def)+

lemma missing_at_Some: "bt_get (missing_for_pending pm) k = Some S \<Longrightarrow> missing_at pm k = S"
  by (simp add: missing_at_def)

lemma pending_ok_step:
  assumes ok: "pending_ok H pm" and inv: "bt_inv q"
    and none: "\<And>x. bt_get (pm_pending pm) x = None \<Longrightarrow> bt_get q x = None"
    and some: "\<And>x c m. bt_get (pm_pending pm) x = Some (c, m) \<Longrightarrow>
      bt_get q x = (if still_missing {k} c m = {} then None else Some (c, still_missing {k} c m))"
  shows "pending_ok H (pm\<lparr>missing_for_pending := bt_remove k (missing_for_pending pm), pm_pending := q\<rparr>)"
    (is "pending_ok H ?pm")
proof -
  note o = pending_okD [OF ok]
  have at: "missing_at ?pm k' = (if k' = k then {} else missing_at pm k')" for k'
    by (simp add: missing_at_def bt_get_remove)
  have get: "bt_get q x = Some (c, m') \<longleftrightarrow>
      (\<exists>m. bt_get (pm_pending pm) x = Some (c, m) \<and> m' = still_missing {k} c m \<and> m' \<noteq> {})" for x c m'
    by (cases "bt_get (pm_pending pm) x") (auto simp: none some split: if_splits)
  have iff: "d \<in> missing_at ?pm (r, p) \<longleftrightarrow>
      (\<exists>c m. bt_get q d = Some (c, m) \<and> p \<in> m \<and> r = c_round c - 1)" for d r p
    unfolding at get using o(6) [of d r p] by (auto simp: still_missing_def)
  have pend: "cert_digest H c = d \<and> finite m' \<and> m' \<noteq> {}" if q: "bt_get q d = Some (c, m')" for d c m'
  proof -
    from q obtain m where "bt_get (pm_pending pm) d = Some (c, m)" "m' = still_missing {k} c m" "m' \<noteq> {}"
      unfolding get by auto
    with o(5) [of d c m] show ?thesis by (simp add: still_missing_def)
  qed
  have ne: "entries_nonempty ?pm" using o(3) by (simp add: entries_nonempty_def bt_get_remove)
  have fin: "finite (missing_at ?pm (r, p))" for r p unfolding at using o(4) by simp
  have inv2: "bt_inv (missing_for_pending ?pm)" using o(2) by (simp add: bt_inv_remove)
  show ?thesis unfolding pending_ok_def
    using inv iff pend by (intro conjI allI impI inv2 ne fin) (simp_all del: One_nat_def)
qed

lemma waiting_at:
  assumes iter: "iter_ok iter" and ok: "pending_ok H pm" and k: "bt_get (missing_for_pending pm) k = Some pds"
  shows "set (iter pds) = pds" "distinct (iter pds)"
    "x \<in> pds \<Longrightarrow> \<exists>m. bt_get (pm_pending pm) x = Some (fst (wait_of pm x), m)"
    "x \<in> pds \<Longrightarrow> bt_get (pm_pending pm) x = Some (c, m) \<Longrightarrow> m - {snd k} = still_missing {k} c m"
    "x \<notin> pds \<Longrightarrow> bt_get (pm_pending pm) x = Some (c, m) \<Longrightarrow> still_missing {k} c m = m"
proof -
  note o = pending_okD [OF ok]
  have at: "missing_at pm k = pds" by (rule missing_at_Some [OF k])
  then have fin: "finite pds" using o(4) [of "fst k" "snd k"] by simp
  then show "set (iter pds) = pds" "distinct (iter pds)" using iter by (simp_all add: iter_ok_def)
  show "\<exists>m. bt_get (pm_pending pm) x = Some (fst (wait_of pm x), m)" if "x \<in> pds"
    using that o(6) [of x "fst k" "snd k"] at by (auto simp: wait_of_def)
  show "m - {snd k} = still_missing {k} c m" if "x \<in> pds" "bt_get (pm_pending pm) x = Some (c, m)"
    using waiting_iff(2) [OF ok that(2), of k] that(1) at by simp
  show "still_missing {k} c m = m" if "x \<notin> pds" "bt_get (pm_pending pm) x = Some (c, m)"
    using waiting_iff(1) [OF ok that(2), of k] that(1) at by simp
qed

lemma freed_certs:
  assumes iter: "iter_ok iter" and ok: "pending_ok H pm" and k: "bt_get (missing_for_pending pm) k = Some pds"
  defines "new \<equiv> map (\<lambda>x. fst (wait_of pm x)) (freed (snd k) pm (iter pds))"
  shows "map (cert_digest H) new = freed (snd k) pm (iter pds)"
    "map (cert_key_of H) new = map (\<lambda>x. (c_round (fst (wait_of pm x)), x)) (freed (snd k) pm (iter pds))"
    "bt_get (pm_pending pm) x = Some (c, m) \<Longrightarrow> c \<in> set new \<longleftrightarrow> still_missing {k} c m = {}"
    "c \<in> set new \<Longrightarrow> \<exists>m. bt_get (pm_pending pm) (cert_digest H c) = Some (c, m) \<and> still_missing {k} c m = {}"
proof -
  note o = pending_okD [OF ok] and wt = waiting_at [OF iter ok k]
  have dig: "cert_digest H (fst (wait_of pm x)) = x" if "x \<in> pds" for x
    using wt(3) [OF that] o(5) by auto
  show digs: "map (cert_digest H) new = freed (snd k) pm (iter pds)"
    using dig wt(1) by (auto simp: new_def intro!: map_idI)
  show "map (cert_key_of H) new = map (\<lambda>x. (c_round (fst (wait_of pm x)), x)) (freed (snd k) pm (iter pds))"
    using dig wt(1) by (auto simp: new_def cert_key_of_def)
  show iff: "c \<in> set new \<longleftrightarrow> still_missing {k} c m = {}" if x: "bt_get (pm_pending pm) x = Some (c, m)" for x c m
  proof -
    have w: "wait_of pm x = (c, m)" using x by (simp add: wait_of_def)
    have "x \<in> set (map (cert_digest H) new)" if "c \<in> set new" using that o(5) [OF x] by auto
    moreover have "c \<in> set new" if "x \<in> set (freed (snd k) pm (iter pds))"
      using imageI [OF that, of "\<lambda>x. fst (wait_of pm x)"] by (simp add: new_def w)
    ultimately have "c \<in> set new \<longleftrightarrow> x \<in> set (freed (snd k) pm (iter pds))" unfolding digs by (rule iffI)
    also have "\<dots> \<longleftrightarrow> x \<in> pds \<and> m - {snd k} = {}" by (simp add: wt(1) w)
    also have "\<dots> \<longleftrightarrow> still_missing {k} c m = {}"
      using wt(4) [OF _ x] wt(5) [OF _ x] o(5) [OF x] by (cases "x \<in> pds") simp_all
    finally show ?thesis .
  qed
  show "\<exists>m. bt_get (pm_pending pm) (cert_digest H c) = Some (c, m) \<and> still_missing {k} c m = {}"
    if c: "c \<in> set new"
  proof -
    from c obtain x where x: "x \<in> pds" "c = fst (wait_of pm x)" by (auto simp: new_def wt(1))
    then obtain m where m: "bt_get (pm_pending pm) x = Some (c, m)" using wt(3) by auto
    with iff [OF m] c o(5) [OF m] show ?thesis by auto
  qed
qed

lemma free_children_ok:
  assumes iter: "iter_ok iter" and ok: "pending_ok H pm" and k: "bt_get (missing_for_pending pm) k = Some pds"
  shows "\<exists>pm' new. free_children (snd k) (iter pds)
        (pm\<lparr>missing_for_pending := bt_remove k (missing_for_pending pm)\<rparr>) queue ready =
          (pm', Inr (queue @ map (cert_key_of H) new, ready @ new))
    \<and> pending_ok H pm' \<and> distinct (map (cert_digest H) new)
    \<and> (\<forall>c \<in> set new. \<exists>m. bt_get (pm_pending pm) (cert_digest H c) = Some (c, m) \<and> still_missing {k} c m = {})
    \<and> (\<forall>x c m. bt_get (pm_pending pm) x = Some (c, m) \<longrightarrow>
         bt_get (pm_pending pm') x = (if c \<in> set new then None else Some (c, still_missing {k} c m)))
    \<and> (\<forall>x. bt_get (pm_pending pm) x = None \<longrightarrow> bt_get (pm_pending pm') x = None)"
proof -
  note o = pending_okD [OF ok] and wt = waiting_at [OF iter ok k] and fr = freed_certs [OF iter ok k]
  let ?pm1 = "pm\<lparr>missing_for_pending := bt_remove k (missing_for_pending pm)\<rparr>"
  let ?new = "map (\<lambda>x. fst (wait_of pm x)) (freed (snd k) pm (iter pds))"
  have pre: "\<forall>x \<in> set (iter pds). bt_get (pm_pending ?pm1) x \<noteq> None" using wt(3) wt(1) by fastforce
  have w1: "wait_of ?pm1 = wait_of pm" by (simp add: wait_of_def fun_eq_iff)
  obtain q where run: "free_children (snd k) (iter pds) ?pm1 queue ready =
        (?pm1\<lparr>pm_pending := q\<rparr>, Inr (queue @ map (cert_key_of H) ?new, ready @ ?new))"
    and inv: "bt_inv q"
    and get: "\<And>x. bt_get q x = (if x \<notin> pds then bt_get (pm_pending pm) x
          else if snd (wait_of pm x) - {snd k} = {} then None
          else Some (fst (wait_of pm x), snd (wait_of pm x) - {snd k}))"
    using free_children_run [OF pre wt(2), of "snd k" queue ready] o(1)
    unfolding fr(2) w1 wt(1) by auto
  have none: "bt_get q x = None" if "bt_get (pm_pending pm) x = None" for x
    using that wt(3) [of x] get [of x] by (cases "x \<in> pds") auto
  have upd: "bt_get q x = (if still_missing {k} c m = {} then None else Some (c, still_missing {k} c m))"
    if x: "bt_get (pm_pending pm) x = Some (c, m)" for x c m
    using get [of x] wt(4) [OF _ x] wt(5) [OF _ x] o(5) [OF x] x by (cases "x \<in> pds") (simp_all add: wait_of_def)
  have ok': "pending_ok H (?pm1\<lparr>pm_pending := q\<rparr>)" using pending_ok_step [OF ok inv none upd] by simp
  have dist: "distinct (map (cert_digest H) ?new)" unfolding fr(1) using wt(2) by simp
  have upd': "bt_get q x = (if c \<in> set ?new then None else Some (c, still_missing {k} c m))"
    if "bt_get (pm_pending pm) x = Some (c, m)" for x c m
    using fr(3) [OF that] upd [OF that] by (simp only: if_cancel)
  have pq: "pm_pending (?pm1\<lparr>pm_pending := q\<rparr>) = q" by simp
  show ?thesis
    by (intro exI [of _ "?pm1\<lparr>pm_pending := q\<rparr>"] exI [of _ ?new] conjI run ok' dist ballI allI impI,
        erule fr(4), unfold pq, erule upd', erule none)
qed

text \<open>
  The cascade from a queue of accepted keys. The freed certificates \<open>new\<close> come in an order in which
  everything a certificate waited for is a key of the queue or an earlier freed certificate, and
  what stays pending has shed exactly those keys.
\<close>

definition cascade_post ::
  "hash_fun \<Rightarrow> (round \<times> digest) set \<Rightarrow> pending_manager \<Rightarrow> pending_manager \<Rightarrow> certificate list \<Rightarrow> bool" where
  "cascade_post H K pm pm' new \<longleftrightarrow>
     pending_ok H pm' \<and> distinct (map (cert_digest H) new)
     \<and> (\<forall>i < length new. \<exists>m. bt_get (pm_pending pm) (cert_digest H (new ! i)) = Some (new ! i, m)
          \<and> still_missing (K \<union> cert_key_of H ` set (take i new)) (new ! i) m = {})
     \<and> (\<forall>x c m. bt_get (pm_pending pm) x = Some (c, m) \<longrightarrow>
          bt_get (pm_pending pm') x =
            (if c \<in> set new then None else Some (c, still_missing (K \<union> cert_key_of H ` set new) c m)))
     \<and> (\<forall>x. bt_get (pm_pending pm) x = None \<longrightarrow> bt_get (pm_pending pm') x = None)"

lemma still_missing_twice: "still_missing K (c :: certificate) (still_missing L c m) = still_missing (L \<union> K) c m"
  by (auto simp: still_missing_def)

lemma still_missing_mono: "still_missing K c m = {} \<Longrightarrow> K \<subseteq> L \<Longrightarrow> still_missing L c m = {}"
  by (auto simp: still_missing_def)

lemma cascade_post_skip:
  assumes ok: "pending_ok H pm" and none: "bt_get (missing_for_pending pm) k = None"
    and post: "cascade_post H K pm pm' new"
  shows "cascade_post H (insert k K) pm pm' new"
proof -
  have "missing_at pm k = {}" using none by (simp add: missing_at_def)
  then have same: "still_missing {k} c m = m" if "bt_get (pm_pending pm) x = Some (c, m)" for x c m
    using waiting_iff(1) [OF ok that, of k] by simp
  have "still_missing (insert k K \<union> L) c m = still_missing (K \<union> L) c m"
    if "bt_get (pm_pending pm) x = Some (c, m)" for x c m L
    using same [OF that] by (auto simp: still_missing_def)
  then show ?thesis using post unfolding cascade_post_def by (auto simp del: Un_insert_left)
qed

lemma cascade_post_step:
  assumes dist: "distinct (map (cert_digest H) new1)"
    and new1: "\<forall>c \<in> set new1. \<exists>m. bt_get (pm_pending pm) (cert_digest H c) = Some (c, m) \<and> still_missing {k} c m = {}"
    and some: "\<forall>x c m. bt_get (pm_pending pm) x = Some (c, m) \<longrightarrow>
      bt_get (pm_pending pm1) x = (if c \<in> set new1 then None else Some (c, still_missing {k} c m))"
    and none: "\<forall>x. bt_get (pm_pending pm) x = None \<longrightarrow> bt_get (pm_pending pm1) x = None"
    and post: "cascade_post H (K \<union> cert_key_of H ` set new1) pm1 pm' new2"
  shows "cascade_post H (insert k K) pm pm' (new1 @ new2)"
proof -
  note p = post [unfolded cascade_post_def]
  have orig: "\<exists>m. bt_get (pm_pending pm) x = Some (c, m) \<and> c \<notin> set new1 \<and> m1 = still_missing {k} c m"
    if "bt_get (pm_pending pm1) x = Some (c, m1)" for x c m1
  proof (cases "bt_get (pm_pending pm) x")
    case None
    with none that show ?thesis by simp
  next
    case (Some e)
    obtain c0 m0 where e: "e = (c0, m0)" by (cases e)
    with some Some have "bt_get (pm_pending pm1) x = (if c0 \<in> set new1 then None else Some (c0, still_missing {k} c0 m0))"
      by simp
    with that Some e show ?thesis by (auto split: if_splits)
  qed
  have gone: "bt_get (pm_pending pm1) (cert_digest H c) = None" if c: "c \<in> set new1" for c
  proof -
    from c new1 obtain m where "bt_get (pm_pending pm) (cert_digest H c) = Some (c, m)" by auto
    with some c show ?thesis by simp
  qed
  have new2: "\<exists>m. bt_get (pm_pending pm) (cert_digest H (new2 ! j)) = Some (new2 ! j, m)
      \<and> still_missing (insert k K \<union> cert_key_of H ` (set new1 \<union> set (take j new2))) (new2 ! j) m = {}"
    if j: "j < length new2" for j
  proof -
    obtain m1 where m1: "bt_get (pm_pending pm1) (cert_digest H (new2 ! j)) = Some (new2 ! j, m1)"
      "still_missing (K \<union> cert_key_of H ` set new1 \<union> cert_key_of H ` set (take j new2)) (new2 ! j) m1 = {}"
      using p j by auto
    from orig [OF m1(1)] obtain m where m: "bt_get (pm_pending pm) (cert_digest H (new2 ! j)) = Some (new2 ! j, m)"
      "m1 = still_missing {k} (new2 ! j) m" by auto
    show ?thesis using m(1) m1(2) [unfolded m(2) still_missing_twice] by (auto simp: image_Un Un_assoc)
  qed
  have disj: "cert_digest H c \<noteq> cert_digest H c'" if c: "c \<in> set new1" and c': "c' \<in> set new2" for c c'
  proof -
    from c' obtain j where "j < length new2" "c' = new2 ! j" by (auto simp: in_set_conv_nth)
    with p have "bt_get (pm_pending pm1) (cert_digest H c') \<noteq> None" by auto
    with gone [OF c] show ?thesis by auto
  qed
  have ordered: "\<exists>m. bt_get (pm_pending pm) (cert_digest H ((new1 @ new2) ! i)) = Some ((new1 @ new2) ! i, m)
      \<and> still_missing (insert k K \<union> cert_key_of H ` set (take i (new1 @ new2))) ((new1 @ new2) ! i) m = {}"
    if i: "i < length (new1 @ new2)" for i
  proof (cases "i < length new1")
    case True
    then have "new1 ! i \<in> set new1" by simp
    with new1 obtain m where "bt_get (pm_pending pm) (cert_digest H (new1 ! i)) = Some (new1 ! i, m)"
      "still_missing {k} (new1 ! i) m = {}" by auto
    with True show ?thesis
      using still_missing_mono [of "{k}" "new1 ! i" m "insert k K \<union> cert_key_of H ` set (take i new1)"]
      by (simp add: nth_append)
  next
    case False
    then show ?thesis using new2 [of "i - length new1"] i by (simp add: nth_append)
  qed
  have upd: "bt_get (pm_pending pm') x = (if c \<in> set (new1 @ new2) then None
      else Some (c, still_missing (insert k K \<union> cert_key_of H ` set (new1 @ new2)) c m))"
    if x: "bt_get (pm_pending pm) x = Some (c, m)" for x c m
  proof (cases "c \<in> set new1")
    case True
    with some x p show ?thesis by simp
  next
    case False
    with some x have "bt_get (pm_pending pm1) x = Some (c, still_missing {k} c m)" by simp
    with p have "bt_get (pm_pending pm') x = (if c \<in> set new2 then None
        else Some (c, still_missing (K \<union> cert_key_of H ` set new1 \<union> cert_key_of H ` set new2) c (still_missing {k} c m)))"
      by simp
    with False show ?thesis by (simp add: still_missing_twice image_Un Un_assoc)
  qed
  have "distinct (map (cert_digest H) (new1 @ new2))" using dist p disj by fastforce
  then show ?thesis unfolding cascade_post_def
    using p none ordered upd by (intro conjI allI impI) simp_all
qed

lemma cascade_ok:
  assumes "iter_ok iter" "pending_ok H pm"
  shows "\<exists>pm' new. cascade iter queue pm ready = (pm', Inr (ready @ new)) \<and> cascade_post H (set queue) pm pm' new"
  using assms
proof (induction iter queue pm ready rule: cascade.induct)
  case (1 iter pm ready)
  have "cascade_post H {} pm pm []" using "1.prems" by (auto simp: cascade_post_def still_missing_def)
  then show ?case by auto
next
  case (2 iter k queue pm ready)
  show ?case
  proof (cases "bt_get (missing_for_pending pm) k")
    case None
    from "2.IH"(1) [OF None "2.prems"] obtain pm' new where
      "cascade iter queue pm ready = (pm', Inr (ready @ new))" "cascade_post H (set queue) pm pm' new" by auto
    with cascade_post_skip [OF "2.prems"(2) None] None show ?thesis by auto
  next
    case (Some pds)
    obtain pm1 new1 where fc: "free_children (snd k) (iter pds)
        (pm\<lparr>missing_for_pending := bt_remove k (missing_for_pending pm)\<rparr>) queue ready =
          (pm1, Inr (queue @ map (cert_key_of H) new1, ready @ new1))"
      and ok1: "pending_ok H pm1"
      and new1: "distinct (map (cert_digest H) new1)"
        "\<forall>c \<in> set new1. \<exists>m. bt_get (pm_pending pm) (cert_digest H c) = Some (c, m) \<and> still_missing {k} c m = {}"
        "\<forall>x c m. bt_get (pm_pending pm) x = Some (c, m) \<longrightarrow>
          bt_get (pm_pending pm1) x = (if c \<in> set new1 then None else Some (c, still_missing {k} c m))"
        "\<forall>x. bt_get (pm_pending pm) x = None \<longrightarrow> bt_get (pm_pending pm1) x = None"
      using free_children_ok [OF "2.prems" Some, of queue ready] by (elim exE conjE) (rule that)
    from "2.IH"(2) [OF Some fc [symmetric] refl refl "2.prems"(1) ok1] obtain pm' new2 where
      "cascade iter (queue @ map (cert_key_of H) new1) pm1 (ready @ new1) = (pm', Inr ((ready @ new1) @ new2))"
      and post: "cascade_post H (set (queue @ map (cert_key_of H) new1)) pm1 pm' new2" by auto
    with fc Some have "cascade iter (k # queue) pm ready = (pm', Inr (ready @ new1 @ new2))" by simp
    moreover have "cascade_post H (insert k (set queue)) pm pm' (new1 @ new2)"
      by (rule cascade_post_step [OF new1]) (use post in \<open>simp\<close>)
    ultimately show ?thesis by auto
  qed
qed

section \<open>Keys only leave the map of missing parents\<close>

lemma free_children_missing:
  "free_children d pds pm queue ready = (pm', res) \<Longrightarrow> missing_for_pending pm' = missing_for_pending pm"
  by (induction d pds pm queue ready rule: free_children.induct) (auto split: option.splits if_splits)

lemma length_bt_remove: "length (bt_remove k m) \<le> length m" "bt_get m k \<noteq> None \<Longrightarrow> length (bt_remove k m) < length m"
proof -
  show "length (bt_remove k m) \<le> length m" by (simp add: bt_remove_def)
  show "length (bt_remove k m) < length m" if get: "bt_get m k \<noteq> None"
  proof -
    from get obtain v where "(k, v) \<in> set m" using bt_get_set by fastforce
    then have "\<exists>x \<in> set m. \<not> (case x of (a, _) \<Rightarrow> a \<noteq> k)" by (intro bexI [of _ "(k, v)"]) simp_all
    then show ?thesis unfolding bt_remove_def by (elim bexE) (rule length_filter_less)
  qed
qed

lemma cascade_missing_le:
  "cascade iter queue pm ready = (pm', res) \<Longrightarrow> length (missing_for_pending pm') \<le> length (missing_for_pending pm)"
proof (induction iter queue pm ready rule: cascade.induct)
  case (2 iter k queue pm ready)
  show ?case
  proof (cases "bt_get (missing_for_pending pm) k")
    case None
    then show ?thesis using "2.IH"(1) [OF None] "2.prems" by simp
  next
    case (Some pds)
    let ?pm1 = "pm\<lparr>missing_for_pending := bt_remove k (missing_for_pending pm)\<rparr>"
    obtain pm2 out where fc: "free_children (snd k) (iter pds) ?pm1 queue ready = (pm2, out)" by (metis surj_pair)
    have le: "length (missing_for_pending pm2) \<le> length (missing_for_pending pm)"
      using free_children_missing [OF fc] length_bt_remove(1) by simp
    show ?thesis
    proof (cases out)
      case (Inl e)
      then show ?thesis using "2.prems" Some fc le by simp
    next
      case (Inr qr)
      obtain q' r' where qr: "qr = (q', r')" by (cases qr)
      have "length (missing_for_pending pm') \<le> length (missing_for_pending pm2)"
        using "2.IH"(2) [OF Some fc [symmetric] Inr qr [symmetric]] "2.prems" Some fc Inr qr by simp
      with le show ?thesis by simp
    qed
  qed
qed simp

lemma update_pending_less:
  assumes k: "bt_get (missing_for_pending pm) (r, d) \<noteq> None" and u: "update_pending iter r d pm = (pm', res)"
  shows "length (missing_for_pending pm') < length (missing_for_pending pm)"
proof -
  from k obtain pds where pds: "bt_get (missing_for_pending pm) (r, d) = Some pds" by auto
  let ?pm1 = "pm\<lparr>missing_for_pending := bt_remove (r, d) (missing_for_pending pm)\<rparr>"
  obtain pm2 out where fc: "free_children d (iter pds) ?pm1 [] [] = (pm2, out)" by (metis surj_pair)
  obtain pm3 res3 where c: "cascade iter [(r, d)] pm [] = (pm3, res3)" by (metis surj_pair)
  have lt: "length (missing_for_pending pm2) < length (missing_for_pending pm)"
    using free_children_missing [OF fc] length_bt_remove(2) [OF k] by simp
  have "length (missing_for_pending pm3) \<le> length (missing_for_pending pm2)"
    using c pds fc cascade_missing_le by (auto split: sum.splits prod.splits)
  with lt have "length (missing_for_pending pm3) < length (missing_for_pending pm)" by simp
  with u c show ?thesis by (auto simp: update_pending_def split: sum.splits)
qed

lemma next_gc_key:
  "next_for_gc_round gc pm = (pm', Some (r, d)) \<Longrightarrow>
   missing_for_pending pm' = missing_for_pending pm \<and> bt_get (missing_for_pending pm) (r, d) \<noteq> None \<and> r \<le> gc"
  by (cases "missing_for_pending pm")
    (auto simp: next_for_gc_round_def bt_first_def bt_get_def split: if_splits option.splits)

lemma next_gc_None:
  assumes n: "next_for_gc_round gc pm = (pm', None)" and inv: "bt_inv (missing_for_pending pm)"
  shows "pm' = pm" and "missing_at pm (r, d) \<noteq> {} \<Longrightarrow> gc < r"
proof -
  show "pm' = pm" using n by (auto simp: next_for_gc_round_def split: option.splits if_splits)
  assume "missing_at pm (r, d) \<noteq> {}"
  then obtain S where "bt_get (missing_for_pending pm) (r, d) = Some S" by (auto simp: missing_at_def split: option.splits)
  then have mem: "((r, d), S) \<in> set (missing_for_pending pm)" by (rule bt_get_set)
  then obtain a b v m where m: "missing_for_pending pm = ((a, b), v) # m" by (cases "missing_for_pending pm") auto
  then have "gc < a" using n by (auto simp: next_for_gc_round_def bt_first_def split: if_splits option.splits)
  moreover have "(a, b) \<le> (r, d)" using mem inv unfolding m by (auto simp: bt_inv_Cons less_imp_le)
  ultimately show "gc < r" by (auto simp: less_eq_prod_def)
qed

section \<open>Properties\<close>

definition ex_iter :: iter_fun where
  "ex_iter S = sorted_list_of_set S"

lemma ex_iter_ok: "iter_ok ex_iter"
  by (simp add: iter_ok_def ex_iter_def)

definition ex_pending :: pending_manager where
  "ex_pending =
     fst (insert_pending ex_hash ex_iter (ex_cert 3 1) {201}
       (fst (insert_pending ex_hash ex_iter (ex_cert 2 1) {101} pending_new)))"

lemmas pending_eval = insert_pending_def add_missing_def missing_at_def publish_count_def pending_new_def
  bt_get_def bt_remove_def Let_def

lemma ex_pending_eq:
  "ex_pending = \<lparr>pm_pending = [(201, (ex_cert 2 1, {101})), (301, (ex_cert 3 1, {201}))],
     missing_for_pending = [((1, 101), {201}), ((2, 201), {301})], suspended_cert_count = 2\<rparr>"
  by (simp add: ex_pending_def ex_iter_def pending_eval)

lemma ex_pending_ok: "pending_ok ex_hash ex_pending"
proof -
  have "pending_ok ex_hash (fst (insert_pending ex_hash ex_iter (ex_cert 2 1) {101} pending_new))"
    using insert_pending_ok [OF ex_iter_ok pending_new_ok, where cert = "ex_cert 2 1" and H = ex_hash and missing = "{101}"]
    by (auto simp: is_pending_def pending_new_def)
  moreover have "\<not> is_pending (fst (insert_pending ex_hash ex_iter (ex_cert 2 1) {101} pending_new)) 301"
    by (simp add: is_pending_def ex_iter_def pending_eval)
  ultimately show ?thesis
    using insert_pending_ok [OF ex_iter_ok, where cert = "ex_cert 3 1" and H = ex_hash and missing = "{201}"]
    by (fastforce simp: ex_pending_def)
qed

text \<open>C22. Suspending a certificate with its missing parents succeeds, keeps the bookkeeping
  consistent, adds exactly that certificate and publishes the new count to the proposer.\<close>

theorem suspend_certificate:
  assumes "iter_ok iter" "pending_ok H pm" "\<not> is_pending pm (cert_digest H cert)" "finite miss" "miss \<noteq> {}"
  shows "\<exists>pm'. insert_pending H iter cert miss pm = (pm', Inr ()) \<and> pending_ok H pm'
    \<and> bt_get (pm_pending pm') = (bt_get (pm_pending pm))(cert_digest H cert \<mapsto> (cert, miss))
    \<and> suspended_cert_count pm' = num_pending pm'"
  using insert_pending_ok [OF assms] by (auto simp: insert_pending_def Let_def num_pending_def publish_count_def)

theorem suspend_certificate_witness:
  "\<exists>pm'. insert_pending ex_hash ex_iter (ex_cert 3 2) {201, 202} ex_pending = (pm', Inr ())
    \<and> pending_ok ex_hash pm'
    \<and> bt_get (pm_pending pm') = (bt_get (pm_pending ex_pending))(302 \<mapsto> (ex_cert 3 2, {201, 202}))
    \<and> suspended_cert_count pm' = num_pending pm'"
  using suspend_certificate [OF ex_iter_ok ex_pending_ok, of "ex_cert 3 2" "{201, 202}"]
  by (simp add: is_pending_def ex_pending_eq bt_get_def)

text \<open>C21. When a certificate is accepted, the cascade ends without an error and keeps the
  bookkeeping consistent. It frees certificates in an order in which everything a freed certificate
  waited for is the accepted one or was freed before it. Every certificate that stays pending waits
  exactly for what it waited for before, less the accepted and the freed ones, and the published
  count is the number of pending certificates.\<close>

theorem accept_cascade:
  assumes "iter_ok iter" "pending_ok H pm"
  shows "\<exists>pm' ready. update_pending iter r d pm = (pm', Inr ready)
    \<and> cascade_post H {(r, d)} pm pm' ready \<and> suspended_cert_count pm' = num_pending pm'"
proof -
  obtain pm' new where c: "cascade iter [(r, d)] pm [] = (pm', Inr new)" "cascade_post H {(r, d)} pm pm' new"
    using cascade_ok [OF assms, of "[(r, d)]" "[]"] by auto
  then have "cascade_post H {(r, d)} pm (publish_count pm') new" by (simp add: cascade_post_def)
  with c(1) show ?thesis by (auto simp: update_pending_def num_pending_def publish_count_def)
qed

theorem accept_cascade_witness:
  "(\<exists>pm' ready. update_pending ex_iter 1 101 ex_pending = (pm', Inr ready)
    \<and> cascade_post ex_hash {(1, 101)} ex_pending pm' ready \<and> suspended_cert_count pm' = num_pending pm')
   \<and> snd (update_pending ex_iter 1 101 ex_pending) = Inr [ex_cert 2 1, ex_cert 3 1]"
  using accept_cascade [OF ex_iter_ok ex_pending_ok, of 1 101]
  by (simp add: update_pending_def ex_pending_eq ex_iter_def pending_eval)

end
