(* ===== verification/Cert_Store.thy ===== *)
theory Cert_Store
  imports Certificates "HOL-Library.Product_Lexorder"
begin

text \<open>
  The certificate tables, from \<open>crates/infrastructure/storage/src/stores/certificate_store.rs\<close>. A
  table is a sorted association list: keys are ordered as their big-endian encoding orders them,
  which is the order of the keys themselves. A read or write of the database is taken to succeed;
  the errors modelled are the ones the store raises itself. Subscribers of a write
  (\<open>notify_read\<close>) are not modelled.
\<close>

section \<open>Table cursors\<close>

text \<open>Of \<open>mem_db.rs\<close>: the rows from a key on, the last row, and the last row strictly below a key.\<close>

definition skip_to :: "'k::linorder \<Rightarrow> ('k, 'v) btree \<Rightarrow> ('k \<times> 'v) list" where
  "skip_to k m = dropWhile (\<lambda>(j, _). j < k) m"

definition last_record :: "('k, 'v) btree \<Rightarrow> ('k \<times> 'v) option" where
  "last_record m = (if m = [] then None else Some (last m))"

definition record_prior_to :: "'k::linorder \<Rightarrow> ('k, 'v) btree \<Rightarrow> ('k \<times> 'v) option" where
  "record_prior_to k m = last_record (takeWhile (\<lambda>(j, _). j < k) m)"

section \<open>The store\<close>

record cert_store =
  certificates_table :: "(digest, certificate) btree"
  digest_by_round :: "(round \<times> auth_id, digest) btree"
  digest_by_origin :: "(auth_id \<times> round, digest) btree"
  prev_certificates :: "(digest, certificate) btree"
  prev_by_origin :: "(auth_id \<times> round, digest) btree"

datatype cert_scope = CurrentEpoch | PrevEpoch

datatype store_error = MissingBody digest

definition round_max :: round where
  "round_max = 2 ^ 32 - 1"

definition PREV_EPOCH_TAIL_ROUNDS :: round where
  "PREV_EPOCH_TAIL_ROUNDS = 50"

definition store_empty :: cert_store where
  "store_empty = \<lparr>certificates_table = [], digest_by_round = [], digest_by_origin = [],
     prev_certificates = [], prev_by_origin = []\<rparr>"

definition save_cert :: "digest \<Rightarrow> certificate \<Rightarrow> cert_store \<Rightarrow> cert_store" where
  "save_cert d cert s =
     s\<lparr>certificates_table := bt_insert d cert (certificates_table s),
       digest_by_round := bt_insert (c_round cert, origin cert) d (digest_by_round s),
       digest_by_origin := bt_insert (origin cert, c_round cert) d (digest_by_origin s)\<rparr>"

definition store_write :: "hash_fun \<Rightarrow> certificate \<Rightarrow> cert_store \<Rightarrow> cert_store" where
  "store_write H cert s = save_cert (cert_digest H cert) cert s"

definition write_all :: "hash_fun \<Rightarrow> certificate list \<Rightarrow> cert_store \<Rightarrow> cert_store" where
  "write_all H certs s = fold (\<lambda>cert. save_cert (cert_digest H cert) cert) certs s"

definition store_read :: "cert_store \<Rightarrow> digest \<Rightarrow> certificate option" where
  "store_read s d = bt_get (certificates_table s) d"

definition read_by_index :: "cert_store \<Rightarrow> auth_id \<Rightarrow> round \<Rightarrow> certificate option" where
  "read_by_index s a r =
     (case bt_get (digest_by_origin s) (a, r) of Some d \<Rightarrow> store_read s d | None \<Rightarrow> None)"

definition read_by_index_in :: "cert_store \<Rightarrow> cert_scope \<Rightarrow> auth_id \<Rightarrow> round \<Rightarrow> certificate option" where
  "read_by_index_in s scope a r =
     (case scope of
        CurrentEpoch \<Rightarrow> read_by_index s a r
      | PrevEpoch \<Rightarrow>
          (case bt_get (prev_by_origin s) (a, r) of
             Some d \<Rightarrow> bt_get (prev_certificates s) d
           | None \<Rightarrow> None))"

definition contains :: "cert_store \<Rightarrow> digest \<Rightarrow> bool" where
  "contains s d \<longleftrightarrow> bt_get (certificates_table s) d \<noteq> None"

definition multi_contains :: "cert_store \<Rightarrow> digest list \<Rightarrow> bool list" where
  "multi_contains s ds = map (contains s) ds"

definition read_all :: "cert_store \<Rightarrow> digest list \<Rightarrow> certificate option list" where
  "read_all s ds = map (bt_get (certificates_table s)) ds"

definition store_delete :: "digest \<Rightarrow> cert_store \<Rightarrow> cert_store" where
  "store_delete d s =
     (case store_read s d of
        None \<Rightarrow> s
      | Some cert \<Rightarrow>
          s\<lparr>digest_by_round := bt_remove (c_round cert, origin cert) (digest_by_round s),
            digest_by_origin := bt_remove (origin cert, c_round cert) (digest_by_origin s),
            certificates_table := bt_remove d (certificates_table s)\<rparr>)"

text \<open>The bodies of a list of digests; a missing body is the store's invariant violation.\<close>

fun bodies :: "cert_store \<Rightarrow> digest list \<Rightarrow> store_error + certificate list" where
  "bodies s [] = Inr []"
| "bodies s (d # ds) =
     (case store_read s d of
        None \<Rightarrow> Inl (MissingBody d)
      | Some cert \<Rightarrow> (case bodies s ds of Inl e \<Rightarrow> Inl e | Inr certs \<Rightarrow> Inr (cert # certs)))"

text \<open>The rows from the row before the requested round; \<open>AuthorityIdentifier::default\<close> is zero.\<close>

definition rows_from :: "cert_store \<Rightarrow> round \<Rightarrow> ((round \<times> auth_id) \<times> digest) list" where
  "rows_from s r = (if 0 < r then skip_to (r - 1, 0) (digest_by_round s) else digest_by_round s)"

definition after_round :: "cert_store \<Rightarrow> round \<Rightarrow> store_error + certificate list" where
  "after_round s r = bodies s (map snd (filter (\<lambda>((j, _), _). r \<le> j) (rows_from s r)))"

definition push_origin :: "round \<Rightarrow> auth_id \<Rightarrow> (round, auth_id list) btree \<Rightarrow> (round, auth_id list) btree" where
  "push_origin j a m = bt_insert j ((case bt_get m j of None \<Rightarrow> [] | Some os \<Rightarrow> os) @ [a]) m"

definition origins_after_round :: "cert_store \<Rightarrow> round \<Rightarrow> (round, auth_id list) btree" where
  "origins_after_round s r =
     fold (\<lambda>((j, a), _) m. if j < r then m else push_origin j a m) (rows_from s r) []"

text \<open>Walking the round index backwards; a round of zero stands for \<open>unset\<close>.\<close>

fun two_rounds :: "round \<Rightarrow> ((round \<times> auth_id) \<times> digest) list \<Rightarrow> digest list" where
  "two_rounds r [] = []"
| "two_rounds r (((j, _), d) # rows) =
     (if r = 0 then d # two_rounds j rows
      else if j < r - 1 then []
      else d # two_rounds r rows)"

definition last_two_rounds_certs :: "cert_store \<Rightarrow> store_error + certificate list" where
  "last_two_rounds_certs s = bodies s (two_rounds 0 (rev (digest_by_round s)))"

definition last_round_cert :: "cert_store \<Rightarrow> auth_id \<Rightarrow> certificate option" where
  "last_round_cert s a =
     (case record_prior_to (a, round_max) (digest_by_origin s) of
        Some ((name, _), d) \<Rightarrow> if name = a then store_read s d else None
      | None \<Rightarrow> None)"

definition highest_round_number :: "cert_store \<Rightarrow> round" where
  "highest_round_number s = (case last_record (digest_by_round s) of Some ((r, _), _) \<Rightarrow> r | None \<Rightarrow> 0)"

definition last_round_number :: "cert_store \<Rightarrow> auth_id \<Rightarrow> round option" where
  "last_round_number s a =
     (case record_prior_to (a, round_max) (digest_by_origin s) of
        Some ((name, r), _) \<Rightarrow> if name = a then Some r else None
      | None \<Rightarrow> None)"

definition next_in :: "(auth_id \<times> round, digest) btree \<Rightarrow> auth_id \<Rightarrow> round \<Rightarrow> round option" where
  "next_in m a r =
     (if r = round_max then None
      else case skip_to (a, r + 1) m of
             [] \<Rightarrow> None
           | ((name, j), _) # _ \<Rightarrow> if name = a then Some j else None)"

definition next_round_number :: "cert_store \<Rightarrow> auth_id \<Rightarrow> round \<Rightarrow> round option" where
  "next_round_number s a r = next_in (digest_by_origin s) a r"

definition next_round_number_in :: "cert_store \<Rightarrow> cert_scope \<Rightarrow> auth_id \<Rightarrow> round \<Rightarrow> round option" where
  "next_round_number_in s scope a r =
     (case scope of
        CurrentEpoch \<Rightarrow> next_round_number s a r
      | PrevEpoch \<Rightarrow> next_in (prev_by_origin s) a r)"

definition store_clear :: "cert_store \<Rightarrow> cert_store" where
  "store_clear s = s\<lparr>digest_by_round := [], digest_by_origin := [], certificates_table := []\<rparr>"

definition is_empty_certs :: "cert_store \<Rightarrow> bool" where
  "is_empty_certs s \<longleftrightarrow> certificates_table s = []"

text \<open>The tail of the closing epoch: the last \<open>keep\<close> rounds, highest first.\<close>

type_synonym tail_entry = "round \<times> auth_id \<times> digest \<times> certificate"

definition live_tail :: "cert_store \<Rightarrow> round \<Rightarrow> tail_entry list" where
  "live_tail s keep =
     (if keep = 0 then []
      else case last_record (digest_by_round s) of
             None \<Rightarrow> []
           | Some ((highest, _), _) \<Rightarrow>
               List.map_filter
                 (\<lambda>((r, a), d). map_option (\<lambda>cert. (r, a, d, cert)) (store_read s d))
                 (takeWhile (\<lambda>((r, _), _). highest - (keep - 1) \<le> r) (rev (digest_by_round s))))"

definition write_prev_epoch_tail :: "tail_entry list \<Rightarrow> cert_store \<Rightarrow> cert_store" where
  "write_prev_epoch_tail tail s =
     fold (\<lambda>(r, a, d, cert) t.
             t\<lparr>prev_certificates := bt_insert d cert (prev_certificates t),
               prev_by_origin := bt_insert (a, r) d (prev_by_origin t)\<rparr>)
       tail (s\<lparr>prev_certificates := [], prev_by_origin := []\<rparr>)"

section \<open>Cursors on sorted tables\<close>

lemma bt_inv_sorted: "bt_inv m \<Longrightarrow> sorted_wrt (\<lambda>x y. fst x < fst y) m"
  by (simp add: bt_inv_def sorted_wrt_map)

lemma skip_to_filter: "bt_inv m \<Longrightarrow> skip_to k m = filter (\<lambda>(j, _). k \<le> j) m"
  by (induction m) (force simp: skip_to_def bt_inv_Cons intro!: filter_True [symmetric])+

lemma takeWhile_below: "bt_inv m \<Longrightarrow> takeWhile (\<lambda>(j, _). j < k) m = filter (\<lambda>(j, _). j < k) m"
  by (induction m) (force simp: bt_inv_Cons intro!: filter_False [symmetric])+

lemma last_record_greatest:
  "bt_inv m \<Longrightarrow> last_record m = Some (k, v) \<Longrightarrow> (k, v) \<in> set m \<and> (\<forall>e \<in> set m. fst e \<le> k)"
  by (induction m rule: rev_induct)
    (auto simp: last_record_def bt_inv_def sorted_wrt_append split: if_splits intro: less_imp_le)

lemma record_prior_greatest:
  assumes "bt_inv m" "record_prior_to k m = Some (j, v)"
  shows "(j, v) \<in> set m \<and> j < k \<and> (\<forall>e \<in> set m. fst e < k \<longrightarrow> fst e \<le> j)"
  using last_record_greatest [of "filter (\<lambda>(j, _). j < k) m" j v] assms
  by (auto simp: record_prior_to_def takeWhile_below bt_inv_filter)

lemma record_prior_None:
  "bt_inv m \<Longrightarrow> record_prior_to k m = None \<longleftrightarrow> (\<forall>e \<in> set m. k \<le> fst e)"
  by (simp add: record_prior_to_def takeWhile_below last_record_def filter_empty_conv not_less case_prod_beta)

section \<open>The invariant\<close>

text \<open>
  Bodies stand under their digests, the two indexes are transposes of each other, and every index
  entry has a body of that round and origin.
\<close>

definition index_ok ::
  "hash_fun \<Rightarrow> header_wire set \<Rightarrow> (digest, certificate) btree \<Rightarrow> (auth_id \<times> round, digest) btree \<Rightarrow> bool" where
  "index_ok H U t ix \<longleftrightarrow> bt_inv t \<and> bt_inv ix
     \<and> (\<forall>d c. bt_get t d = Some c \<longrightarrow> cert_digest H c = d \<and> sealed H U c)
     \<and> (\<forall>a r d. bt_get ix (a, r) = Some d \<longrightarrow> (\<exists>c. bt_get t d = Some c \<and> origin c = a \<and> c_round c = r))"

definition store_ok :: "hash_fun \<Rightarrow> header_wire set \<Rightarrow> cert_store \<Rightarrow> bool" where
  "store_ok H U s \<longleftrightarrow>
     index_ok H U (certificates_table s) (digest_by_origin s)
     \<and> index_ok H U (prev_certificates s) (prev_by_origin s)
     \<and> bt_inv (digest_by_round s)
     \<and> (\<forall>a r. bt_get (digest_by_round s) (r, a) = bt_get (digest_by_origin s) (a, r))"

lemma store_okD:
  assumes "store_ok H U s"
  shows "index_ok H U (certificates_table s) (digest_by_origin s)"
    "index_ok H U (prev_certificates s) (prev_by_origin s)" "bt_inv (digest_by_round s)"
    "bt_get (digest_by_round s) (r, a) = bt_get (digest_by_origin s) (a, r)"
  using assms by (simp_all add: store_ok_def)

lemma store_empty_ok [keeps]: "store_ok H U store_empty"
  by (simp add: store_ok_def index_ok_def store_empty_def)

lemma index_okD:
  assumes "index_ok H U t ix"
  shows "bt_inv t" "bt_inv ix" "bt_get t d = Some c \<Longrightarrow> cert_digest H c = d \<and> sealed H U c"
    "bt_get ix (a, r) = Some d \<Longrightarrow> \<exists>c. bt_get t d = Some c \<and> origin c = a \<and> c_round c = r"
  using assms by (simp_all add: index_ok_def)

lemma index_ok_insert:
  assumes cf: "collision_free H U" and ok: "index_ok H U t ix" and c: "sealed H U c"
  shows "index_ok H U (bt_insert (cert_digest H c) c t) (bt_insert (origin c, c_round c) (cert_digest H c) ix)"
proof -
  let ?d = "cert_digest H c"
  note o = index_okD [OF ok]
  have same: "origin y = origin c \<and> c_round y = c_round c" if "bt_get t ?d = Some y" for y
    using o(3) [OF that] wire_eqD [OF sealed_digest_eq [OF cf _ c, of y]] by simp
  have body: "cert_digest H x = d \<and> sealed H U x" if "((bt_get t)(?d \<mapsto> c)) d = Some x" for d x
    using that o(3) [of d x] c by (cases "d = ?d") simp_all
  have entry: "\<exists>x. ((bt_get t)(?d \<mapsto> c)) d = Some x \<and> origin x = a \<and> c_round x = r"
    if i: "((bt_get ix)((origin c, c_round c) \<mapsto> ?d)) (a, r) = Some d" for a r d
  proof (cases "(a, r) = (origin c, c_round c)")
    case True
    with i show ?thesis by simp
  next
    case False
    with i have "bt_get ix (a, r) = Some d" by (auto split: if_splits)
    from o(4) [OF this] obtain x where "bt_get t d = Some x" "origin x = a" "c_round x = r" by auto
    with same [of x] show ?thesis by (cases "d = ?d") simp_all
  qed
  show ?thesis using o(1,2) body entry by (simp only: index_ok_def bt_get_insert bt_invs) blast
qed

lemma save_cert_ok [keeps]:
  assumes cf: "collision_free H U" and ok: "store_ok H U s" and c: "sealed H U c"
  shows "store_ok H U (save_cert (cert_digest H c) c s)"
proof -
  have ix: "index_ok H U (certificates_table s) (digest_by_origin s)" using ok by (simp add: store_ok_def)
  show ?thesis using ok index_ok_insert [OF cf ix c] index_okD(2) [OF ix]
    by (simp add: store_ok_def save_cert_def bt_get_insert)
qed

lemma write_all_ok [keeps]:
  "collision_free H U \<Longrightarrow> store_ok H U s \<Longrightarrow> \<forall>c \<in> set certs. sealed H U c \<Longrightarrow> store_ok H U (write_all H certs s)"
  by (induction certs arbitrary: s) (auto simp: write_all_def intro: save_cert_ok)

lemma index_ok_remove:
  assumes ok: "index_ok H U t ix" and d: "bt_get t d = Some c"
  shows "index_ok H U (bt_remove d t) (bt_remove (origin c, c_round c) ix)"
proof -
  note o = index_okD [OF ok]
  have entry: "\<exists>x. ((bt_get t)(d := None)) d' = Some x \<and> origin x = a \<and> c_round x = r"
    if i: "((bt_get ix)((origin c, c_round c) := None)) (a, r) = Some d'" for a r d'
  proof -
    from i have ne: "(a, r) \<noteq> (origin c, c_round c)" and "bt_get ix (a, r) = Some d'" by (auto split: if_splits)
    from o(4) [OF this(2)] obtain x where x: "bt_get t d' = Some x" "origin x = a" "c_round x = r" by auto
    with ne d have "d' \<noteq> d" by auto
    with x show ?thesis by simp
  qed
  have body: "cert_digest H x = d' \<and> sealed H U x" if "((bt_get t)(d := None)) d' = Some x" for d' x
    using that o(3) [of d' x] by (cases "d' = d") simp_all
  show ?thesis using o(1,2) body entry by (simp only: index_ok_def bt_get_remove bt_invs) blast
qed

lemma store_delete_ok [keeps]:
  assumes ok: "store_ok H U s"
  shows "store_ok H U (store_delete d s)"
proof (cases "bt_get (certificates_table s) d")
  case None
  then show ?thesis using ok by (simp add: store_delete_def store_read_def)
next
  case (Some c)
  have ix: "index_ok H U (certificates_table s) (digest_by_origin s)" using ok by (simp add: store_ok_def)
  show ?thesis using ok Some index_ok_remove [OF ix Some]
    by (simp add: store_delete_def store_read_def store_ok_def bt_get_remove bt_inv_remove)
qed

lemma store_clear_ok [keeps]: "store_ok H U s \<Longrightarrow> store_ok H U (store_clear s)"
  by (auto simp: store_ok_def store_clear_def index_ok_def)

section \<open>Queries\<close>

text \<open>The certificates that the round index names.\<close>

definition indexed :: "cert_store \<Rightarrow> certificate set" where
  "indexed s = {c. \<exists>d. bt_get (digest_by_round s) (c_round c, origin c) = Some d \<and> bt_get (certificates_table s) d = Some c}"

lemma round_entry:
  assumes "store_ok H U s" "((r, a), d) \<in> set (digest_by_round s)"
  shows "\<exists>c. store_read s d = Some c \<and> c_round c = r \<and> origin c = a \<and> cert_digest H c = d \<and> c \<in> indexed s"
proof -
  note o = store_okD [OF assms(1)] and ix = store_okD(1) [OF assms(1)]
  have g: "bt_get (digest_by_round s) (r, a) = Some d" using assms(2) o(3) by (simp add: bt_get_iff)
  then have "bt_get (digest_by_origin s) (a, r) = Some d" by (simp add: o(4))
  from index_okD(4) [OF ix this] obtain c where "bt_get (certificates_table s) d = Some c" "origin c = a" "c_round c = r"
    by auto
  with g index_okD(3) [OF ix] show ?thesis by (intro exI [of _ c]) (simp add: store_read_def indexed_def)
qed

lemma bodies_Inr:
  "\<forall>d \<in> set ds. store_read s d \<noteq> None \<Longrightarrow> bodies s ds = Inr (map (\<lambda>d. the (store_read s d)) ds)"
  by (induction ds) auto

text \<open>The bodies of any part of the round index.\<close>

lemma bodies_rows:
  assumes ok: "store_ok H U s" and rows: "set rows \<subseteq> set (digest_by_round s)"
  shows "\<exists>certs. bodies s (map snd rows) = Inr certs
    \<and> map (\<lambda>c. ((c_round c, origin c), cert_digest H c)) certs = rows \<and> set certs \<subseteq> indexed s"
proof -
  let ?get = "\<lambda>d. the (store_read s d)"
  have e: "store_read s d \<noteq> None \<and> c_round (?get d) = r \<and> origin (?get d) = a \<and> cert_digest H (?get d) = d
      \<and> ?get d \<in> indexed s"
    if "((r, a), d) \<in> set rows" for r a d using round_entry [OF ok subsetD [OF rows that]] by auto
  have "bodies s (map snd rows) = Inr (map ?get (map snd rows))"
    using e by (intro bodies_Inr) auto
  moreover have "map (\<lambda>c. ((c_round c, origin c), cert_digest H c)) (map ?get (map snd rows)) = rows"
    using e by (auto intro!: map_idI)
  moreover have "set (map ?get (map snd rows)) \<subseteq> indexed s" using e by auto
  ultimately show ?thesis by blast
qed

lemma indexedD:
  assumes ok: "store_ok H U s" and c: "c \<in> indexed s"
  shows "bt_get (digest_by_round s) (c_round c, origin c) = Some (cert_digest H c)"
    "bt_get (certificates_table s) (cert_digest H c) = Some c"
proof -
  from c obtain d where d: "bt_get (digest_by_round s) (c_round c, origin c) = Some d"
    "bt_get (certificates_table s) d = Some c" by (auto simp: indexed_def)
  have eq: "cert_digest H c = d" using index_okD(3) [OF store_okD(1) [OF ok] d(2)] by (rule conjunct1)
  show "bt_get (digest_by_round s) (c_round c, origin c) = Some (cert_digest H c)"
    "bt_get (certificates_table s) (cert_digest H c) = Some c" unfolding eq by (fact d)+
qed

text \<open>A certificate of the index is in the answer exactly when its row is among the rows read.\<close>

lemma answer_rows:
  assumes ok: "store_ok H U s" and sub: "set certs \<subseteq> indexed s"
    and rows: "map (\<lambda>c. ((c_round c, origin c), cert_digest H c)) certs = rows"
  shows "set certs = {c \<in> indexed s. ((c_round c, origin c), cert_digest H c) \<in> set rows}"
proof -
  let ?key = "\<lambda>c. ((c_round c, origin c), cert_digest H c)"
  have set_rows: "set rows = ?key ` set certs" using rows by auto
  have inj: "c = c'" if "c \<in> indexed s" "c' \<in> indexed s" "?key c = ?key c'" for c c'
  proof -
    have "cert_digest H c = cert_digest H c'" using that(3) by simp
    with indexedD(2) [OF ok that(1)] indexedD(2) [OF ok that(2)] have "Some c = Some c'" by (simp only:)
    then show ?thesis by simp
  qed
  show ?thesis unfolding set_rows
  proof (intro equalityI subsetI CollectI conjI)
    fix c assume c: "c \<in> set certs"
    from c sub show "c \<in> indexed s" by (rule subsetD [rotated])
    from c show "?key c \<in> ?key ` set certs" by (rule imageI)
  next
    fix c assume c: "c \<in> {c \<in> indexed s. ?key c \<in> ?key ` set certs}"
    then obtain c' where c': "c' \<in> set certs" "?key c = ?key c'" by (simp only: mem_Collect_eq image_iff) (elim conjE bexE)
    have "c = c'" using c c' sub by (intro inj) (simp_all only: mem_Collect_eq subsetD)
    with c' show "c \<in> set certs" by simp
  qed
qed

lemma row_of_indexed:
  "store_ok H U s \<Longrightarrow> c \<in> indexed s \<Longrightarrow> ((c_round c, origin c), cert_digest H c) \<in> set (digest_by_round s)"
  by (rule bt_get_set) (rule indexedD(1))

lemma rows_from_filter:
  assumes "bt_inv (digest_by_round s)"
  shows "filter (\<lambda>((j, _), _). r \<le> j) (rows_from s r) = filter (\<lambda>((j, _), _). r \<le> j) (digest_by_round s)"
proof -
  have *: "r \<le> fst (fst x) \<and> (r - 1, 0) \<le> fst x \<longleftrightarrow> r \<le> fst (fst x)" if "0 < r" for x :: "(nat \<times> nat) \<times> digest"
    using that by (cases x) (auto simp: less_eq_prod_def)
  show ?thesis using assms * by (auto simp: rows_from_def skip_to_filter case_prod_beta intro!: filter_cong)
qed

lemma sorted_rounds:
  assumes "bt_inv m" "map (\<lambda>c. ((f c, g c), h c)) certs = filter P (m :: (nat \<times> nat, 'v) btree)"
  shows "sorted (map f certs)"
proof -
  have "bt_inv (map (\<lambda>c. ((f c, g c), h c)) certs)" using bt_inv_filter [OF assms(1), of P] assms(2) by simp
  then have "sorted_wrt (\<lambda>c c'. (f c, g c) < (f c', g c')) certs" by (simp add: bt_inv_def sorted_wrt_map)
  then have "sorted_wrt (\<lambda>c c'. f c \<le> f c') certs" by (rule sorted_wrt_mono_rel [rotated]) (auto simp: less_prod_def)
  then show ?thesis by (simp add: sorted_map)
qed

lemma after_round_indexed:
  assumes ok: "store_ok H U s"
  shows "\<exists>certs. after_round s r = Inr certs \<and> set certs = {c \<in> indexed s. r \<le> c_round c} \<and> sorted (map c_round certs)"
proof -
  let ?rows = "filter (\<lambda>((j, _), _). r \<le> j) (digest_by_round s)"
  obtain certs where c: "bodies s (map snd ?rows) = Inr certs"
    "map (\<lambda>c. ((c_round c, origin c), cert_digest H c)) certs = ?rows" "set certs \<subseteq> indexed s"
    using bodies_rows [OF ok, of ?rows] by (auto simp: subset_iff)
  have "set certs = {c \<in> indexed s. ((c_round c, origin c), cert_digest H c) \<in> set ?rows}"
    by (rule answer_rows [OF ok c(3,2)])
  also have "\<dots> = {c \<in> indexed s. r \<le> c_round c}" using row_of_indexed [OF ok] by auto
  finally show ?thesis
    using c(1) sorted_rounds [OF store_okD(3) [OF ok] c(2)] rows_from_filter [OF store_okD(3) [OF ok], of r]
    by (auto simp: after_round_def)
qed

lemma two_rounds_set:
  "0 < r \<Longrightarrow> sorted_wrt (\<lambda>x y. fst (fst y) \<le> fst (fst x)) rows \<Longrightarrow>
   two_rounds r rows = map snd (filter (\<lambda>((j, _), _). r - 1 \<le> j) rows)"
  by (induction r rows rule: two_rounds.induct) (auto simp: filter_empty_conv)

lemma rev_rounds:
  assumes "bt_inv m"
  shows "sorted_wrt (\<lambda>x y. fst (fst y) \<le> fst (fst x)) (rev (m :: (nat \<times> nat, 'v) btree))"
proof -
  have "sorted_wrt (\<lambda>x y. fst (fst x) \<le> fst (fst y)) m"
    by (rule sorted_wrt_mono_rel [OF _ bt_inv_sorted [OF assms]]) (auto simp: less_prod_def)
  then show ?thesis by (simp add: sorted_wrt_rev)
qed

lemma two_rounds_unset:
  assumes inv: "bt_inv m" and pos: "\<forall>e \<in> set m. 0 < fst (fst e)"
  shows "two_rounds 0 (rev m) =
    (case last_record m of None \<Rightarrow> [] | Some ((h, _), _) \<Rightarrow> map snd (filter (\<lambda>((j, _), _). h - 1 \<le> j) (rev m)))"
proof (cases "rev m")
  case Nil
  then show ?thesis by (simp add: last_record_def)
next
  case (Cons e rows)
  obtain h a d where e: "e = ((h, a), d)" by (cases e) auto
  have "last m = e" using Cons by (metis hd_rev list.sel(1))
  moreover have "0 < h" using pos Cons e by (metis fst_conv list.set_intros(1) set_rev)
  ultimately show ?thesis
    using Cons e rev_rounds [OF inv] two_rounds_set [of h rows]
    by (auto simp: last_record_def)
qed

lemma highest_round:
  assumes "bt_inv (digest_by_round s)" "last_record (digest_by_round s) = Some ((h, a), d)"
  shows "highest_round_number s = h \<and> (\<forall>e \<in> set (digest_by_round s). fst (fst e) \<le> h)"
  using last_record_greatest [OF assms] assms(2)
  by (auto simp: highest_round_number_def less_eq_prod_def)

lemma last_two_indexed:
  assumes ok: "store_ok H U s" and pos: "\<forall>c \<in> indexed s. 0 < c_round c"
  shows "\<exists>certs. last_two_rounds_certs s = Inr certs
    \<and> set certs = {c \<in> indexed s. highest_round_number s \<le> c_round c + 1}"
proof (cases "last_record (digest_by_round s)")
  case None
  then have empty: "digest_by_round s = []" by (simp add: last_record_def split: if_splits)
  then have "indexed s = {}" by (simp add: indexed_def)
  with empty show ?thesis by (simp add: last_two_rounds_certs_def)
next
  case (Some e)
  obtain h a d where e: "e = ((h, a), d)" by (cases e) auto
  note inv = store_okD(3) [OF ok] and hi = highest_round [OF store_okD(3) [OF ok] Some [unfolded e]]
  have pos': "\<forall>e \<in> set (digest_by_round s). 0 < fst (fst e)"
  proof
    fix x assume x: "x \<in> set (digest_by_round s)"
    obtain r b d' where "x = ((r, b), d')" by (cases x) auto
    with round_entry [OF ok, of r b d'] x pos show "0 < fst (fst x)" by auto
  qed
  let ?rows = "filter (\<lambda>((j, _), _). h - 1 \<le> j) (rev (digest_by_round s))"
  obtain certs where c: "bodies s (map snd ?rows) = Inr certs"
    "map (\<lambda>c. ((c_round c, origin c), cert_digest H c)) certs = ?rows" "set certs \<subseteq> indexed s"
    using bodies_rows [OF ok, of ?rows] by (auto simp: subset_iff)
  have "set certs = {c \<in> indexed s. ((c_round c, origin c), cert_digest H c) \<in> set ?rows}"
    by (rule answer_rows [OF ok c(3,2)])
  also have "\<dots> = {c \<in> indexed s. highest_round_number s \<le> c_round c + 1}"
    using row_of_indexed [OF ok] hi by auto
  finally show ?thesis
    using c(1) two_rounds_unset [OF inv pos'] Some e by (simp add: last_two_rounds_certs_def)
qed

lemma least_above_iff:
  fixes k j r :: nat
  assumes "P k" "r < k" "\<And>i. P i \<Longrightarrow> r < i \<Longrightarrow> k \<le> i"
  shows "k = j \<longleftrightarrow> r < j \<and> P j \<and> (\<forall>i. r < i \<and> i < j \<longrightarrow> \<not> P i)"
proof
  assume "k = j"
  with assms show "r < j \<and> P j \<and> (\<forall>i. r < i \<and> i < j \<longrightarrow> \<not> P i)" by (auto simp: not_less dest: leD)
next
  assume j: "r < j \<and> P j \<and> (\<forall>i. r < i \<and> i < j \<longrightarrow> \<not> P i)"
  with assms(3) have "k \<le> j" by simp
  moreover from j assms(1,2) have "\<not> k < j" by auto
  ultimately show "k = j" by simp
qed

text \<open>Stepping to the next round of an origin finds the least one above.\<close>

lemma next_in_least:
  assumes inv: "bt_inv m" and r: "r \<noteq> round_max"
  shows "next_in m a r = Some j \<longleftrightarrow> r < j \<and> bt_get m (a, j) \<noteq> None \<and> (\<forall>i. r < i \<and> i < j \<longrightarrow> bt_get m (a, i) = None)"
proof (cases "skip_to (a, r + 1) m")
  case Nil
  have "bt_get m (a, i) = None" if "r < i" for i
    using Nil that inv by (force simp: skip_to_filter filter_empty_conv bt_get_None_iff less_eq_prod_def)
  with Nil r show ?thesis by (auto simp: next_in_def)
next
  case (Cons e rows)
  obtain b k d where e: "e = ((b, k), d)" by (cases e) auto
  have f: "filter (\<lambda>(j, _). (a, r + 1) \<le> j) m = ((b, k), d) # rows" using Cons e skip_to_filter [OF inv] by simp
  then have mem: "((b, k), d) \<in> set m" "(a, r + 1) \<le> (b, k)" by (auto dest: filter_eq_ConsD)
  have least: "(b, k) \<le> (a, i)" if "bt_get m (a, i) \<noteq> None" "r < i" for i
  proof -
    from that(1) obtain v where v: "((a, i), v) \<in> set m" using bt_get_set by (metis not_Some_eq)
    with that(2) have "((a, i), v) \<in> set (((b, k), d) # rows)" unfolding f [symmetric] by (simp add: less_eq_prod_def)
    moreover have "bt_inv (((b, k), d) # rows)" using bt_inv_filter [OF inv] f by metis
    ultimately show ?thesis by (auto simp: bt_inv_Cons less_imp_le)
  qed
  have get: "bt_get m (b, k) \<noteq> None" using mem(1) inv by (simp flip: bt_get_iff)
  have nx: "next_in m a r = (if b = a then Some k else None)" using Cons e r by (simp add: next_in_def)
  show ?thesis
  proof (cases "b = a")
    case True
    have "k = j \<longleftrightarrow> r < j \<and> bt_get m (a, j) \<noteq> None \<and> (\<forall>i. r < i \<and> i < j \<longrightarrow> \<not> bt_get m (a, i) \<noteq> None)"
      using True get mem(2) least by (intro least_above_iff) (auto simp: less_eq_prod_def)
    with True nx show ?thesis by simp
  next
    case False
    have "bt_get m (a, i) = None" if "r < i" for i
      using least [OF _ that] False mem(2) by (cases "bt_get m (a, i)") (auto simp: less_eq_prod_def)
    with False nx show ?thesis by auto
  qed
qed

text \<open>The tail of the closing epoch.\<close>

lemma map_of_fixed:
  assumes "\<And>k v. (k, v) \<in> set kvs \<Longrightarrow> f k = Some v"
  shows "map_of kvs k = (if k \<in> fst ` set kvs then f k else None)"
proof (cases "map_of kvs k")
  case None
  then show ?thesis by (simp add: map_of_eq_None_iff)
next
  case (Some v)
  then have "(k, v) \<in> set kvs" by (rule map_of_SomeD)
  with assms [OF this] Some show ?thesis by force
qed

lemma takeWhile_rounds:
  "sorted_wrt (\<lambda>x y. fst (fst y) \<le> fst (fst x)) rows \<Longrightarrow>
   takeWhile (\<lambda>((j, _), _). h \<le> j) rows = filter (\<lambda>((j, _), _). h \<le> j) (rows :: ((nat \<times> 'b) \<times> 'c) list)"
  by (induction rows) (force intro!: filter_False [symmetric])+

lemma set_map_filter_iff: "y \<in> set (List.map_filter f xs) \<longleftrightarrow> (\<exists>x \<in> set xs. f x = Some y)"
  by (induction xs) (auto simp: List.map_filter_simps split: option.splits)

lemma live_tail_set:
  assumes ok: "store_ok H U s" and "0 < keep"
  shows "set (live_tail s keep) =
    {(r, a, d, c). bt_get (digest_by_round s) (r, a) = Some d \<and> bt_get (certificates_table s) d = Some c
       \<and> highest_round_number s < r + keep}"
proof (cases "last_record (digest_by_round s)")
  case None
  then show ?thesis by (simp add: live_tail_def last_record_def split: if_splits)
next
  case (Some e)
  obtain h b d0 where e: "e = ((h, b), d0)" by (cases e) auto
  note inv = store_okD(3) [OF ok] and hi = highest_round [OF store_okD(3) [OF ok] Some [unfolded e]]
  have "live_tail s keep = List.map_filter (\<lambda>((r, a), d). map_option (\<lambda>cert. (r, a, d, cert)) (store_read s d))
      (filter (\<lambda>((j, _), _). h - (keep - 1) \<le> j) (rev (digest_by_round s)))"
    using assms(2) Some e takeWhile_rounds [OF rev_rounds [OF inv]] by (simp add: live_tail_def)
  then have "x \<in> set (live_tail s keep) \<longleftrightarrow> (\<exists>r a d c. x = (r, a, d, c) \<and> ((r, a), d) \<in> set (digest_by_round s)
      \<and> h - (keep - 1) \<le> r \<and> bt_get (certificates_table s) d = Some c)" for x
    by (auto simp: set_map_filter_iff store_read_def)
  then show ?thesis using hi assms(2) by (auto simp: bt_get_iff [OF inv])
qed

lemma write_tail_tables:
  "prev_certificates (write_prev_epoch_tail tail s) = bt_collect (map (\<lambda>(r, a, d, c). (d, c)) tail)"
  "prev_by_origin (write_prev_epoch_tail tail s) = bt_collect (map (\<lambda>(r, a, d, c). ((a, r), d)) tail)"
  "certificates_table (write_prev_epoch_tail tail s) = certificates_table s"
  "digest_by_round (write_prev_epoch_tail tail s) = digest_by_round s"
  "digest_by_origin (write_prev_epoch_tail tail s) = digest_by_origin s"
proof -
  let ?f = "\<lambda>(r, a, d, c) t. t\<lparr>prev_certificates := bt_insert d c (prev_certificates t),
               prev_by_origin := bt_insert (a, r) d (prev_by_origin t)\<rparr>"
  have "prev_certificates (fold ?f tail t) = fold (\<lambda>(k, v). bt_insert k v) (map (\<lambda>(r, a, d, c). (d, c)) tail) (prev_certificates t)
    \<and> prev_by_origin (fold ?f tail t) = fold (\<lambda>(k, v). bt_insert k v) (map (\<lambda>(r, a, d, c). ((a, r), d)) tail) (prev_by_origin t)
    \<and> certificates_table (fold ?f tail t) = certificates_table t
    \<and> digest_by_round (fold ?f tail t) = digest_by_round t
    \<and> digest_by_origin (fold ?f tail t) = digest_by_origin t" for t :: cert_store
    by (induction tail arbitrary: t) auto
  then show
    "prev_certificates (write_prev_epoch_tail tail s) = bt_collect (map (\<lambda>(r, a, d, c). (d, c)) tail)"
    "prev_by_origin (write_prev_epoch_tail tail s) = bt_collect (map (\<lambda>(r, a, d, c). ((a, r), d)) tail)"
    "certificates_table (write_prev_epoch_tail tail s) = certificates_table s"
    "digest_by_round (write_prev_epoch_tail tail s) = digest_by_round s"
    "digest_by_origin (write_prev_epoch_tail tail s) = digest_by_origin s"
    by (simp_all add: write_prev_epoch_tail_def bt_collect_def)
qed

lemma tail_reads:
  assumes ok: "store_ok H U s" and keep: "0 < keep"
  defines "s' \<equiv> write_prev_epoch_tail (live_tail s keep) s"
  shows "bt_get (prev_by_origin s') (a, r) =
      (if highest_round_number s < r + keep then bt_get (digest_by_origin s) (a, r) else None)"
    "bt_get (prev_by_origin s') (a, r) = Some d \<Longrightarrow> bt_get (prev_certificates s') d = bt_get (certificates_table s) d"
proof -
  note o = store_okD [OF ok] and ix = index_okD [OF store_okD(1) [OF ok]]
  let ?t = "live_tail s keep"
  let ?ix = "rev (map (\<lambda>(r, a, d, c). ((a, r), d)) ?t)" and ?bd = "rev (map (\<lambda>(r, a, d, c). (d, c)) ?t)"
  note t = live_tail_set [OF ok keep]
  have "map_of ?ix (a, r) = (if (a, r) \<in> fst ` set ?ix then bt_get (digest_by_origin s) (a, r) else None)"
    by (rule map_of_fixed) (auto simp: t o(4))
  moreover have "(a, r) \<in> fst ` set ?ix \<longleftrightarrow> highest_round_number s < r + keep \<and> bt_get (digest_by_origin s) (a, r) \<noteq> None"
    using ix(4) [of a r] by (force simp: t o(4) image_iff)
  ultimately show e1: "bt_get (prev_by_origin s') (a, r) =
      (if highest_round_number s < r + keep then bt_get (digest_by_origin s) (a, r) else None)"
    by (auto simp: s'_def write_tail_tables bt_get_collect)
  have "map_of ?bd d = (if d \<in> fst ` set ?bd then bt_get (certificates_table s) d else None)"
    by (rule map_of_fixed) (auto simp: t)
  moreover have "d \<in> fst ` set ?bd" if "bt_get (prev_by_origin s') (a, r) = Some d"
    using that ix(4) [of a r d] unfolding e1 by (force simp: t o(4) image_iff split: if_splits)
  ultimately show "bt_get (prev_by_origin s') (a, r) = Some d \<Longrightarrow> bt_get (prev_certificates s') d = bt_get (certificates_table s) d"
    by (auto simp: s'_def write_tail_tables bt_get_collect)
qed

lemma tail_bodies:
  assumes ok: "store_ok H U s" and keep: "0 < keep"
    and "bt_get (prev_certificates (write_prev_epoch_tail (live_tail s keep) s)) d = Some c"
  shows "bt_get (certificates_table s) d = Some c"
  using assms(3) by (auto simp: write_tail_tables bt_get_collect live_tail_set [OF ok keep] dest!: map_of_SomeD)

lemma write_tail_ok [keeps]:
  assumes ok: "store_ok H U s" and keep: "0 < keep"
  shows "store_ok H U (write_prev_epoch_tail (live_tail s keep) s)"
proof -
  let ?s = "write_prev_epoch_tail (live_tail s keep) s"
  note o = store_okD [OF ok] and ix = index_okD [OF store_okD(1) [OF ok]] and tr = tail_reads [OF ok keep]
  have body: "cert_digest H c = d \<and> sealed H U c" if "bt_get (prev_certificates ?s) d = Some c" for d c
    by (rule ix(3) [OF tail_bodies [OF ok keep that]])
  have entry: "\<exists>c. bt_get (prev_certificates ?s) d = Some c \<and> origin c = a \<and> c_round c = r"
    if i: "bt_get (prev_by_origin ?s) (a, r) = Some d" for a r d
  proof -
    have "bt_get (digest_by_origin s) (a, r) = Some d" using i tr(1) [of a r] by (simp split: if_splits)
    from ix(4) [OF this] tr(2) [OF i] show ?thesis by simp
  qed
  have inv: "bt_inv (prev_certificates ?s)" "bt_inv (prev_by_origin ?s)" by (simp_all add: write_tail_tables)
  have "index_ok H U (prev_certificates ?s) (prev_by_origin ?s)"
    unfolding index_ok_def using inv entry body by (intro conjI allI impI) simp_all
  with o show ?thesis by (simp only: store_ok_def write_tail_tables(3-5)) simp
qed

section \<open>Properties\<close>

definition ex_store :: cert_store where
  "ex_store = write_all ex_hash [ex_cert 1 1, ex_cert 1 2, ex_cert 2 1, ex_cert 3 2] store_empty"

lemma ex_store_ok: "store_ok ex_hash ex_wires ex_store"
  unfolding ex_store_def
  by (rule write_all_ok [OF ex_collision_free store_empty_ok]) (simp add: ex_sealed)

lemma ex_store_tables:
  "certificates_table ex_store = [(101, ex_cert 1 1), (102, ex_cert 1 2), (201, ex_cert 2 1), (302, ex_cert 3 2)]"
  "digest_by_round ex_store = [((1, 1), 101), ((1, 2), 102), ((2, 1), 201), ((3, 2), 302)]"
  "digest_by_origin ex_store = [((1, 1), 101), ((1, 2), 201), ((2, 1), 102), ((2, 3), 302)]"
  by (simp_all add: ex_store_def write_all_def save_cert_def store_empty_def)

text \<open>C23. Writing and deleting certificates, and keeping the tail of an epoch across the clear, keep
  the tables consistent: bodies under their digests, the two indexes transposes of each other, and
  a body of the right round and origin behind every index entry.\<close>

theorem store_consistent:
  assumes "collision_free H U" "store_ok H U s" "\<forall>c \<in> set certs. sealed H U c" "0 < keep"
  shows "store_ok H U (write_all H certs s) \<and> store_ok H U (store_delete d s)
    \<and> store_ok H U (store_clear (write_prev_epoch_tail (live_tail s keep) s))"
  using assms by (simp add: write_all_ok store_delete_ok store_clear_ok write_tail_ok)

theorem store_consistent_witness:
  "store_ok ex_hash ex_wires (write_all ex_hash [ex_cert 4 3] ex_store)
   \<and> store_ok ex_hash ex_wires (store_delete 201 ex_store)
   \<and> store_ok ex_hash ex_wires (store_clear (write_prev_epoch_tail (live_tail ex_store 2) ex_store))"
  by (rule store_consistent [OF ex_collision_free ex_store_ok]) (simp_all add: ex_sealed)



text \<open>C25. Looking for the next round of an origin above a given one, in the live tables or in the
  kept tail, finds the least such round; at the top of the round range it finds none and does not
  overflow.\<close>

theorem next_round_least:
  assumes "store_ok H U s"
  shows "next_round_number_in s scope a r = Some j \<longleftrightarrow>
      r \<noteq> round_max \<and> r < j \<and> read_by_index_in s scope a j \<noteq> None
      \<and> (\<forall>i. r < i \<and> i < j \<longrightarrow> read_by_index_in s scope a i = None)"
proof -
  have live: "read_by_index_in s CurrentEpoch a i = None \<longleftrightarrow> bt_get (digest_by_origin s) (a, i) = None" for i
    using index_okD(4) [OF store_okD(1) [OF assms], of a i]
    by (auto simp: read_by_index_in_def read_by_index_def store_read_def split: option.splits)
  have prev: "read_by_index_in s PrevEpoch a i = None \<longleftrightarrow> bt_get (prev_by_origin s) (a, i) = None" for i
    using index_okD(4) [OF store_okD(2) [OF assms], of a i]
    by (auto simp: read_by_index_in_def split: option.splits)
  have "next_in m a r = Some j \<longleftrightarrow> r \<noteq> round_max \<and> r < j \<and> bt_get m (a, j) \<noteq> None
      \<and> (\<forall>i. r < i \<and> i < j \<longrightarrow> bt_get m (a, i) = None)" if "bt_inv m" for m
    using next_in_least [OF that, of r a j] by (cases "r = round_max") (simp_all add: next_in_def)
  then show ?thesis
    using index_okD(2) [OF store_okD(1) [OF assms]] index_okD(2) [OF store_okD(2) [OF assms]]
    by (cases scope) (simp_all only: live prev next_round_number_in_def next_round_number_def cert_scope.case)
qed

theorem next_round_least_witness:
  "next_round_number_in ex_store CurrentEpoch 1 1 = Some 2
   \<and> read_by_index_in ex_store CurrentEpoch 1 2 \<noteq> None"
proof -
  have "next_round_number_in ex_store CurrentEpoch 1 1 = Some 2"
    by (simp add: next_round_number_in_def next_round_number_def next_in_def round_max_def skip_to_def ex_store_tables less_prod_def)
  then show ?thesis using next_round_least [OF ex_store_ok, of CurrentEpoch 1 1 2] by simp
qed

text \<open>C26. After the tail is written and the live tables are cleared, a read in the previous epoch
  answers as the live tables did for the last \<open>keep\<close> rounds and finds nothing below them, and the
  live tables are empty.\<close>

theorem tail_survives_clear:
  assumes "store_ok H U s" "0 < keep"
  defines "s' \<equiv> store_clear (write_prev_epoch_tail (live_tail s keep) s)"
  shows "read_by_index_in s' PrevEpoch a r =
      (if highest_round_number s < r + keep then read_by_index s a r else None)
    \<and> is_empty_certs s' \<and> read_by_index s' a r = None"
proof -
  let ?t = "write_prev_epoch_tail (live_tail s keep) s"
  note tr = tail_reads [OF assms(1,2), of a r]
  have "read_by_index_in ?t PrevEpoch a r = (if highest_round_number s < r + keep then read_by_index s a r else None)"
    using tr by (simp add: read_by_index_in_def read_by_index_def store_read_def split: option.splits)
  moreover have "prev_by_origin s' = prev_by_origin ?t" "prev_certificates s' = prev_certificates ?t"
    "certificates_table s' = []" "digest_by_origin s' = []"
    by (simp_all add: s'_def store_clear_def)
  then have "read_by_index_in s' PrevEpoch a r = read_by_index_in ?t PrevEpoch a r" "is_empty_certs s'" "read_by_index s' a r = None"
    by (simp_all only: read_by_index_in_def read_by_index_def is_empty_certs_def bt_get_Nil option.case cert_scope.case)
  ultimately show ?thesis by (simp only:)
qed

theorem tail_survives_clear_witness:
  "read_by_index_in (store_clear (write_prev_epoch_tail (live_tail ex_store 2) ex_store)) PrevEpoch 1 2 = Some (ex_cert 2 1)
   \<and> read_by_index_in (store_clear (write_prev_epoch_tail (live_tail ex_store 2) ex_store)) PrevEpoch 1 1 = None"
  using tail_survives_clear [OF ex_store_ok, of 2 1 2] tail_survives_clear [OF ex_store_ok, of 2 1 1]
  by (simp add: highest_round_number_def last_record_def ex_store_tables read_by_index_def store_read_def bt_get_def)

end
