(* ===== verification/Aggregators.thy ===== *)
theory Aggregators
  imports Certificates
begin

text \<open>
  Collecting votes and certificates: the generic \<open>VotesAggregator\<close>
  (\<open>crates/infrastructure/types/src/aggregator.rs\<close>), the \<open>HeaderVotesAggregator\<close> that turns a
  quorum of votes into a certificate and the \<open>CertificatesAggregatorManager\<close> that hands a quorum
  of parents to the proposer (\<open>crates/consensus/primary/src/aggregators\<close>). The verification of one
  signature is the parameter \<open>verify_one\<close>.
\<close>

section \<open>The generic aggregator\<close>

record 'v votes_aggregator =
  agg_seen :: "auth_id set"
  agg_votes :: "'v list"
  agg_weight :: voting_power
  agg_threshold :: voting_power

datatype aggregator_error = DuplicateVote auth_id

definition votes_aggregator_new :: "voting_power \<Rightarrow> 'v votes_aggregator" where
  "votes_aggregator_new threshold =
     \<lparr>agg_seen = {}, agg_votes = [], agg_weight = 0, agg_threshold = threshold\<rparr>"

definition votes_aggregator_append ::
  "('v \<Rightarrow> auth_id) \<Rightarrow> 'v \<Rightarrow> voting_power \<Rightarrow> 'v votes_aggregator \<Rightarrow>
   'v votes_aggregator \<times> (aggregator_error + bool)" where
  "votes_aggregator_append voter_id v weight agg =
     (if voter_id v \<in> agg_seen agg then (agg, Inl (DuplicateVote (voter_id v)))
      else let agg' = agg\<lparr>agg_seen := insert (voter_id v) (agg_seen agg),
                          agg_weight := agg_weight agg + weight, agg_votes := agg_votes agg @ [v]\<rparr>
      in (agg', Inr (agg_weight agg' \<ge> agg_threshold agg')))"

section \<open>Votes for a header\<close>

record header_votes =
  hv_inner :: "vote votes_aggregator"
  verified_votes :: "(auth_id \<times> signature) list"

definition header_votes_new :: "committee \<Rightarrow> header_votes" where
  "header_votes_new c =
     \<lparr>hv_inner = votes_aggregator_new (quorum_threshold c), verified_votes = []\<rparr>"

type_synonym verify_one_fun = "signature \<Rightarrow> digest \<Rightarrow> bls_key \<Rightarrow> bool"

definition header_votes_append ::
  "hash_fun \<Rightarrow> verify_one_fun \<Rightarrow> (signature list \<Rightarrow> signature option) \<Rightarrow> timestamp \<Rightarrow> committee \<Rightarrow>
   header \<Rightarrow> vote \<Rightarrow> header_votes \<Rightarrow> header_votes \<times> (dag_error + certificate option)" where
  "header_votes_append H verify_one aggregate now c h v hv =
     (let voter = vote_author v in
      if vote_header_digest v \<noteq> header_digest H h then (hv, Inl DagInvalidHeaderDigest)
      else case authority c voter of
        None \<Rightarrow> (hv, Inl (DagUnknownAuthority voter))
      | Some auth \<Rightarrow>
          if \<not> verify_one (vote_signature v) (vote_header_digest v) (protocol_key auth)
          then (hv, Inl DagInvalidSignature)
          else (case votes_aggregator_append vote_author v (voting_power_by_id c voter) (hv_inner hv) of
                  (_, Inl _) \<Rightarrow> (hv, Inl (AuthorityReuse voter))
                | (inner', Inr quorum) \<Rightarrow>
                    (let hv' = \<lparr>hv_inner = inner',
                               verified_votes = verified_votes hv @ [(voter, vote_signature v)]\<rparr>
                     in if \<not> quorum then (hv', Inr None)
                        else (case new_unverified aggregate now c h (verified_votes hv') of
                                Inl e \<Rightarrow> (hv', Inl e)
                              | Inr cert \<Rightarrow>
                                  (case aggregated_signature cert of
                                     None \<Rightarrow> (hv', Inl DagInvalidSignature)
                                   | Some s \<Rightarrow>
                                       (hv', Inr (Some (cert\<lparr>signature_verification_state :=
                                                             VerifiedDirectly s\<rparr>))))))))"

section \<open>Certificates of a round\<close>

record certificates_aggregator =
  ca_weight :: voting_power
  ca_certificates :: "certificate list"
  authorities_seen :: "auth_id set"

definition certificates_aggregator_new :: certificates_aggregator where
  "certificates_aggregator_new = \<lparr>ca_weight = 0, ca_certificates = [], authorities_seen = {}\<rparr>"

definition certificates_aggregator_append ::
  "committee \<Rightarrow> certificate \<Rightarrow> certificates_aggregator \<Rightarrow>
   certificates_aggregator \<times> certificate list option" where
  "certificates_aggregator_append c cert ca =
     (if origin cert \<in> authorities_seen ca then (ca, None)
      else let ca' = ca\<lparr>authorities_seen := insert (origin cert) (authorities_seen ca),
                        ca_certificates := ca_certificates ca @ [cert],
                        ca_weight := ca_weight ca + voting_power_by_id c (origin cert)\<rparr>
      in if ca_weight ca' \<ge> quorum_threshold c
         then (ca'\<lparr>ca_certificates := []\<rparr>, Some (ca_certificates ca'))
         else (ca', None))"

record aggregator_manager =
  aggregators :: "(round, certificates_aggregator) btree"
  am_gc_depth :: round

definition aggregator_manager_new :: "round \<Rightarrow> aggregator_manager" where
  "aggregator_manager_new depth = \<lparr>aggregators = [], am_gc_depth = depth\<rparr>"

text \<open>Popping the first entry while its round is not above the bound.\<close>

definition am_garbage_collect :: "round \<Rightarrow> aggregator_manager \<Rightarrow> aggregator_manager" where
  "am_garbage_collect gc m = m\<lparr>aggregators := dropWhile (\<lambda>(r, _). r \<le> gc) (aggregators m)\<rparr>"

definition am_proactive_gc :: "round \<Rightarrow> aggregator_manager \<Rightarrow> aggregator_manager" where
  "am_proactive_gc latest_round m =
     (if am_gc_depth m \<le> latest_round then am_garbage_collect (latest_round - am_gc_depth m) m else m)"

text \<open>Returns what is sent on the channel of parents, with its round.\<close>

definition append_certificate ::
  "committee \<Rightarrow> certificate \<Rightarrow> aggregator_manager \<Rightarrow>
   aggregator_manager \<times> (certificate list \<times> round) option" where
  "append_certificate c cert m =
     (let r = c_round cert;
          m1 = am_proactive_gc r m;
          ca = (case bt_get (aggregators m1) r of Some ca \<Rightarrow> ca | None \<Rightarrow> certificates_aggregator_new);
          (ca', quorum) = certificates_aggregator_append c cert ca
      in (m1\<lparr>aggregators := bt_insert r ca' (aggregators m1)\<rparr>,
          map_option (\<lambda>parents. (parents, r)) quorum))"

section \<open>Votes are counted once\<close>

definition header_votes_ok ::
  "hash_fun \<Rightarrow> verify_one_fun \<Rightarrow> committee \<Rightarrow> header \<Rightarrow> header_votes \<Rightarrow> bool" where
  "header_votes_ok H verify_one c h hv \<longleftrightarrow>
     agg_threshold (hv_inner hv) = quorum_threshold c
     \<and> agg_seen (hv_inner hv) = fst ` set (verified_votes hv)
     \<and> agg_seen (hv_inner hv) \<subseteq> members c
     \<and> distinct (map fst (verified_votes hv))
     \<and> agg_weight (hv_inner hv) = (\<Sum>i\<in>agg_seen (hv_inner hv). voting_power_by_id c i)
     \<and> (\<forall>(i, s)\<in>set (verified_votes hv). \<forall>a. authority c i = Some a \<longrightarrow>
          verify_one s (header_digest H h) (protocol_key a))"

lemma header_votes_new_ok [keeps]: "header_votes_ok H verify_one c h (header_votes_new c)"
  by (simp add: header_votes_ok_def header_votes_new_def votes_aggregator_new_def)

lemma header_votes_append_cases:
  assumes "header_votes_append H verify_one aggregate now c h v hv = (hv', res)"
  shows "hv' = hv \<and> (\<exists>e. res = Inl e)
    \<or> (\<exists>a. authority c (vote_author v) = Some a \<and> vote_author v \<notin> agg_seen (hv_inner hv)
        \<and> verify_one (vote_signature v) (header_digest H h) (protocol_key a)
        \<and> verified_votes hv' = verified_votes hv @ [(vote_author v, vote_signature v)]
        \<and> hv_inner hv' = (hv_inner hv)\<lparr>agg_seen := insert (vote_author v) (agg_seen (hv_inner hv)),
             agg_weight := agg_weight (hv_inner hv) + voting_power_by_id c (vote_author v),
             agg_votes := agg_votes (hv_inner hv) @ [v]\<rparr>)"
  using assms
  by (auto simp: header_votes_append_def votes_aggregator_append_def Let_def
      split: if_splits option.splits sum.splits)

lemma header_votes_append_ok [keeps]:
  assumes ok: "header_votes_ok H verify_one c h hv"
    and "header_votes_append H verify_one aggregate now c h v hv = (hv', res)"
  shows "header_votes_ok H verify_one c h hv'"
  using header_votes_append_cases [OF assms(2)]
proof (elim disjE exE conjE)
  fix a
  assume a: "authority c (vote_author v) = Some a" "vote_author v \<notin> agg_seen (hv_inner hv)"
    "verify_one (vote_signature v) (header_digest H h) (protocol_key a)"
    "verified_votes hv' = verified_votes hv @ [(vote_author v, vote_signature v)]"
    "hv_inner hv' = (hv_inner hv)\<lparr>agg_seen := insert (vote_author v) (agg_seen (hv_inner hv)),
       agg_weight := agg_weight (hv_inner hv) + voting_power_by_id c (vote_author v),
       agg_votes := agg_votes (hv_inner hv) @ [v]\<rparr>"
  have "finite (agg_seen (hv_inner hv))" using ok by (auto simp: header_votes_ok_def)
  with ok a authority_in_members [OF a(1)] show ?thesis
    by (auto simp: header_votes_ok_def)
qed (use ok in simp)

text \<open>A certificate comes out only when the distinct voters hold a quorum.\<close>

lemma header_votes_append_cert:
  assumes "header_votes_ok H verify_one c h hv"
    and "header_votes_append H verify_one aggregate now c h v hv = (hv', Inr (Some cert))"
  shows "quorum_threshold c \<le> (\<Sum>i\<in>fst ` set (verified_votes hv'). voting_power_by_id c i)"
    and "\<exists>cert0 s. new_unverified aggregate now c h (verified_votes hv') = Inr cert0
      \<and> aggregated_signature cert0 = Some s
      \<and> cert = cert0\<lparr>signature_verification_state := VerifiedDirectly s\<rparr>"
proof -
  have ok': "header_votes_ok H verify_one c h hv'" by (rule header_votes_append_ok [OF assms])
  have "agg_threshold (hv_inner hv') \<le> agg_weight (hv_inner hv')"
    using assms(2)
    by (auto simp: header_votes_append_def votes_aggregator_append_def Let_def
        split: if_splits option.splits sum.splits)
  with ok' show "quorum_threshold c \<le> (\<Sum>i\<in>fst ` set (verified_votes hv'). voting_power_by_id c i)"
    by (auto simp: header_votes_ok_def)
  show "\<exists>cert0 s. new_unverified aggregate now c h (verified_votes hv') = Inr cert0
      \<and> aggregated_signature cert0 = Some s
      \<and> cert = cert0\<lparr>signature_verification_state := VerifiedDirectly s\<rparr>"
    using assms(2)
    by (auto simp: header_votes_append_def votes_aggregator_append_def Let_def
        split: if_splits option.splits sum.splits)
qed

text \<open>
  What BLS promises: signatures that verify one by one aggregate to one that verifies against the
  list of their keys.
\<close>

definition bls_ok :: "verify_one_fun \<Rightarrow> (signature list \<Rightarrow> signature option) \<Rightarrow> verify_fun \<Rightarrow> bool" where
  "bls_ok verify_one aggregate verify \<longleftrightarrow>
     (\<forall>d ks. ks \<noteq> [] \<longrightarrow> (\<forall>(k, s)\<in>set ks. verify_one s d k) \<longrightarrow>
        (\<exists>agg. aggregate (map snd ks) = Some agg \<and> verify agg d (map fst ks)))"

section \<open>Parents are handed over once\<close>

definition certificates_aggregator_ok :: "committee \<Rightarrow> certificates_aggregator \<Rightarrow> bool" where
  "certificates_aggregator_ok c ca \<longleftrightarrow>
     finite (authorities_seen ca) \<and> ca_weight ca = (\<Sum>i\<in>authorities_seen ca. voting_power_by_id c i)
     \<and> distinct (map origin (ca_certificates ca)) \<and> origin ` set (ca_certificates ca) \<subseteq> authorities_seen ca
     \<and> (ca_weight ca < quorum_threshold c \<longrightarrow> authorities_seen ca \<subseteq> origin ` set (ca_certificates ca))"

lemma certificates_aggregator_new_ok [keeps]: "certificates_aggregator_ok c certificates_aggregator_new"
  by (simp add: certificates_aggregator_ok_def certificates_aggregator_new_def)

lemma certificates_aggregator_append_ok [keeps]:
  assumes "certificates_aggregator_ok c ca" "certificates_aggregator_append c cert ca = (ca', out)"
  shows "certificates_aggregator_ok c ca'"
  using assms
  by (auto simp: certificates_aggregator_ok_def certificates_aggregator_append_def Let_def split: if_splits)

definition manager_ok :: "committee \<Rightarrow> aggregator_manager \<Rightarrow> bool" where
  "manager_ok c m \<longleftrightarrow> bt_inv (aggregators m)
     \<and> (\<forall>(r, ca)\<in>set (aggregators m). certificates_aggregator_ok c ca
          \<and> (\<forall>x\<in>set (ca_certificates ca). c_round x = r))"

lemma dropWhile_bound:
  assumes "bt_inv m"
  shows "dropWhile (\<lambda>(r, _). r \<le> gc) m = filter (\<lambda>(r, _). gc < r) m"
  using assms
proof (induction m)
  case (Cons e m)
  obtain k v where e: "e = (k, v)" by (cases e)
  from Cons.prems have m: "bt_inv m" and lt: "\<forall>j\<in>set (map fst m). k < j" by (auto simp: e bt_inv_Cons)
  show ?case
  proof (cases "k \<le> gc")
    case True
    then show ?thesis using Cons.IH [OF m] by (simp add: e)
  next
    case False
    then have "filter (\<lambda>(r, _). gc < r) m = m" using lt by (intro filter_True) fastforce
    then show ?thesis using False by (simp add: e)
  qed
qed simp

lemma manager_ok_gc [keeps]: "manager_ok c m \<Longrightarrow> manager_ok c (am_garbage_collect gc m)"
  by (auto simp: manager_ok_def am_garbage_collect_def dropWhile_bound bt_inv_filter)

lemma manager_ok_proactive [keeps]: "manager_ok c m \<Longrightarrow> manager_ok c (am_proactive_gc r m)"
  by (simp add: am_proactive_gc_def manager_ok_gc)

lemma append_certificate_ok [keeps]:
  assumes "manager_ok c m" "append_certificate c cert m = (m', out)"
  shows "manager_ok c m'"
proof -
  let ?m1 = "am_proactive_gc (c_round cert) m"
  have ok: "manager_ok c ?m1" by (rule manager_ok_proactive [OF assms(1)])
  define ca where "ca = (case bt_get (aggregators ?m1) (c_round cert) of Some ca \<Rightarrow> ca | None \<Rightarrow> certificates_aggregator_new)"
  obtain ca' q where app: "certificates_aggregator_append c cert ca = (ca', q)" by (metis surj_pair)
  have ca: "certificates_aggregator_ok c ca \<and> (\<forall>x\<in>set (ca_certificates ca). c_round x = c_round cert)"
    using ok certificates_aggregator_new_ok
    by (auto simp: ca_def manager_ok_def certificates_aggregator_new_def split: option.splits dest!: bt_get_set)
  then have "certificates_aggregator_ok c ca'" using certificates_aggregator_append_ok [OF _ app] by blast
  moreover have "\<forall>x\<in>set (ca_certificates ca'). c_round x = c_round cert"
    using app ca by (auto simp: certificates_aggregator_append_def Let_def split: if_splits)
  moreover have "m' = ?m1\<lparr>aggregators := bt_insert (c_round cert) ca' (aggregators ?m1)\<rparr>"
    using assms(2) app by (simp add: append_certificate_def Let_def ca_def [symmetric])
  ultimately show ?thesis
    using ok set_bt_insert [of "c_round cert" ca' "aggregators ?m1"] by (fastforce simp: manager_ok_def)
qed

lemma certificates_aggregator_append_out:
  assumes "certificates_aggregator_ok c ca" "ca_weight ca < quorum_threshold c"
    and "certificates_aggregator_append c cert ca = (ca', Some ps)"
  shows "distinct (map origin ps)" "quorum_threshold c \<le> (\<Sum>i\<in>origin ` set ps. voting_power_by_id c i)"
proof -
  have ps: "ps = ca_certificates ca @ [cert]" "origin cert \<notin> authorities_seen ca"
    "quorum_threshold c \<le> ca_weight ca + voting_power_by_id c (origin cert)"
    using assms(3) by (auto simp: certificates_aggregator_append_def Let_def split: if_splits)
  have seen: "origin ` set (ca_certificates ca) = authorities_seen ca"
    using assms(1,2) by (auto simp: certificates_aggregator_ok_def)
  show "distinct (map origin ps)"
    using assms(1) ps(1,2) seen by (auto simp: certificates_aggregator_ok_def)
  have "(\<Sum>i\<in>origin ` set ps. voting_power_by_id c i) = ca_weight ca + voting_power_by_id c (origin cert)"
    using assms(1) ps(1,2) seen by (simp add: certificates_aggregator_ok_def)
  with ps(3) show "quorum_threshold c \<le> (\<Sum>i\<in>origin ` set ps. voting_power_by_id c i)" by simp
qed

end
