(* ===== verification/Cert_Manager.thy ===== *)
theory Cert_Manager
  imports Pending_Certs Cert_Store Aggregators Consensus_Bus
begin

text \<open>
  The task that accepts verified certificates, from
  \<open>crates/consensus/primary/src/state_sync/cert_manager.rs\<close> and \<open>gc.rs\<close>: parents are stored before
  children, a certificate with missing parents is suspended, and accepted certificates are handed to
  the proposer (as parents) and to Bullshark. What the environment answers at a call (whether
  shutdown was noticed, whether the receiver of a channel is alive) is a function of the number of
  calls made so far, so it may change at any time. Rounds are unbounded naturals: the check
  \<open>gc + 1\<close> of the code overflows only at round \<open>2 ^ 32 - 1\<close>. Reads and writes of the database
  succeed.
\<close>

section \<open>State\<close>

record cert_manager =
  cm_committee :: committee
  cm_gc_depth :: round
  cm_genesis :: "digest list"
  cm_pending :: pending_manager
  cm_aggregators :: aggregator_manager
  cm_gc_round :: round
  highest_processed_round :: round
  certs_accepted :: nat
  cm_store :: cert_store
  parents_ch :: "(certificate list \<times> round) list"
  new_certificates_ch :: "certificate list"
  calls :: nat

record cm_env =
  noticed :: "nat \<Rightarrow> bool"
  parents_open :: "nat \<Rightarrow> bool"
  consensus_open :: "nat \<Rightarrow> bool"
  fetcher_open :: "nat \<Rightarrow> bool"

type_synonym cm_state = "cert_manager \<times> consensus_bus"

definition tick :: "cert_manager \<Rightarrow> cert_manager" where
  "tick cm = cm\<lparr>calls := calls cm + 1\<rparr>"

definition cert_manager_new :: "hash_fun \<Rightarrow> committee \<Rightarrow> round \<Rightarrow> round \<Rightarrow> round \<Rightarrow> cert_store \<Rightarrow> cert_manager" where
  "cert_manager_new H c depth gc highest store =
     \<lparr>cm_committee = c, cm_gc_depth = depth, cm_genesis = map (cert_digest H) (genesis c),
      cm_pending = pending_new, cm_aggregators = aggregator_manager_new depth, cm_gc_round = gc,
      highest_processed_round = highest, certs_accepted = 0, cm_store = store,
      parents_ch = [], new_certificates_ch = [], calls = 0\<rparr>"

section \<open>Accepting certificates\<close>

text \<open>Persisting comes first; the high-water mark only moves once enough certificates came in.\<close>

definition u32_max :: nat where
  "u32_max = 2 ^ 32 - 1"

definition persist_and_advance_high_water_mark ::
  "hash_fun \<Rightarrow> certificate list \<Rightarrow> cm_state \<Rightarrow> cm_state" where
  "persist_and_advance_high_water_mark H certs st =
     (let (cm, bus) = st;
          cm' = cm\<lparr>cm_store := write_all H certs (cm_store cm),
                   certs_accepted := min u32_max (certs_accepted cm + length certs mod 2 ^ 32)\<rparr>
      in (cm', if certs_accepted cm' \<ge> cm_gc_depth cm' \<and> certs \<noteq> []
               then bus\<lparr>cert_store_round := max (cert_store_round bus) (Max (set (map c_round certs)))\<rparr>
               else bus))"

definition record_accepted :: "certificate \<Rightarrow> cert_manager \<Rightarrow> cert_manager" where
  "record_accepted cert cm =
     cm\<lparr>highest_processed_round := max (highest_processed_round cm) (c_round cert)\<rparr>"

text \<open>The aggregator hands parents to the proposer, then the certificate goes to Bullshark.\<close>

definition forward_to_dag ::
  "cm_env \<Rightarrow> certificate \<Rightarrow> cert_manager \<Rightarrow> cert_manager \<times> (cert_manager_error + unit)" where
  "forward_to_dag env cert cm =
     (let (am, out) = append_certificate (cm_committee cm) cert (cm_aggregators cm);
          cm1 = cm\<lparr>cm_aggregators := am\<rparr>;
          (cm2, sent) =
            (case out of
               None \<Rightarrow> (cm1, True)
             | Some ps \<Rightarrow>
                 if parents_open env (calls cm1)
                 then (tick (cm1\<lparr>parents_ch := parents_ch cm1 @ [ps]\<rparr>), True)
                 else (tick cm1, False))
      in if \<not> sent then (cm2, Inl FatalAppendParent)
         else if consensus_open env (calls cm2)
         then (tick (cm2\<lparr>new_certificates_ch := new_certificates_ch cm2 @ [cert]\<rparr>), Inr ())
         else (tick cm2, Inl FatalForwardAcceptedCertificate))"

fun forward_all ::
  "cm_env \<Rightarrow> certificate list \<Rightarrow> cert_manager \<Rightarrow> cert_manager \<times> (cert_manager_error + unit)" where
  "forward_all env [] cm = (cm, Inr ())"
| "forward_all env (cert # certs) cm =
     (let cm1 = record_accepted cert cm
      in if noticed env (calls cm1) then forward_all env certs (tick cm1)
         else case forward_to_dag env cert (tick cm1) of
             (cm2, Inr _) \<Rightarrow> forward_all env certs cm2
           | (cm2, Inl e) \<Rightarrow> if noticed env (calls cm2) then (tick cm2, Inr ()) else (tick cm2, Inl e))"

definition accept_verified_certificates ::
  "hash_fun \<Rightarrow> cm_env \<Rightarrow> certificate list \<Rightarrow> cm_state \<Rightarrow> cm_state \<times> (cert_manager_error + unit)" where
  "accept_verified_certificates H env certs st =
     (let (cm, bus) = persist_and_advance_high_water_mark H certs st;
          (cm', res) = forward_all env certs cm
      in ((cm', bus), res))"

section \<open>Processing verified certificates\<close>

text \<open>Parents of the first round must be genesis certificates; later ones must be stored.\<close>

definition get_missing_parents ::
  "cm_env \<Rightarrow> certificate \<Rightarrow> cm_state \<Rightarrow> cm_state \<times> (cert_manager_error + digest set)" where
  "get_missing_parents env cert st =
     (let (cm, bus) = st
      in if c_round cert = 1
         then case List.find (\<lambda>d. d \<notin> set (cm_genesis cm)) (c_parents cert) of
                Some d \<Rightarrow> (st, Inl (CmCertificate (CertHeader (InvalidGenesisParent d))))
              | None \<Rightarrow> (st, Inr {})
         else let missing = set (map fst (filter (\<lambda>(_, exists). \<not> exists)
                      (zip (c_parents cert) (multi_contains (cm_store cm) (c_parents cert)))))
              in if missing = {} then (st, Inr {})
                 else if fetcher_open env (calls cm)
                 then ((tick cm, bus\<lparr>fetcher_ch := fetcher_ch bus @ [cert]\<rparr>), Inr missing)
                 else ((tick cm, bus), Inl CmSend))"

definition with_pending :: "pending_manager \<Rightarrow> cm_state \<Rightarrow> cm_state" where
  "with_pending pm st = ((fst st)\<lparr>cm_pending := pm\<rparr>, snd st)"

text \<open>The fate of one verified certificate that is not pending yet; \<open>True\<close> says it was suspended.\<close>

definition process_one ::
  "hash_fun \<Rightarrow> iter_fun \<Rightarrow> cm_env \<Rightarrow> certificate \<Rightarrow> cm_state \<Rightarrow> cm_state \<times> (cert_manager_error + bool)" where
  "process_one H iter env cert st =
     (case (if c_round cert > cm_gc_round (fst st) + 1 then get_missing_parents env cert st else (st, Inr {})) of
        (st1, Inl e) \<Rightarrow> (st1, Inl e)
      | (st1, Inr missing) \<Rightarrow>
          if missing \<noteq> {} then
            (case insert_pending H iter cert missing (cm_pending (fst st1)) of
               (pm, Inl e) \<Rightarrow> (with_pending pm st1, Inl e)
             | (pm, Inr _) \<Rightarrow> (with_pending pm st1, Inr True))
          else
            (case update_pending iter (c_round cert) (cert_digest H cert) (cm_pending (fst st1)) of
               (pm, Inl e) \<Rightarrow> (with_pending pm st1, Inl e)
             | (pm, Inr unlocked) \<Rightarrow>
                 (case accept_verified_certificates H env (cert # unlocked) (with_pending pm st1) of
                    (st2, Inl e) \<Rightarrow> (st2, Inl e)
                  | (st2, Inr _) \<Rightarrow> (st2, Inr False))))"

fun process_loop ::
  "hash_fun \<Rightarrow> iter_fun \<Rightarrow> cm_env \<Rightarrow> certificate list \<Rightarrow> (cert_manager_error + unit) \<Rightarrow> cm_state \<Rightarrow>
   cm_state \<times> (cert_manager_error + unit)" where
  "process_loop H iter env [] result st = (st, result)"
| "process_loop H iter env (cert # certs) result st =
     (if \<not> is_verified cert then (st, Inl (UnverifiedSignature (cert_digest H cert)))
      else if is_pending (cm_pending (fst st)) (cert_digest H cert)
      then process_loop H iter env certs (Inl (Pending (cert_digest H cert))) st
      else case process_one H iter env cert st of
          (st1, Inl e) \<Rightarrow> (st1, Inl e)
        | (st1, Inr suspended) \<Rightarrow>
            process_loop H iter env certs
              (if suspended then Inl (Pending (cert_digest H cert)) else result) st1)"

definition process_verified_certificates ::
  "hash_fun \<Rightarrow> iter_fun \<Rightarrow> cm_env \<Rightarrow> certificate list \<Rightarrow> cm_state \<Rightarrow> cm_state \<times> (cert_manager_error + unit)" where
  "process_verified_certificates H iter env certs st =
     process_loop H iter env (sort_by (\<lambda>a b. c_round a \<le> c_round b) certs) (Inr ()) st"

section \<open>Garbage collection\<close>

text \<open>What forwarding leaves alone, and what it appends to Bullshark's channel.\<close>

definition forwards :: "certificate list \<Rightarrow> cert_manager \<Rightarrow> cert_manager \<Rightarrow> bool" where
  "forwards fwd cm cm' \<longleftrightarrow>
     cm_pending cm' = cm_pending cm \<and> cm_store cm' = cm_store cm \<and> cm_gc_round cm' = cm_gc_round cm
     \<and> cm_committee cm' = cm_committee cm \<and> cm_gc_depth cm' = cm_gc_depth cm \<and> cm_genesis cm' = cm_genesis cm
     \<and> new_certificates_ch cm' = new_certificates_ch cm @ fwd"

lemma forwards_refl [simp]: "forwards [] cm cm"
  by (simp add: forwards_def)

lemma forwards_trans: "forwards f cm cm' \<Longrightarrow> forwards g cm' cm'' \<Longrightarrow> forwards (f @ g) cm cm''"
  by (simp add: forwards_def)

lemma forwards_tick [simp]: "forwards [] cm (tick cm)"
  by (simp add: forwards_def tick_def)

lemma forwards_record [simp]: "forwards [] cm (record_accepted cert cm)"
  by (simp add: forwards_def record_accepted_def)

lemma forwards_to_dag:
  "forward_to_dag env cert cm = (cm', res) \<Longrightarrow> forwards (case res of Inr _ \<Rightarrow> [cert] | Inl _ \<Rightarrow> []) cm cm'"
  by (auto simp: forward_to_dag_def Let_def tick_def forwards_def split: prod.splits option.splits if_splits)

lemma forwards_all: "forward_all env certs cm = (cm', res) \<Longrightarrow> \<exists>fwd. forwards fwd cm cm' \<and> set fwd \<subseteq> set certs"
proof (induction certs arbitrary: cm)
  case Nil
  then show ?case by (auto intro!: exI [of _ "[]"])
next
  case (Cons cert certs)
  let ?cm1 = "tick (record_accepted cert cm)"
  have f1: "forwards [] cm ?cm1" using forwards_trans [OF forwards_record forwards_tick] by simp
  obtain cm2 out where fd: "forward_to_dag env cert ?cm1 = (cm2, out)" by (metis surj_pair)
  show ?case
  proof (cases "noticed env (calls (record_accepted cert cm))")
    case True
    then have "forward_all env certs ?cm1 = (cm', res)" using Cons.prems by (simp add: Let_def)
    then obtain fwd where "forwards fwd ?cm1 cm'" "set fwd \<subseteq> set certs" using Cons.IH by auto
    with forwards_trans [OF f1] show ?thesis by (auto intro!: exI [of _ fwd])
  next
    case False
    show ?thesis
    proof (cases out)
      case (Inl e)
      then have "cm' = tick cm2" using Cons.prems False fd by (simp add: Let_def split: if_splits)
      with forwards_trans [OF forwards_trans [OF f1 forwards_to_dag [OF fd]] forwards_tick] Inl show ?thesis
        by (intro exI [of _ "[]"]) simp
    next
      case (Inr u)
      then have "forward_all env certs cm2 = (cm', res)" using Cons.prems False fd by (simp add: Let_def)
      then obtain fwd where "forwards fwd cm2 cm'" "set fwd \<subseteq> set certs" using Cons.IH by auto
      with forwards_trans [OF forwards_trans [OF f1 forwards_to_dag [OF fd]]] Inr show ?thesis
        by (intro exI [of _ "cert # fwd"]) auto
    qed
  qed
qed

lemma accept_pending:
  assumes "accept_verified_certificates H env certs st = (st', res)"
  shows "cm_pending (fst st') = cm_pending (fst st)"
proof -
  obtain cm bus where p: "persist_and_advance_high_water_mark H certs st = (cm, bus)" by (metis surj_pair)
  obtain cm' res' where f: "forward_all env certs cm = (cm', res')" by (metis surj_pair)
  have "cm_pending cm = cm_pending (fst st)"
    using p by (auto simp: persist_and_advance_high_water_mark_def Let_def split: prod.splits)
  with assms p f forwards_all [OF f] show ?thesis by (auto simp: accept_verified_certificates_def forwards_def)
qed

text \<open>Each turn takes one key out of the map of missing parents, so the loop ends.\<close>

lemma gc_turn_less:
  assumes "(pm, Some (r, d)) = next_for_gc_round gc pm0" "(pm', res) = update_pending iter r d pm"
  shows "length (missing_for_pending pm') < length (missing_for_pending pm0)"
  using next_gc_key [OF assms(1) [symmetric]] update_pending_less [OF _ assms(2) [symmetric]] by simp

function gc_loop ::
  "hash_fun \<Rightarrow> iter_fun \<Rightarrow> cm_env \<Rightarrow> round \<Rightarrow> cm_state \<Rightarrow> cm_state \<times> (cert_manager_error + unit)" where
  "gc_loop H iter env gc st =
     (case next_for_gc_round gc (cm_pending (fst st)) of
        (pm, None) \<Rightarrow> (with_pending pm st, Inr ())
      | (pm, Some (r, d)) \<Rightarrow>
          (case update_pending iter r d pm of
             (pm', Inl e) \<Rightarrow> (with_pending pm' st, Inl e)
           | (pm', Inr unlocked) \<Rightarrow>
               (case accept_verified_certificates H env unlocked (with_pending pm' st) of
                  (st', Inl e) \<Rightarrow> (st', Inl e)
                | (st', Inr _) \<Rightarrow> gc_loop H iter env gc st')))"
  by pat_completeness auto
termination
  by (relation "measure (\<lambda>(H, iter, env, gc, st). length (missing_for_pending (cm_pending (fst st))))")
    (auto simp: with_pending_def dest!: sym [of _ "accept_verified_certificates _ _ _ _"] accept_pending
      intro: gc_turn_less)

declare gc_loop.simps [simp del]

definition effective_gc :: "cm_state \<Rightarrow> round" where
  "effective_gc st =
     (let (cm, bus) = st;
          committed = committed_round_updates bus;
          gc_stale = committed - cm_gc_round cm > cm_gc_depth cm;
          is_catching_up = \<not> is_active_cvv (current_mode bus) \<or> gc_stale
      in if is_catching_up then max (cm_gc_round cm) committed else cm_gc_round cm)"

definition process_gc_round ::
  "hash_fun \<Rightarrow> iter_fun \<Rightarrow> cm_env \<Rightarrow> cm_state \<Rightarrow> cm_state \<times> (cert_manager_error + unit)" where
  "process_gc_round H iter env st =
     (let (cm, bus) = st
      in gc_loop H iter env (effective_gc st)
           (cm\<lparr>cm_aggregators := am_garbage_collect (cm_gc_round cm) (cm_aggregators cm)\<rparr>, bus))"

text \<open>The collector takes the round of the watch before the manager looks at it.\<close>

definition process_next_round :: "cm_state \<Rightarrow> cm_state" where
  "process_next_round st = ((fst st)\<lparr>cm_gc_round := gc_round_updates (snd st)\<rparr>, snd st)"

section \<open>Shutdown and recovery\<close>

fun drain_forward ::
  "cm_env \<Rightarrow> certificate list \<Rightarrow> nat \<Rightarrow> cert_manager \<Rightarrow> cert_manager \<times> (cert_manager_error + nat)" where
  "drain_forward env [] n cm = (cm, Inr n)"
| "drain_forward env (cert # certs) n cm =
     (case forward_to_dag env cert (record_accepted cert cm) of
        (cm1, Inl e) \<Rightarrow> (cm1, Inl e)
      | (cm1, Inr _) \<Rightarrow> drain_forward env certs (n + 1) cm1)"

lemma forwards_drain: "drain_forward env certs n cm = (cm', res) \<Longrightarrow> \<exists>fwd. forwards fwd cm cm' \<and> set fwd \<subseteq> set certs"
proof (induction certs arbitrary: n cm)
  case Nil
  then show ?case by (auto intro!: exI [of _ "[]"])
next
  case (Cons cert certs)
  obtain cm1 out where fd: "forward_to_dag env cert (record_accepted cert cm) = (cm1, out)" by (metis surj_pair)
  note f1 = forwards_trans [OF forwards_record forwards_to_dag [OF fd]]
  show ?case
  proof (cases out)
    case (Inl e)
    then show ?thesis using Cons.prems fd f1 by (intro exI [of _ "[]"]) simp
  next
    case (Inr u)
    then have "drain_forward env certs (n + 1) cm1 = (cm', res)" using Cons.prems fd by simp
    from Cons.IH [OF this] obtain fwd where "forwards fwd cm1 cm'" "set fwd \<subseteq> set certs" by auto
    with forwards_trans [OF f1] Inr show ?thesis by (intro exI [of _ "cert # fwd"]) auto
  qed
qed

lemma persist_pending: "cm_pending (fst (persist_and_advance_high_water_mark H certs st)) = cm_pending (fst st)"
  by (simp add: persist_and_advance_high_water_mark_def Let_def split: prod.splits)

definition drain_accept ::
  "hash_fun \<Rightarrow> cm_env \<Rightarrow> certificate list \<Rightarrow> nat \<Rightarrow> cm_state \<Rightarrow> cm_state \<times> (cert_manager_error + nat)" where
  "drain_accept H env unlocked n st =
     (if unlocked = [] then (st, Inr n)
      else let (cm, bus) = persist_and_advance_high_water_mark H unlocked st;
               (cm', res) = drain_forward env unlocked n cm
           in ((cm', bus), res))"

lemma drain_accept_pending:
  assumes "drain_accept H env certs n st = (st', res)"
  shows "cm_pending (fst st') = cm_pending (fst st)"
proof (cases "certs = []")
  case True
  then show ?thesis using assms by (simp add: drain_accept_def)
next
  case False
  obtain cm bus where p: "persist_and_advance_high_water_mark H certs st = (cm, bus)" by (metis surj_pair)
  obtain cm' res' where f: "drain_forward env certs n cm = (cm', res')" by (metis surj_pair)
  have "cm_pending cm = cm_pending (fst st)" using persist_pending [of H certs st] unfolding p by simp
  with assms False p f forwards_drain [OF f] show ?thesis by (auto simp: drain_accept_def forwards_def)
qed

function drain_loop ::
  "hash_fun \<Rightarrow> iter_fun \<Rightarrow> cm_env \<Rightarrow> round \<Rightarrow> nat \<Rightarrow> cm_state \<Rightarrow> cm_state \<times> (cert_manager_error + nat)" where
  "drain_loop H iter env gc n st =
     (case next_for_gc_round gc (cm_pending (fst st)) of
        (pm, None) \<Rightarrow> (with_pending pm st, Inr n)
      | (pm, Some (r, d)) \<Rightarrow>
          (case update_pending iter r d pm of
             (pm', Inl e) \<Rightarrow> (with_pending pm' st, Inl e)
           | (pm', Inr unlocked) \<Rightarrow>
               (case drain_accept H env unlocked n (with_pending pm' st) of
                  (st', Inl e) \<Rightarrow> (st', Inl e)
                | (st', Inr n') \<Rightarrow> drain_loop H iter env gc n' st')))"
  by pat_completeness auto
termination
  by (relation "measure (\<lambda>(H, iter, env, gc, n, st). length (missing_for_pending (cm_pending (fst st))))")
    (auto simp: with_pending_def dest!: sym [of _ "drain_accept _ _ _ _ _"] drain_accept_pending
      intro: gc_turn_less)

declare drain_loop.simps [simp del]

definition drain_pending ::
  "hash_fun \<Rightarrow> iter_fun \<Rightarrow> cm_env \<Rightarrow> cm_state \<Rightarrow> cm_state \<times> (cert_manager_error + nat \<times> nat)" where
  "drain_pending H iter env st =
     (case drain_loop H iter env (max (cm_gc_round (fst st)) (committed_round_updates (snd st))) 0 st of
        (st', Inl e) \<Rightarrow> (st', Inl e)
      | (st', Inr n) \<Rightarrow> (st', Inr (n, num_pending (cm_pending (fst st')))))"

text \<open>A storage error at start-up is a panic (\<open>None\<close>).\<close>

fun append_all :: "cm_env \<Rightarrow> certificate list \<Rightarrow> cert_manager \<Rightarrow> cert_manager \<times> (cert_manager_error + unit)" where
  "append_all env [] cm = (cm, Inr ())"
| "append_all env (cert # certs) cm =
     (let (am, out) = append_certificate (cm_committee cm) cert (cm_aggregators cm);
          cm1 = cm\<lparr>cm_aggregators := am\<rparr>
      in case out of
           None \<Rightarrow> append_all env certs cm1
         | Some ps \<Rightarrow>
             if parents_open env (calls cm1)
             then append_all env certs (tick (cm1\<lparr>parents_ch := parents_ch cm1 @ [ps]\<rparr>))
             else (tick cm1, Inl CmSend))"

definition recover_state :: "cm_env \<Rightarrow> cert_manager \<Rightarrow> (cert_manager \<times> (cert_manager_error + unit)) option" where
  "recover_state env cm =
     (case last_two_rounds_certs (cm_store cm) of
        Inl _ \<Rightarrow> None
      | Inr stored \<Rightarrow>
          Some (append_all env (if stored = [] then genesis (cm_committee cm) else stored) cm))"

end
