(* ===== verification/Vote_Handler.thy ===== *)
theory Vote_Handler
  imports Cert_Manager
begin

text \<open>
  The handler of vote requests, from \<open>crates/consensus/primary/src/network/handler.rs\<close> and
  \<open>state.rs\<close>, with the store of cast votes (\<open>vote_digest_store.rs\<close>) and the queries of
  \<open>state_sync/header_validator.rs\<close> that it uses. A request runs as a task of its own, so the first
  part (up to the entry in the cache) and the second part (up to the answer) of different requests
  interleave; between reading and writing the table of votes the code does not wait, and this part is
  one step. What the task waits for in between (parents that arrive, batches, the clock) is the
  environment \<open>vote_env\<close> of the second part. The database does not fail.
\<close>

section \<open>Data\<close>

datatype network_error =
    InvalidHeader header_error
  | CertManager cert_manager_error
  | NotValidator
  | ChannelClosed

datatype primary_response =
    RVote vote
  | RMissingParents "digest list"
  | RError network_error
  | RRecoverable "network_error option"
  | RTooOld round round
  | REpochMismatch epoch epoch

type_synonym vote_result = "network_error + primary_response"

definition into_error_ref :: "network_error \<Rightarrow> primary_response" where
  "into_error_ref e =
     (case e of
        InvalidHeader (HeaderTooOld _ header_round max_round) \<Rightarrow> RTooOld header_round max_round
      | InvalidHeader (InvalidEpoch theirs ours) \<Rightarrow>
          if theirs = ours + 1 then RRecoverable (Some e) else REpochMismatch ours theirs
      | _ \<Rightarrow> RError e)"

text \<open>Instants are seconds.\<close>

datatype auth_vote_state =
    InFlight epoch round digest nat
  | Completed epoch round digest "primary_response option"

fun avs_round :: "auth_vote_state \<Rightarrow> round" where
  "avs_round (InFlight _ r _ _) = r"
| "avs_round (Completed _ r _ _) = r"

type_synonym vote_cache = "(auth_id, auth_vote_state) btree"

definition IN_FLIGHT_TTL :: nat where
  "IN_FLIGHT_TTL = 15"

definition MAX_AUTH_LAST_VOTE_ENTRIES :: nat where
  "MAX_AUTH_LAST_VOTE_ENTRIES = 1000"

section \<open>The cache of answers\<close>

definition guard_complete :: "auth_id \<Rightarrow> epoch \<Rightarrow> round \<Rightarrow> digest \<Rightarrow> primary_response \<Rightarrow> vote_cache \<Rightarrow> vote_cache" where
  "guard_complete a e r d response cache =
     (let superseded = (case bt_get cache a of None \<Rightarrow> False | Some s \<Rightarrow> avs_round s > r)
      in if superseded then cache else bt_insert a (Completed e r d (Some response)) cache)"

definition guard_drop :: "auth_id \<Rightarrow> round \<Rightarrow> vote_cache \<Rightarrow> vote_cache" where
  "guard_drop a r cache =
     (case bt_get cache a of
        Some (InFlight _ r' _ _) \<Rightarrow> if r' = r then bt_remove a cache else cache
      | _ \<Rightarrow> cache)"

fun expired :: "nat \<Rightarrow> auth_vote_state \<Rightarrow> bool" where
  "expired now (InFlight _ _ _ created) \<longleftrightarrow> now - created > IN_FLIGHT_TTL"
| "expired now (Completed _ _ _ _) \<longleftrightarrow> False"

definition evict_expired_inflight :: "nat \<Rightarrow> vote_cache \<Rightarrow> vote_cache" where
  "evict_expired_inflight now cache = bt_retain (\<lambda>_ s. \<not> expired now s) cache"

fun is_completed :: "auth_vote_state \<Rightarrow> bool" where
  "is_completed (Completed _ _ _ _) = True"
| "is_completed (InFlight _ _ _ _) = False"

definition evict_oldest_completed :: "nat \<Rightarrow> vote_cache \<Rightarrow> vote_cache" where
  "evict_oldest_completed max_entries cache =
     (if length cache \<le> max_entries then cache
      else let min_round = Min (set (map avs_round (bt_values cache)));
               to_remove = length cache - max_entries;
               keys = map fst (take to_remove
                 (filter (\<lambda>(_, s). is_completed s \<and> avs_round s \<le> min_round + 10) cache))
           in bt_retain (\<lambda>k _. k \<notin> set keys) cache)"

definition cleanup_auth_last_vote :: "nat \<Rightarrow> vote_cache \<Rightarrow> vote_cache" where
  "cleanup_auth_last_vote now cache =
     evict_oldest_completed MAX_AUTH_LAST_VOTE_ENTRIES (evict_expired_inflight now cache)"

text \<open>\<open>None\<close>: go on to evaluate the header, which is marked as in flight.\<close>

definition check_equivocation ::
  "hash_fun \<Rightarrow> nat \<Rightarrow> header \<Rightarrow> certificate list \<Rightarrow> vote_cache \<Rightarrow> vote_cache \<times> vote_result option" where
  "check_equivocation H now h ps cache =
     (let in_flight = InFlight (h_epoch h) (h_round h) (header_digest H h) now;
          proceed = (bt_insert (author h) in_flight cache, None);
          answer = (\<lambda>r. (cache, Some r))
      in case bt_get cache (author h) of
           None \<Rightarrow> proceed
         | Some (InFlight _ inflight_round _ created) \<Rightarrow>
             if h_round h > inflight_round then proceed
             else if now - created > IN_FLIGHT_TTL then proceed
             else answer (Inr (RRecoverable None))
         | Some (Completed seen_epoch seen_round seen_digest response) \<Rightarrow>
             if seen_digest = header_digest H h then
               (case response of
                  None \<Rightarrow> proceed
                | Some (RRecoverable _) \<Rightarrow> proceed
                | Some (RMissingParents missing) \<Rightarrow>
                    if ps = [] then answer (Inr (RMissingParents missing))
                    else if length ps \<noteq> length missing
                    then answer (Inl (InvalidHeader (WrongNumberOfParents (length missing) (length ps))))
                    else if list_ex (\<lambda>p. cert_digest H p \<notin> set missing) ps
                    then answer (Inl (InvalidHeader InvalidParents))
                    else proceed
                | Some res \<Rightarrow> answer (Inr res))
             else if h_epoch h < seen_epoch \<or> (seen_epoch = h_epoch h \<and> seen_round \<ge> h_round h)
             then answer (Inl (InvalidHeader (AlreadyVotedForLaterRound (h_round h) seen_round)))
             else proceed)"

section \<open>Parents\<close>

text \<open>Requested parents, keyed by round and digest, with the author of the header that needs them.\<close>

type_synonym parent_requests = "(round \<times> digest, auth_id) btree"

record vote_env =
  ve_committee :: committee
  ve_me :: "auth_id option"
  ve_sign :: "digest \<Rightarrow> signature"
  ve_gc_depth :: round
  max_proposed_header_age_limit :: round
  max_header_time_drift_tolerance :: nat
  ve_bus :: consensus_bus
  ve_genesis :: "certificate list"
  ve_store :: cert_store
  ve_pending :: pending_manager
  ve_manager_open :: bool
  ve_accept :: "certificate \<Rightarrow> cert_manager_error + unit"
  store_after_wait :: cert_store
  ve_sync :: "header_error option"
  ve_now :: timestamp
  ve_instant :: nat

definition identify_unknown_parents :: "hash_fun \<Rightarrow> vote_env \<Rightarrow> header \<Rightarrow> network_error + digest list" where
  "identify_unknown_parents H env h =
     (let genesis_digests = map (cert_digest H) (ve_genesis env)
      in if h_round h = 1
         then case List.find (\<lambda>d. d \<notin> set genesis_digests) (parents h) of
                Some d \<Rightarrow> Inl (InvalidHeader (InvalidGenesisParent d))
              | None \<Rightarrow> Inr []
         else let unknown = map fst (filter (\<lambda>(_, exists). \<not> exists)
                      (zip (parents h) (multi_contains (ve_store env) (parents h))))
              in if \<not> ve_manager_open env then Inl ChannelClosed
                 else Inr (filter_unknown_digests (ve_pending env) unknown))"

text \<open>The retain loop: digests that are already requested are dropped, new ones are recorded.\<close>

fun request_new :: "round \<Rightarrow> auth_id \<Rightarrow> digest list \<Rightarrow> parent_requests \<Rightarrow> digest list \<times> parent_requests" where
  "request_new r a [] rq = ([], rq)"
| "request_new r a (d # ds) rq =
     (if bt_get rq (r - 1, d) = None
      then let (kept, rq') = request_new r a ds (bt_insert (r - 1, d) a rq) in (d # kept, rq')
      else request_new r a ds rq)"

definition check_for_missing_parents ::
  "hash_fun \<Rightarrow> vote_env \<Rightarrow> header \<Rightarrow> parent_requests \<Rightarrow> parent_requests \<times> (network_error + digest list)" where
  "check_for_missing_parents H env h rq =
     (case identify_unknown_parents H env h of
        Inl e \<Rightarrow> (rq, Inl e)
      | Inr unknown \<Rightarrow>
          (let limit = primary_round_updates (ve_bus env) - max_proposed_header_age_limit env
           in if unknown \<noteq> [] \<and> \<not> limit \<le> h_round h
              then (rq, Inl (InvalidHeader (HeaderTooOld (header_digest H h) (h_round h) limit)))
              else let rq1 = dropWhile (\<lambda>((r, _), _). r < limit - 1) rq;
                       (missing, rq2) = request_new (h_round h) (author h) unknown rq1
                   in (rq2, Inr missing)))"

fun accept_requested ::
  "hash_fun \<Rightarrow> vote_env \<Rightarrow> certificate list \<Rightarrow> parent_requests \<Rightarrow> parent_requests \<times> (network_error + unit)" where
  "accept_requested H env [] rq = (rq, Inr ())"
| "accept_requested H env (p # ps) rq =
     (case ve_accept env p of
        Inr _ \<Rightarrow> accept_requested H env ps (bt_remove (c_round p, cert_digest H p) rq)
      | Inl (Pending _) \<Rightarrow> accept_requested H env ps rq
      | Inl e \<Rightarrow> (rq, Inl (CertManager e)))"

definition try_accept_unknown_certs ::
  "hash_fun \<Rightarrow> vote_env \<Rightarrow> header \<Rightarrow> certificate list \<Rightarrow> parent_requests \<Rightarrow> parent_requests \<times> (network_error + unit)" where
  "try_accept_unknown_certs H env h ps rq =
     accept_requested H env (filter (\<lambda>p. bt_get rq (c_round p, cert_digest H p) = Some (author h)) ps) rq"

text \<open>Waiting for the parents: \<open>store_after_wait\<close> is the store when the wait ends; \<open>None\<close>: it never does.\<close>

definition notify_read_parent_certificates ::
  "hash_fun \<Rightarrow> vote_env \<Rightarrow> header \<Rightarrow> (network_error + certificate list) option" where
  "notify_read_parent_certificates H env h =
     (if h_round h = 1
      then case List.find (\<lambda>d. d \<notin> set (map (cert_digest H) (ve_genesis env))) (parents h) of
             Some d \<Rightarrow> Some (Inl (InvalidHeader (InvalidGenesisParent d)))
           | None \<Rightarrow> Some (Inr (List.map_filter (\<lambda>d. List.find (\<lambda>g. cert_digest H g = d) (ve_genesis env)) (parents h)))
      else if list_all (contains (store_after_wait env)) (parents h)
      then Some (Inr (List.map_filter (store_read (store_after_wait env)) (parents h)))
      else None)"

text \<open>Every parent has the epoch, the previous round, no later timestamp and an author of its own.\<close>

fun check_parents_of ::
  "committee \<Rightarrow> header \<Rightarrow> certificate list \<Rightarrow> auth_id set \<Rightarrow> voting_power \<Rightarrow> header_error + voting_power" where
  "check_parents_of c h [] seen stake = Inr stake"
| "check_parents_of c h (p # ps) seen stake =
     (if c_epoch p \<noteq> h_epoch h then Inl (InvalidEpoch (c_epoch p) (h_epoch h))
      else if c_round p + 1 \<noteq> h_round h then Inl InvalidParentRound
      else if h_created_at h < h_created_at (c_header p)
      then Inl (InvalidParentTimestamp (h_created_at h) (h_created_at (c_header p)))
      else if origin p \<in> seen then Inl DuplicateParents
      else check_parents_of c h ps (insert (origin p) seen) (stake + voting_power_by_id c (origin p)))"

text \<open>\<open>ve_sync\<close> is what the workers answer for the batches that are not stored yet.\<close>

definition sync_header_batches :: "hash_fun \<Rightarrow> vote_env \<Rightarrow> header \<Rightarrow> round \<Rightarrow> header_error + unit" where
  "sync_header_batches H env h max_age =
     (let max_round = committed_round_updates (ve_bus env) - max_age
      in if ve_me env = Some (author h) then Inr ()
         else if h_round h < max_round then Inl (HeaderTooOld (header_digest H h) (h_round h) max_round)
         else case ve_sync env of None \<Rightarrow> Inr () | Some e \<Rightarrow> Inl e)"

section \<open>Evaluating a header\<close>

record vote_node =
  auth_last_vote :: vote_cache
  requested_parents :: parent_requests
  votes_table :: "(auth_id, vote_info) btree"
  last_proposed :: "(auth_id, header) btree"

definition write_vote :: "vote \<Rightarrow> vote_node \<Rightarrow> vote_node" where
  "write_vote v n = n\<lparr>votes_table := bt_insert (vote_origin v) (vote_info_of v) (votes_table n)\<rparr>"

definition read_vote_info :: "vote_node \<Rightarrow> auth_id \<Rightarrow> vote_info option" where
  "read_vote_info n a = bt_get (votes_table n) a"

definition anchor_diverges_from_executed :: "recent_blocks \<Rightarrow> nat \<times> digest \<Rightarrow> bool" where
  "anchor_diverges_from_executed recent target =
     (case block_at_number recent (fst target) of None \<Rightarrow> False | Some b \<Rightarrow> sh_hash b \<noteq> snd target)"

text \<open>The checks before the parents are looked at.\<close>

definition vote_gate :: "hash_fun \<Rightarrow> vote_env \<Rightarrow> header \<Rightarrow> certificate list \<Rightarrow> network_error + unit" where
  "vote_gate H env h ps =
     (let c = ve_committee env;
          max_round = committed_round_updates (ve_bus env) + ve_gc_depth env
      in case header_validate H c h of
           Inl e \<Rightarrow> Inl (InvalidHeader e)
         | Inr _ \<Rightarrow>
             if h_round h < 1 then Inl (InvalidHeader (InvalidRound (header_digest H h) (h_round h)))
             else if h_round h > max_round
             then Inl (InvalidHeader (HeaderTooNew (header_digest H h) (h_round h) max_round))
             else if length ps > committee_size c
             then Inl (InvalidHeader (TooManyParents (length ps) (committee_size c)))
             else if anchor_diverges_from_executed (recently_executed (ve_bus env)) (latest_execution_block h)
             then Inl (InvalidHeader (UnknownExecutionResult (latest_execution_block h)))
             else Inr ())"

text \<open>Parents that came with the request lose the state of their signatures.\<close>

definition vote_parents ::
  "hash_fun \<Rightarrow> vote_env \<Rightarrow> header \<Rightarrow> certificate list \<Rightarrow> parent_requests \<Rightarrow>
   parent_requests \<times> (network_error + digest list)" where
  "vote_parents H env h ps rq =
     (if ps = [] then check_for_missing_parents H env h rq
      else if list_ex (\<lambda>p. aggregated_signature p = None) ps then (rq, Inl (InvalidHeader ParentMissingSignature))
      else let unverified = map (\<lambda>p. p\<lparr>signature_verification_state := Unverified (the (aggregated_signature p))\<rparr>) ps
           in case try_accept_unknown_certs H env h unverified rq of
                (rq', Inl e) \<Rightarrow> (rq', Inl e)
              | (rq', Inr _) \<Rightarrow> (rq', Inr []))"

definition check_quorum :: "vote_env \<Rightarrow> header \<Rightarrow> certificate list \<Rightarrow> network_error + unit" where
  "check_quorum env h ps =
     (case check_parents_of (ve_committee env) h ps {} 0 of
        Inl e \<Rightarrow> Inl (InvalidHeader e)
      | Inr stake \<Rightarrow>
          let threshold = quorum_threshold (ve_committee env)
          in if stake \<ge> threshold then Inr () else Inl (CertManager (CmCertificate (Inquorate stake threshold))))"

text \<open>The clock: a header slightly in the future is waited for.\<close>

definition check_time :: "vote_env \<Rightarrow> header \<Rightarrow> network_error + unit" where
  "check_time env h =
     (if ve_now env < h_created_at h \<and> \<not> h_created_at h - ve_now env \<le> max_header_time_drift_tolerance env
      then Inl (InvalidHeader (InvalidTimestamp (h_created_at h) (ve_now env))) else Inr ())"

text \<open>From reading the last vote to writing the new one.\<close>

definition cast_vote :: "hash_fun \<Rightarrow> vote_env \<Rightarrow> header \<Rightarrow> vote_node \<Rightarrow> vote_node \<times> vote_result" where
  "cast_vote H env h n =
     (case ve_me env of
        None \<Rightarrow> (n, Inl NotValidator)
      | Some me \<Rightarrow>
          let v = vote_new H (ve_sign env) h me;
              fresh = ((write_vote v n)\<lparr>last_proposed := bt_insert (author h) h (last_proposed n)\<rparr>, Inr (RVote v))
          in case read_vote_info n (author h) of
               None \<Rightarrow> fresh
             | Some vi \<Rightarrow>
                 if h_epoch h \<noteq> vi_epoch vi then (n, Inl (InvalidHeader (InvalidEpoch (h_epoch h) (vi_epoch vi))))
                 else if \<not> h_round h \<ge> vi_round vi
                 then (n, Inl (InvalidHeader (AlreadyVotedForLaterRound (h_round h) (vi_round vi))))
                 else if h_round h = vi_round vi then
                   (if vote_digest v \<noteq> vi_vote_digest vi
                    then (n, Inl (InvalidHeader (AlreadyVoted (header_digest H h) (h_round h))))
                    else (n, Inr (RVote v)))
                 else fresh)"

text \<open>\<open>None\<close>: the wait for the parents does not end.\<close>

definition vote_inner ::
  "hash_fun \<Rightarrow> vote_env \<Rightarrow> header \<Rightarrow> certificate list \<Rightarrow> vote_node \<Rightarrow> (vote_node \<times> vote_result) option" where
  "vote_inner H env h ps n =
     (case vote_gate H env h ps of
        Inl e \<Rightarrow> Some (n, Inl e)
      | Inr _ \<Rightarrow>
          (let (rq, out) = vote_parents H env h ps (requested_parents n);
               n1 = n\<lparr>requested_parents := rq\<rparr>
           in case out of
                Inl e \<Rightarrow> Some (n1, Inl e)
              | Inr missing \<Rightarrow>
                  if missing \<noteq> [] then Some (n1, Inr (RMissingParents missing))
                  else case notify_read_parent_certificates H env h of
                         None \<Rightarrow> None
                       | Some (Inl e) \<Rightarrow> Some (n1, Inl e)
                       | Some (Inr certs) \<Rightarrow>
                           Some (case check_quorum env h certs of
                                   Inl e \<Rightarrow> (n1, Inl e)
                                 | Inr _ \<Rightarrow>
                                     (case sync_header_batches H env h 0 of
                                        Inl e \<Rightarrow> (n1, Inl (InvalidHeader e))
                                      | Inr _ \<Rightarrow>
                                          (case check_time env h of
                                             Inl e \<Rightarrow> (n1, Inl e)
                                           | Inr _ \<Rightarrow> cast_vote H env h n1)))))"

section \<open>A request from start to end\<close>

text \<open>The first part: \<open>Some\<close> is the final answer, \<open>None\<close> starts the evaluation.\<close>

definition vote_start ::
  "hash_fun \<Rightarrow> committee \<Rightarrow> nat \<Rightarrow> auth_id \<Rightarrow> header \<Rightarrow> certificate list \<Rightarrow> vote_node \<Rightarrow> vote_node \<times> vote_result option" where
  "vote_start H c now peer h ps n =
     (case authority c (author h) of
        None \<Rightarrow> (n, Some (Inl (InvalidHeader (UnknownAuthority (author h)))))
      | Some a \<Rightarrow>
          if peer \<noteq> auth_ident a then (n, Some (Inl (InvalidHeader PeerNotAuthor)))
          else let (cache, out) = check_equivocation H now h ps (auth_last_vote n)
               in (n\<lparr>auth_last_vote := cache\<rparr>, out))"

text \<open>The second part: the result is cached, with errors in the form that is sent.\<close>

definition vote_finish ::
  "hash_fun \<Rightarrow> vote_env \<Rightarrow> header \<Rightarrow> certificate list \<Rightarrow> vote_node \<Rightarrow> (vote_node \<times> vote_result) option" where
  "vote_finish H env h ps n =
     (case vote_inner H env h ps n of None \<Rightarrow> None
      | Some (n1, res) \<Rightarrow>
          (let cached = (case res of Inr msg \<Rightarrow> msg | Inl e \<Rightarrow> into_error_ref e);
               cache = guard_complete (author h) (h_epoch h) (h_round h) (header_digest H h) cached (auth_last_vote n1)
           in Some (n1\<lparr>auth_last_vote := cleanup_auth_last_vote (ve_instant env) cache\<rparr>, res)))"

section \<open>Requests that interleave\<close>

text \<open>
  The node with the requests it evaluates, the votes it has sent so far and its epoch. \<open>U\<close> is the
  set of the headers that are ever proposed. A request can
  be cancelled, the process can restart (only the tables survive), and a new epoch clears the tables
  and starts a new handler.
\<close>

record vote_world =
  vw_node :: vote_node
  vw_running :: "(header \<times> certificate list) list"
  vw_issued :: "vote list"
  vw_epoch :: epoch

fun votes_of :: "vote_result \<Rightarrow> vote list" where
  "votes_of (Inr (RVote v)) = [v]"
| "votes_of _ = []"

definition vote_node_new :: vote_node where
  "vote_node_new = \<lparr>auth_last_vote = [], requested_parents = [], votes_table = [], last_proposed = []\<rparr>"

definition vote_world_new :: "epoch \<Rightarrow> vote_world" where
  "vote_world_new e = \<lparr>vw_node = vote_node_new, vw_running = [], vw_issued = [], vw_epoch = e\<rparr>"

inductive vote_step :: "hash_fun \<Rightarrow> header_wire set \<Rightarrow> vote_world \<Rightarrow> vote_world \<Rightarrow> bool" for H U where
  answer: "vote_start H c now peer h ps (vw_node w) = (n, Some res) \<Longrightarrow>
    vote_step H U w (w\<lparr>vw_node := n, vw_issued := vw_issued w @ votes_of res\<rparr>)"
| begin_task: "wire h \<in> U \<Longrightarrow> vote_start H c now peer h ps (vw_node w) = (n, None) \<Longrightarrow>
    vote_step H U w (w\<lparr>vw_node := n, vw_running := (h, ps) # vw_running w\<rparr>)"
| finish: "(h, ps) \<in> set (vw_running w) \<Longrightarrow> committee_epoch (ve_committee env) = vw_epoch w \<Longrightarrow>
    vote_finish H env h ps (vw_node w) = Some (n, res) \<Longrightarrow>
    vote_step H U w (w\<lparr>vw_node := n, vw_running := remove1 (h, ps) (vw_running w), vw_issued := vw_issued w @ votes_of res\<rparr>)"
| cancel: "(h, ps) \<in> set (vw_running w) \<Longrightarrow>
    vote_step H U w (w\<lparr>vw_node := (vw_node w)\<lparr>auth_last_vote := guard_drop (author h) (h_round h) (auth_last_vote (vw_node w))\<rparr>,
      vw_running := remove1 (h, ps) (vw_running w)\<rparr>)"
| restart: "vote_step H U w
    (w\<lparr>vw_node := (vw_node w)\<lparr>auth_last_vote := [], requested_parents := []\<rparr>, vw_running := []\<rparr>)"
| next_epoch: "vw_epoch w < e \<Longrightarrow>
    vote_step H U w (w\<lparr>vw_node := vote_node_new, vw_running := [], vw_epoch := e\<rparr>)"

section \<open>One vote per author, epoch and round\<close>

definition same_slot :: "vote \<Rightarrow> vote \<Rightarrow> bool" where
  "same_slot v w \<longleftrightarrow> vote_origin v = vote_origin w \<and> vote_epoch v = vote_epoch w \<and> vote_round v = vote_round w"

text \<open>The table holds the latest vote for each author of the epoch.\<close>

definition latest_vote :: "vote_node \<Rightarrow> epoch \<Rightarrow> vote list \<Rightarrow> bool" where
  "latest_vote n e issued \<longleftrightarrow>
     (\<forall>a vi. read_vote_info n a = Some vi \<longrightarrow> vi_epoch vi = e)
     \<and> (\<forall>v \<in> set issued. vote_epoch v \<le> e
          \<and> (vote_epoch v = e \<longrightarrow> (\<exists>vi. read_vote_info n (vote_origin v) = Some vi \<and> vote_round v \<le> vi_round vi
               \<and> (vote_round v = vi_round vi \<longrightarrow> vote_header_digest v = vi_vote_digest vi))))
     \<and> (\<forall>v \<in> set issued. \<forall>w \<in> set issued. same_slot v w \<longrightarrow> vote_header_digest v = vote_header_digest w)"

lemma latest_voteD:
  assumes "latest_vote n e issued"
  shows "read_vote_info n a = Some vi \<Longrightarrow> vi_epoch vi = e"
    "v \<in> set issued \<Longrightarrow> vote_epoch v \<le> e"
    "v \<in> set issued \<Longrightarrow> vote_epoch v = e \<Longrightarrow> \<exists>vi. read_vote_info n (vote_origin v) = Some vi \<and> vote_round v \<le> vi_round vi
       \<and> (vote_round v = vi_round vi \<longrightarrow> vote_header_digest v = vi_vote_digest vi)"
    "v \<in> set issued \<Longrightarrow> w \<in> set issued \<Longrightarrow> same_slot v w \<Longrightarrow> vote_header_digest v = vote_header_digest w"
  using assms by (simp_all add: latest_vote_def)

lemma latest_vote_cong: "votes_table n' = votes_table n \<Longrightarrow> latest_vote n' e issued = latest_vote n e issued"
  by (simp add: latest_vote_def read_vote_info_def)

text \<open>A further vote that agrees with the table after it.\<close>

lemma latest_vote_snoc:
  assumes "latest_vote n e issued" "read_vote_info n (vote_origin v) = Some vi" "vote_epoch v = e"
    and "vote_round v = vi_round vi" "vote_header_digest v = vi_vote_digest vi"
  shows "latest_vote n e (issued @ [v])"
proof -
  note l = latest_voteD [OF assms(1)]
  have same: "vote_header_digest w = vote_header_digest v" if w: "w \<in> set issued" "same_slot w v" for w
  proof -
    have "vote_epoch w = e" "vote_origin w = vote_origin v" "vote_round w = vote_round v"
      using w(2) assms(3) by (simp_all add: same_slot_def)
    with l(3) [OF w(1)] assms(2,4,5) show ?thesis by auto
  qed
  have sym: "same_slot v w \<Longrightarrow> same_slot w v" for w by (simp add: same_slot_def)
  have "vote_header_digest x = vote_header_digest y" if xy: "x \<in> set (issued @ [v])" "y \<in> set (issued @ [v])" "same_slot x y" for x y
  proof -
    consider "x \<in> set issued" "y \<in> set issued" | "x \<in> set issued" "y = v" | "x = v" "y \<in> set issued" | "x = v" "y = v"
      using xy(1,2) by auto
    then show ?thesis
    proof cases
      case 1
      from l(4) [OF 1 xy(3)] show ?thesis .
    next
      case 2
      from same [OF 2(1)] xy(3) 2(2) show ?thesis by simp
    next
      case 3
      from same [OF 3(2)] sym xy(3) 3(1) show ?thesis by simp
    qed simp
  qed
  moreover have "vote_epoch x \<le> e \<and> (vote_epoch x = e \<longrightarrow> (\<exists>vi. read_vote_info n (vote_origin x) = Some vi \<and> vote_round x \<le> vi_round vi
       \<and> (vote_round x = vi_round vi \<longrightarrow> vote_header_digest x = vi_vote_digest vi)))" if "x \<in> set (issued @ [v])" for x
    using that l(2,3) [of x] assms(2-5) by (cases "x = v") simp_all
  ultimately show ?thesis unfolding latest_vote_def using l(1) by blast
qed

text \<open>Moving the entry of one author up to a later round.\<close>

lemma latest_vote_write:
  assumes l: "latest_vote n e issued" and inv: "bt_inv (votes_table n)" and v: "vote_epoch v = e"
    and up: "\<And>vi. read_vote_info n (vote_origin v) = Some vi \<Longrightarrow> vi_round vi < vote_round v"
  shows "latest_vote (write_vote v n) e issued"
proof -
  note d = latest_voteD [OF l]
  have rd: "read_vote_info (write_vote v n) a = (if a = vote_origin v then Some (vote_info_of v) else read_vote_info n a)" for a
    using inv by (simp add: read_vote_info_def write_vote_def bt_get_insert)
  have "\<exists>vi. read_vote_info (write_vote v n) (vote_origin x) = Some vi \<and> vote_round x \<le> vi_round vi
      \<and> (vote_round x = vi_round vi \<longrightarrow> vote_header_digest x = vi_vote_digest vi)" if x: "x \<in> set issued" "vote_epoch x = e" for x
  proof -
    obtain vi where vi: "read_vote_info n (vote_origin x) = Some vi" "vote_round x \<le> vi_round vi"
      "vote_round x = vi_round vi \<longrightarrow> vote_header_digest x = vi_vote_digest vi" using d(3) [OF x] by blast
    show ?thesis
    proof (cases "vote_origin x = vote_origin v")
      case True
      then have "vi_round vi < vote_round v" using up vi(1) by simp
      then show ?thesis unfolding rd using True vi(2) by (simp add: vote_info_of_def)
    qed (use vi rd in auto)
  qed
  moreover have "read_vote_info (write_vote v n) a = Some vi \<Longrightarrow> vi_epoch vi = e" for a vi
    unfolding rd using d(1) v by (auto simp: vote_info_of_def split: if_splits)
  ultimately show ?thesis unfolding latest_vote_def using d(2,4) by blast
qed

lemma cast_vote_ok:
  assumes l: "latest_vote n e issued" "bt_inv (votes_table n)" and h: "h_epoch h = e"
    and cast: "cast_vote H env h n = (n', res)"
  shows "latest_vote n' e (issued @ votes_of res) \<and> bt_inv (votes_table n') \<and> auth_last_vote n' = auth_last_vote n"
proof (cases "ve_me env")
  case None
  then show ?thesis using cast l by (auto simp: cast_vote_def)
next
  case (Some me)
  define v where "v = vote_new H (ve_sign env) h me"
  have v: "vote_origin v = author h" "vote_epoch v = e" "vote_round v = h_round h" "vote_header_digest v = header_digest H h"
    by (simp_all add: v_def vote_new_def Let_def h)
  let ?fresh = "(write_vote v n)\<lparr>last_proposed := bt_insert (author h) h (last_proposed n)\<rparr>"
  have fresh: "latest_vote ?fresh e (issued @ [v]) \<and> bt_inv (votes_table ?fresh) \<and> auth_last_vote ?fresh = auth_last_vote n"
    if up: "\<And>vi. read_vote_info n (author h) = Some vi \<Longrightarrow> vi_round vi < h_round h"
  proof -
    have "latest_vote (write_vote v n) e issued" by (rule latest_vote_write [OF l v(2)]) (use up v in simp)
    moreover have "read_vote_info (write_vote v n) (vote_origin v) = Some (vote_info_of v)"
      using l(2) by (simp add: read_vote_info_def write_vote_def bt_get_insert)
    ultimately have "latest_vote (write_vote v n) e (issued @ [v])"
      by (rule latest_vote_snoc) (simp_all add: v vote_info_of_def vote_digest_def)
    then have "latest_vote ?fresh e (issued @ [v])" using latest_vote_cong [of ?fresh "write_vote v n"] by simp
    then show ?thesis using l(2) by (simp add: write_vote_def)
  qed
  show ?thesis
  proof (cases "read_vote_info n (author h)")
    case None
    then have "n' = ?fresh" "res = Inr (RVote v)" using cast Some by (simp_all add: cast_vote_def v_def Let_def)
    then show ?thesis using fresh None by simp
  next
    case (Some vi)
    consider "n' = n" "votes_of res = []" | "n' = n" "res = Inr (RVote v)" "h_round h = vi_round vi" "header_digest H h = vi_vote_digest vi"
      | "n' = ?fresh" "res = Inr (RVote v)" "vi_round vi < h_round h"
      using cast \<open>ve_me env = Some me\<close> Some v
      by (auto simp: cast_vote_def Let_def vote_digest_def v_def [symmetric] split: if_splits)
    then show ?thesis
    proof cases
      case 2
      have "latest_vote n e (issued @ [v])" by (rule latest_vote_snoc [OF l(1)]) (use 2 v Some in simp_all)
      then show ?thesis using 2 l(2) by simp
    next
      case 3
      then show ?thesis using fresh Some by simp
    qed (use l in simp)
  qed
qed

text \<open>What an evaluation that answers with a vote has checked.\<close>

definition votable :: "hash_fun \<Rightarrow> vote_env \<Rightarrow> header \<Rightarrow> certificate list \<Rightarrow> bool" where
  "votable H env h certs \<longleftrightarrow>
     header_validate H (ve_committee env) h = Inr () \<and> 1 \<le> h_round h
     \<and> notify_read_parent_certificates H env h = Some (Inr certs) \<and> check_quorum env h certs = Inr ()"

lemma vote_inner_cases:
  assumes "vote_inner H env h ps n = Some (n', res)"
  shows "(\<exists>rq. n' = n\<lparr>requested_parents := rq\<rparr>) \<and> votes_of res = []
    \<or> (\<exists>rq certs. votable H env h certs \<and> cast_vote H env h (n\<lparr>requested_parents := rq\<rparr>) = (n', res))"
proof (cases "vote_gate H env h ps")
  case (Inl e)
  then show ?thesis using assms by (auto simp: vote_inner_def intro!: exI [of _ "requested_parents n"])
next
  case (Inr u)
  then have g: "header_validate H (ve_committee env) h = Inr ()" "1 \<le> h_round h"
    by (auto simp: vote_gate_def Let_def split: sum.splits if_splits)
  obtain rq out where p: "vote_parents H env h ps (requested_parents n) = (rq, out)" by (metis surj_pair)
  show ?thesis
  proof (cases "out = Inr [] \<and> (\<exists>certs. votable H env h certs)")
    case True
    then obtain certs where c: "votable H env h certs" by blast
    then have "(case sync_header_batches H env h 0 of Inl e \<Rightarrow> (n\<lparr>requested_parents := rq\<rparr>, Inl (InvalidHeader e))
        | Inr _ \<Rightarrow> (case check_time env h of Inl e \<Rightarrow> (n\<lparr>requested_parents := rq\<rparr>, Inl e)
             | Inr _ \<Rightarrow> cast_vote H env h (n\<lparr>requested_parents := rq\<rparr>))) = (n', res)"
      using assms Inr p True by (simp add: vote_inner_def votable_def Let_def)
    then show ?thesis using c by (auto split: sum.splits)
  next
    case False
    have "n' = n\<lparr>requested_parents := rq\<rparr> \<and> votes_of res = []"
      using assms Inr p False g
      by (auto simp: vote_inner_def votable_def Let_def split: sum.splits option.splits if_splits)
    then show ?thesis by blast
  qed
qed

text \<open>Cached votes are votes that were sent.\<close>

definition cache_ok :: "vote_cache \<Rightarrow> vote list \<Rightarrow> bool" where
  "cache_ok cache issued \<longleftrightarrow> bt_inv cache
     \<and> (\<forall>a e r d v. bt_get cache a = Some (Completed e r d (Some (RVote v))) \<longrightarrow> v \<in> set issued)"

definition vote_inv :: "vote_world \<Rightarrow> bool" where
  "vote_inv w \<longleftrightarrow> latest_vote (vw_node w) (vw_epoch w) (vw_issued w) \<and> bt_inv (votes_table (vw_node w))
     \<and> cache_ok (auth_last_vote (vw_node w)) (vw_issued w)"

lemma cache_ok_mono: "cache_ok cache issued \<Longrightarrow> cache_ok cache (issued @ sent)"
  by (auto simp: cache_ok_def)

lemma cache_ok_retain: "cache_ok cache issued \<Longrightarrow> cache_ok (bt_retain P cache) issued"
  by (auto simp: cache_ok_def bt_get_retain split: option.splits if_splits)

lemma cache_ok_remove: "cache_ok cache issued \<Longrightarrow> cache_ok (bt_remove a cache) issued"
  by (auto simp: cache_ok_def bt_get_remove)

lemma cache_ok_insert:
  assumes "cache_ok cache issued" "\<And>e r d v. s = Completed e r d (Some (RVote v)) \<Longrightarrow> v \<in> set issued"
  shows "cache_ok (bt_insert a s cache) issued"
  using assms by (auto simp: cache_ok_def bt_get_insert)

lemma cache_ok_check:
  assumes "cache_ok cache issued" "check_equivocation H now h ps cache = (cache', out)"
  shows "cache_ok cache' issued \<and> (\<forall>res. out = Some res \<longrightarrow> cache' = cache \<and> set (votes_of res) \<subseteq> set issued)"
proof -
  let ?new = "bt_insert (author h) (InFlight (h_epoch h) (h_round h) (header_digest H h) now) cache"
  have new: "cache_ok ?new issued" by (rule cache_ok_insert [OF assms(1)]) simp
  have cached: "v \<in> set issued" if "bt_get cache (author h) = Some (Completed e r d (Some (RVote v)))" for e r d v
    using assms(1) that by (simp add: cache_ok_def)
  from assms(2) have "(cache', out) = (?new, None) \<or> (\<exists>res. (cache', out) = (cache, Some res) \<and> set (votes_of res) \<subseteq> set issued)"
    by (auto simp: check_equivocation_def Let_def cached split: option.splits auth_vote_state.splits if_splits
        primary_response.splits)
  with new assms(1) show ?thesis by auto
qed

lemma into_error_votes [simp]: "into_error_ref e = RVote v \<longleftrightarrow> False"
  by (auto simp: into_error_ref_def split: network_error.splits header_error.splits)

lemma cache_ok_finish:
  assumes "cache_ok cache issued"
  shows "cache_ok (cleanup_auth_last_vote now (guard_complete a e r d (case res of Inr msg \<Rightarrow> msg | Inl e \<Rightarrow> into_error_ref e) cache))
    (issued @ votes_of res)"
proof -
  have "cache_ok (guard_complete a e r d (case res of Inr msg \<Rightarrow> msg | Inl e \<Rightarrow> into_error_ref e) cache) (issued @ votes_of res)"
    unfolding guard_complete_def Let_def
    using assms cache_ok_mono [OF assms] by (cases res) (auto intro!: cache_ok_insert)
  then show ?thesis
    by (simp add: cleanup_auth_last_vote_def evict_oldest_completed_def evict_expired_inflight_def Let_def cache_ok_retain)
qed

lemma latest_vote_again:
  "latest_vote n e issued \<Longrightarrow> set sent \<subseteq> set issued \<Longrightarrow> latest_vote n e (issued @ sent)"
proof -
  assume a: "latest_vote n e issued" "set sent \<subseteq> set issued"
  then have "set (issued @ sent) = set issued" by auto
  with a(1) show ?thesis unfolding latest_vote_def by (simp only:)
qed

lemma vote_step_inv: "vote_step H U w w' \<Longrightarrow> vote_inv w \<Longrightarrow> vote_inv w'"
proof (induction rule: vote_step.induct)
  case (answer c now peer h ps w n res)
  note i = answer.prems [unfolded vote_inv_def]
  have "n = vw_node w \<and> set (votes_of res) \<subseteq> set (vw_issued w)"
    using answer.hyps cache_ok_check [of "auth_last_vote (vw_node w)" "vw_issued w" H now h ps] i
    by (auto simp: vote_start_def Let_def split: option.splits if_splits prod.splits)
  with i latest_vote_again cache_ok_mono show ?case by (simp add: vote_inv_def)
next
  case (begin_task h c now peer ps w n)
  note i = begin_task.prems [unfolded vote_inv_def]
  obtain cache where "n = (vw_node w)\<lparr>auth_last_vote := cache\<rparr>" "cache_ok cache (vw_issued w)"
    using begin_task.hyps(2) cache_ok_check [of "auth_last_vote (vw_node w)" "vw_issued w" H now h ps] i
    by (auto simp: vote_start_def Let_def split: option.splits if_splits prod.splits)
  with i latest_vote_cong [of n "vw_node w"] show ?case by (simp add: vote_inv_def)
next
  case (finish h ps w env n res)
  note i = finish.prems [unfolded vote_inv_def]
  obtain n1 where n1: "vote_inner H env h ps (vw_node w) = Some (n1, res)"
    and n: "n = n1\<lparr>auth_last_vote := cleanup_auth_last_vote (ve_instant env) (guard_complete (author h) (h_epoch h) (h_round h)
      (header_digest H h) (case res of Inr msg \<Rightarrow> msg | Inl e \<Rightarrow> into_error_ref e) (auth_last_vote n1))\<rparr>"
    using finish.hyps(3) by (auto simp: vote_finish_def Let_def split: option.splits prod.splits)
  have "latest_vote n1 (vw_epoch w) (vw_issued w @ votes_of res) \<and> bt_inv (votes_table n1)
      \<and> auth_last_vote n1 = auth_last_vote (vw_node w)"
    using vote_inner_cases [OF n1]
  proof (elim disjE conjE exE)
    fix rq assume "n1 = (vw_node w)\<lparr>requested_parents := rq\<rparr>" "votes_of res = []"
    with i latest_vote_cong [of n1 "vw_node w"] show ?thesis by simp
  next
    fix rq certs assume v: "votable H env h certs" and c: "cast_vote H env h ((vw_node w)\<lparr>requested_parents := rq\<rparr>) = (n1, res)"
    have "latest_vote ((vw_node w)\<lparr>requested_parents := rq\<rparr>) (vw_epoch w) (vw_issued w)"
      using i latest_vote_cong [of "(vw_node w)\<lparr>requested_parents := rq\<rparr>" "vw_node w"] by simp
    moreover have "h_epoch h = vw_epoch w" 
      using header_validate_Inr(1) [of H "ve_committee env" h] v finish.hyps(2) by (simp add: votable_def)
    ultimately show ?thesis using cast_vote_ok [OF _ _ _ c] i by simp
  qed
  with i n latest_vote_cong [of n n1] cache_ok_finish show ?case by (simp add: vote_inv_def)
next
  case (cancel h ps w)
  note i = cancel.prems [unfolded vote_inv_def]
  have "cache_ok (guard_drop (author h) (h_round h) (auth_last_vote (vw_node w))) (vw_issued w)"
    using i by (auto simp: guard_drop_def cache_ok_remove split: option.splits auth_vote_state.splits)
  with i show ?case by (simp add: vote_inv_def latest_vote_def read_vote_info_def)
next
  case (restart w)
  then show ?case by (simp add: vote_inv_def latest_vote_def read_vote_info_def cache_ok_def)
next
  case (next_epoch w e)
  note l = latest_voteD [OF next_epoch.prems [unfolded vote_inv_def, THEN conjunct1]]
  have "vote_epoch v < e" if "v \<in> set (vw_issued w)" for v using l(2) [OF that] next_epoch.hyps by simp
  then have "latest_vote vote_node_new e (vw_issued w)"
    using l(4) unfolding latest_vote_def by (auto simp: read_vote_info_def vote_node_new_def intro: less_imp_le)
  then show ?case by (simp add: vote_inv_def vote_node_new_def cache_ok_def)
qed

lemma vote_reachable_inv:
  "(vote_step H U)\<^sup>*\<^sup>* w w' \<Longrightarrow> vote_inv w \<Longrightarrow> vote_inv w'"
  by (induction rule: rtranclp_induct) (auto intro: vote_step_inv)

lemma vote_world_new_inv: "vote_inv (vote_world_new e)"
  by (simp add: vote_inv_def vote_world_new_def latest_vote_def vote_node_new_def read_vote_info_def cache_ok_def)

text \<open>Every vote that was sent is the vote for a proposed header whose digest is its hash.\<close>

definition vote_for :: "hash_fun \<Rightarrow> header_wire set \<Rightarrow> vote \<Rightarrow> bool" where
  "vote_for H U v \<longleftrightarrow> (\<exists>h. wire h \<in> U \<and> header_digest H h = header_hash H h \<and> vote_origin v = author h
     \<and> vote_round v = h_round h \<and> vote_epoch v = h_epoch h \<and> vote_header_digest v = header_digest H h)"

lemma cast_vote_for:
  assumes "cast_vote H env h n = (n', res)" "v \<in> set (votes_of res)" "wire h \<in> U" "header_digest H h = header_hash H h"
  shows "vote_for H U v"
proof -
  have "\<exists>me. v = vote_new H (ve_sign env) h me"
    using assms(1,2) by (auto simp: cast_vote_def Let_def split: option.splits if_splits)
  then show ?thesis using assms(3,4) unfolding vote_for_def vote_new_def Let_def by (intro exI [of _ h]) auto
qed

definition sent_ok :: "hash_fun \<Rightarrow> header_wire set \<Rightarrow> vote_world \<Rightarrow> bool" where
  "sent_ok H U w \<longleftrightarrow> (\<forall>v \<in> set (vw_issued w). vote_for H U v) \<and> (\<forall>(h, ps) \<in> set (vw_running w). wire h \<in> U)"

lemma vote_step_sent: "vote_step H U w w' \<Longrightarrow> vote_inv w \<Longrightarrow> sent_ok H U w \<Longrightarrow> sent_ok H U w'"
proof (induction rule: vote_step.induct)
  case (answer c now peer h ps w n res)
  note i = answer.prems(1) [unfolded vote_inv_def]
  have "set (votes_of res) \<subseteq> set (vw_issued w)"
    using answer.hyps cache_ok_check [of "auth_last_vote (vw_node w)" "vw_issued w" H now h ps] i
    by (auto simp: vote_start_def Let_def split: option.splits if_splits prod.splits)
  with answer.prems(2) show ?case by (auto simp: sent_ok_def)
next
  case (finish h ps w env n res)
  obtain n1 where n1: "vote_inner H env h ps (vw_node w) = Some (n1, res)"
    using finish.hyps(3) by (auto simp: vote_finish_def Let_def split: option.splits prod.splits)
  have U: "wire h \<in> U" using finish.hyps(1) finish.prems(2) by (auto simp: sent_ok_def)
  have "vote_for H U v" if "v \<in> set (votes_of res)" for v
    using vote_inner_cases [OF n1]
  proof (elim disjE conjE exE)
    fix rq certs assume "votable H env h certs" and c: "cast_vote H env h ((vw_node w)\<lparr>requested_parents := rq\<rparr>) = (n1, res)"
    then show ?thesis using cast_vote_for [OF c that U] header_validate_Inr(3) [of H "ve_committee env" h] by (simp add: votable_def)
  qed (use that in simp)
  with finish.prems(2) show ?case by (auto simp: sent_ok_def dest!: set_remove1_subset [THEN subsetD])
next
  case (cancel h ps w)
  then show ?case by (auto simp: sent_ok_def dest!: set_remove1_subset [THEN subsetD])
qed (auto simp: sent_ok_def)

lemma votes_sent:
  assumes "(vote_step H U)\<^sup>*\<^sup>* (vote_world_new e) w" "v \<in> set (vw_issued w)"
  shows "vote_for H U v"
proof -
  have "vote_inv w \<and> sent_ok H U w"
    using assms(1)
  proof (induction rule: rtranclp_induct)
    case base
    show ?case using vote_world_new_inv by (simp add: sent_ok_def vote_world_new_def)
  next
    case (step y z)
    then show ?case using vote_step_inv vote_step_sent by blast
  qed
  then show ?thesis using assms(2) by (simp add: sent_ok_def)
qed

section \<open>What a vote vouches for\<close>

lemma check_parents_of_Inr:
  assumes "check_parents_of c h ps seen stake = Inr power_sum"
  shows "(\<forall>p \<in> set ps. c_epoch p = h_epoch h \<and> c_round p + 1 = h_round h \<and> h_created_at (c_header p) \<le> h_created_at h)
    \<and> distinct (map origin ps) \<and> origin ` set ps \<inter> seen = {}
    \<and> power_sum = stake + (\<Sum>p\<leftarrow>ps. voting_power_by_id c (origin p))"
  using assms
proof (induction ps arbitrary: seen stake)
  case (Cons p ps)
  then have c: "c_epoch p = h_epoch h" "c_round p + 1 = h_round h" "\<not> h_created_at h < h_created_at (c_header p)"
    "origin p \<notin> seen"
    "check_parents_of c h ps (insert (origin p) seen) (stake + voting_power_by_id c (origin p)) = Inr power_sum"
    by (auto split: if_splits)
  from Cons.IH [OF c(5)] c(1-4) show ?case by auto
qed simp

lemma sum_list_origins:
  assumes "distinct (map origin ps)"
  shows "(\<Sum>p\<leftarrow>ps. voting_power_by_id c (origin p)) = (\<Sum>i \<in> origin ` set ps. voting_power_by_id c i)"
  using sum_list_distinct_conv_sum_set [of "map origin ps" "voting_power_by_id c"] assms
  by (simp add: o_def)

lemma vote_inner_votable:
  assumes "vote_inner H env h ps n = Some (n', Inr (RVote v))"
  shows "\<exists>certs. votable H env h certs"
  using vote_inner_cases [OF assms] by auto

lemma votable_quorum:
  assumes "votable H env h certs"
  shows "(\<forall>p \<in> set certs. c_epoch p = h_epoch h \<and> c_round p + 1 = h_round h \<and> h_created_at (c_header p) \<le> h_created_at h)
    \<and> distinct (map origin certs)
    \<and> quorum_threshold (ve_committee env) \<le> (\<Sum>i \<in> origin ` set certs. voting_power_by_id (ve_committee env) i)"
proof -
  obtain stake where c: "check_parents_of (ve_committee env) h certs {} 0 = Inr stake" "quorum_threshold (ve_committee env) \<le> stake"
    using assms by (auto simp: votable_def check_quorum_def Let_def split: sum.splits if_splits)
  note p = check_parents_of_Inr [OF c(1)]
  then show ?thesis using c(2) sum_list_origins [of certs "ve_committee env"] by simp
qed

text \<open>The parents that the checks ran on are the parents of the header.\<close>

lemma map_filter_all: "(\<And>x. x \<in> set xs \<Longrightarrow> \<exists>y. f x = Some y \<and> g y = x) \<Longrightarrow> map g (List.map_filter f xs) = xs"
proof (induction xs)
  case (Cons x xs)
  obtain y where "f x = Some y" "g y = x" using Cons.prems [of x] by auto
  then show ?case using Cons.IH Cons.prems by (simp add: List.map_filter_simps)
qed (simp add: List.map_filter_simps)

lemma find_Some_digest: "d \<in> set (map (cert_digest H) gs) \<Longrightarrow> \<exists>g. List.find (\<lambda>g. cert_digest H g = d) gs = Some g \<and> cert_digest H g = d"
  by (induction gs) auto

lemma notify_read_digests:
  assumes "store_ok H U (store_after_wait env)" "notify_read_parent_certificates H env h = Some (Inr certs)"
  shows "map (cert_digest H) certs = parents h"
proof (cases "h_round h = 1")
  case True
  then have "List.find (\<lambda>d. d \<notin> set (map (cert_digest H) (ve_genesis env))) (parents h) = None"
    "certs = List.map_filter (\<lambda>d. List.find (\<lambda>g. cert_digest H g = d) (ve_genesis env)) (parents h)"
    using assms(2) by (auto simp: notify_read_parent_certificates_def split: option.splits)
  then show ?thesis using find_Some_digest [of _ H "ve_genesis env"] by (auto simp: find_None_iff intro!: map_filter_all)
next
  case False
  then have "list_all (contains (store_after_wait env)) (parents h)"
    "certs = List.map_filter (store_read (store_after_wait env)) (parents h)"
    using assms(2) by (auto simp: notify_read_parent_certificates_def split: if_splits)
  moreover have "\<exists>y. store_read s x = Some y \<and> cert_digest H y = x" if "contains s x" "store_ok H U s" for s x
    using that index_okD(3) [OF store_okD(1) [OF that(2)]] by (auto simp: contains_def store_read_def)
  ultimately show ?thesis using assms(1) by (auto simp: list_all_iff intro!: map_filter_all)
qed

lemma sent_once:
  assumes "(vote_step H U)\<^sup>*\<^sup>* (vote_world_new e) w" "v1 \<in> set (vw_issued w)" "v2 \<in> set (vw_issued w)" "same_slot v1 v2"
  shows "vote_header_digest v1 = vote_header_digest v2"
proof -
  have "vote_inv w" by (rule vote_reachable_inv [OF assms(1) vote_world_new_inv])
  then have "latest_vote (vw_node w) (vw_epoch w) (vw_issued w)" by (simp add: vote_inv_def)
  from latest_voteD(4) [OF this assms(2-4)] show ?thesis .
qed

section \<open>Properties\<close>



text \<open>C28. Refusal. When the node has voted for a header of an author in some round and the author
  asks for a vote on another header of that round or on a header of an earlier round or of another
  epoch, the evaluation ends in an error or asks for parents, never in a vote, and the table of votes
  and the record of the last headers stay as they were.\<close>

theorem equivocation_refused:
  assumes "vote_inner H env h ps n = Some (n', res)" "read_vote_info n (author h) = Some vi"
    and "vi_epoch vi \<noteq> h_epoch h \<or> h_round h < vi_round vi
      \<or> h_round h = vi_round vi \<and> header_digest H h \<noteq> vi_vote_digest vi"
  shows "votes_of res = [] \<and> votes_table n' = votes_table n \<and> last_proposed n' = last_proposed n"
proof -
  have "cast_vote H env h (n\<lparr>requested_parents := rq\<rparr>) = (n', res) \<Longrightarrow> ?thesis" for rq
    using assms(2,3) by (auto simp: cast_vote_def read_vote_info_def Let_def vote_new_def vote_digest_def
        split: option.splits if_splits)
  with vote_inner_cases [OF assms(1)] show ?thesis by auto
qed

section \<open>Examples\<close>

definition ex_vote_store :: cert_store where
  "ex_vote_store = write_all ex_hash [ex_cert 1 1, ex_cert 1 2, ex_cert 1 3] store_empty"

definition ex_vote_bus :: consensus_bus where
  "ex_vote_bus = \<lparr>committed_round_updates = 0, gc_round_updates = 0, primary_round_updates = 0, cert_store_round = 0,
     execution_replay_complete = True, recently_executed = recent_new 4, current_mode = CvvActive, mode_transition = None,
     barrier = None, sequence_ch = [], committed_ch = [], fetcher_ch = [], shutdown_notified = False\<rparr>"

definition ex_vote_env :: vote_env where
  "ex_vote_env = \<lparr>ve_committee = ex_committee, ve_me = Some 2, ve_sign = (\<lambda>d. d), ve_gc_depth = 50,
     max_proposed_header_age_limit = 3, max_header_time_drift_tolerance = 1, ve_bus = ex_vote_bus, ve_genesis = [],
     ve_store = ex_vote_store, ve_pending = pending_new, ve_manager_open = True, ve_accept = (\<lambda>_. Inr ()),
     store_after_wait = ex_vote_store, ve_sync = None, ve_now = 5, ve_instant = 1\<rparr>"

definition ex_vote :: vote where
  "ex_vote = vote_new ex_hash (\<lambda>d. d) (c_header (ex_cert 2 1)) 2"

lemma ex_vote_store_eval:
  "store_read ex_vote_store 101 = Some (ex_cert 1 1)" "store_read ex_vote_store 102 = Some (ex_cert 1 2)"
  "store_read ex_vote_store 103 = Some (ex_cert 1 3)" "contains ex_vote_store 101" "contains ex_vote_store 102"
  "contains ex_vote_store 103"
  by (simp_all add: ex_vote_store_def write_all_def save_cert_def store_empty_def contains_def store_read_def bt_get_def)

lemma ex_vote_header [simp]:
  "parents (c_header (ex_cert 2 a)) = [101, 102, 103]" "h_created_at (c_header (ex_cert r a)) = r"
  "latest_execution_block (c_header (ex_cert r a)) = (0, 0)" "header_digest ex_hash (c_header (ex_cert r a)) = 100 * r + a"
  using ex_cert_fields(4) [of 2 a] ex_cert_fields(5) [of r a]
  by (simp_all add: ex_cert_def header_new_def Let_def cert_digest_def)

lemma ex_vote_gate: "vote_gate ex_hash ex_vote_env (c_header (ex_cert 2 1)) [] = Inr ()"
  using ex_header_valid [of 1 2]
  by (simp add: vote_gate_def ex_vote_env_def ex_vote_bus_def anchor_diverges_from_executed_def block_at_number_def
      recent_new_def Let_def)

lemma ex_vote_parents: "vote_parents ex_hash ex_vote_env (c_header (ex_cert 2 1)) [] [] = ([], Inr [])"
  by (simp add: vote_parents_def check_for_missing_parents_def identify_unknown_parents_def ex_vote_env_def multi_contains_def
      ex_vote_store_eval filter_unknown_digests_def Let_def)

lemma ex_vote_read:
  "notify_read_parent_certificates ex_hash ex_vote_env (c_header (ex_cert 2 1)) = Some (Inr [ex_cert 1 1, ex_cert 1 2, ex_cert 1 3])"
  by (simp add: notify_read_parent_certificates_def ex_vote_env_def ex_vote_store_eval List.map_filter_simps)

lemma ex_vote_quorum: "check_quorum ex_vote_env (c_header (ex_cert 2 1)) [ex_cert 1 1, ex_cert 1 2, ex_cert 1 3] = Inr ()"
  by (simp add: check_quorum_def ex_vote_env_def ex_thresholds ex_powers)

lemma ex_vote_inner:
  "\<exists>n. vote_inner ex_hash ex_vote_env (c_header (ex_cert 2 1)) [] (vote_node_new\<lparr>auth_last_vote := cache\<rparr>) = Some (n, Inr (RVote ex_vote))
    \<and> read_vote_info n 1 = Some \<lparr>vi_epoch = 0, vi_round = 2, vi_vote_digest = 201\<rparr> \<and> auth_last_vote n = cache"
proof -
  have "sync_header_batches ex_hash ex_vote_env (c_header (ex_cert 2 1)) 0 = Inr ()" "check_time ex_vote_env (c_header (ex_cert 2 1)) = Inr ()"
    "ve_me ex_vote_env = Some 2" "ve_sign ex_vote_env = (\<lambda>d. d)"
    by (simp_all add: sync_header_batches_def check_time_def ex_vote_env_def ex_vote_bus_def Let_def)
  then show ?thesis
    using ex_vote_gate ex_vote_parents ex_vote_read ex_vote_quorum
    by (simp add: vote_inner_def vote_node_new_def cast_vote_def read_vote_info_def ex_vote_def Let_def write_vote_def
        vote_info_of_def vote_new_def vote_digest_def bt_get_def del: One_nat_def)
qed

lemma ex_vote_store_ok: "store_ok ex_hash ex_wires ex_vote_store"
  unfolding ex_vote_store_def by (rule write_all_ok [OF ex_collision_free store_empty_ok]) (simp add: ex_sealed)

lemma three_steps: "R a b \<Longrightarrow> R b c \<Longrightarrow> R c d \<Longrightarrow> R\<^sup>*\<^sup>* a d"
  by simp

text \<open>A request, its evaluation, and the same request again, which is answered from the cache.\<close>

lemma ex_vote_run:
  "\<exists>w. (vote_step ex_hash ex_wires)\<^sup>*\<^sup>* (vote_world_new 0) w \<and> vw_issued w = [ex_vote, ex_vote]"
proof -
  let ?h = "c_header (ex_cert 2 1)" and ?w0 = "vote_world_new 0"
  let ?n1 = "vote_node_new\<lparr>auth_last_vote := [(1, InFlight 0 2 201 0)]\<rparr>"
  let ?w1 = "?w0\<lparr>vw_node := ?n1, vw_running := (?h, []) # vw_running ?w0\<rparr>"
  have a: "authority ex_committee 1 = Some (ex_authority 1)" "auth_ident (ex_authority 1) = 1"
    by (simp_all add: authority_def ex_committee_def bt_get_def ex_authority_def)
  have "vote_start ex_hash ex_committee 0 1 ?h [] (vw_node ?w0) = (?n1, None)"
    using a by (simp add: vote_start_def check_equivocation_def vote_world_new_def vote_node_new_def Let_def del: One_nat_def)
  moreover have "wire ?h \<in> ex_wires" using ex_sealed [of 1 2] by (simp add: sealed_def)
  ultimately have s1: "vote_step ex_hash ex_wires ?w0 ?w1" by (intro begin_task)
  obtain n where n: "vote_inner ex_hash ex_vote_env ?h [] ?n1 = Some (n, Inr (RVote ex_vote))" "auth_last_vote n = [(1, InFlight 0 2 201 0)]"
    using ex_vote_inner by blast
  let ?n2 = "n\<lparr>auth_last_vote := [(1, Completed 0 2 201 (Some (RVote ex_vote)))]\<rparr>"
  let ?w2 = "?w1\<lparr>vw_node := ?n2, vw_running := remove1 (?h, []) (vw_running ?w1), vw_issued := vw_issued ?w1 @ votes_of (Inr (RVote ex_vote))\<rparr>"
  have "vote_finish ex_hash ex_vote_env ?h [] (vw_node ?w1) = Some (?n2, Inr (RVote ex_vote))"
    using n by (simp add: vote_finish_def guard_complete_def cleanup_auth_last_vote_def evict_expired_inflight_def
        evict_oldest_completed_def MAX_AUTH_LAST_VOTE_ENTRIES_def bt_retain_def bt_get_def Let_def del: One_nat_def)
  moreover have "(?h, []) \<in> set (vw_running ?w1)" "committee_epoch (ve_committee ex_vote_env) = vw_epoch ?w1"
    by (simp_all add: ex_vote_env_def ex_committee_def vote_world_new_def)
  ultimately have s2: "vote_step ex_hash ex_wires ?w1 ?w2" by (intro finish)
  have "vote_start ex_hash ex_committee 3 1 ?h [] (vw_node ?w2) = (?n2, Some (Inr (RVote ex_vote)))"
    using a by (simp add: vote_start_def check_equivocation_def bt_get_def Let_def del: One_nat_def)
  then have s3: "vote_step ex_hash ex_wires ?w2 (?w2\<lparr>vw_node := ?n2, vw_issued := vw_issued ?w2 @ votes_of (Inr (RVote ex_vote))\<rparr>)"
    by (rule answer)
  have "vw_issued (?w2\<lparr>vw_node := ?n2, vw_issued := vw_issued ?w2 @ votes_of (Inr (RVote ex_vote))\<rparr>) = [ex_vote, ex_vote]"
    by (simp add: vote_world_new_def)
  with three_steps [of "vote_step ex_hash ex_wires", OF s1 s2 s3] show ?thesis by blast
qed



theorem equivocation_refused_witness:
  "\<exists>n n' res. vote_inner ex_hash ex_vote_env (c_header (ex_cert 2 1)) [] n = Some (n', res)
    \<and> read_vote_info n 1 = Some \<lparr>vi_epoch = 0, vi_round = 2, vi_vote_digest = 7\<rparr> \<and> votes_of res = []
    \<and> votes_table n' = votes_table n"
proof -
  let ?n = "vote_node_new\<lparr>votes_table := [(1, \<lparr>vi_epoch = 0, vi_round = 2, vi_vote_digest = 7\<rparr>)]\<rparr>"
  have "\<exists>y. vote_inner ex_hash ex_vote_env (c_header (ex_cert 2 1)) [] ?n = Some y"
    using ex_vote_gate ex_vote_parents ex_vote_read by (simp add: vote_inner_def vote_node_new_def Let_def del: One_nat_def)
  then obtain n' res where r: "vote_inner ex_hash ex_vote_env (c_header (ex_cert 2 1)) [] ?n = Some (n', res)" by (metis surj_pair)
  have "read_vote_info ?n 1 = Some \<lparr>vi_epoch = 0, vi_round = 2, vi_vote_digest = 7\<rparr>"
    by (simp add: read_vote_info_def bt_get_def)
  with equivocation_refused [OF r] r show ?thesis by (intro exI [of _ ?n] exI [of _ n'] exI [of _ res]) simp
qed

end
