(* ===== verification/Cert_Causality.thy ===== *)
theory Cert_Causality
  imports Cert_Manager
begin

text \<open>
  Certificates are accepted in causal order. Above a floor (the highest garbage-collection bound
  used so far) a stored certificate of round two or later has all its parents stored, a pending one
  has each parent stored or among those it waits for, and Bullshark receives a certificate after
  its parents.
\<close>

section \<open>Invariant\<close>

text \<open>
  A quorum-signed certificate names parents of the round before: honest voters check it
  (\<open>InvalidParentRound\<close>). It is a hypothesis on the encodings \<open>U\<close> in use.
\<close>

definition parents_below :: "hash_fun \<Rightarrow> header_wire set \<Rightarrow> bool" where
  "parents_below H U \<longleftrightarrow>
     (\<forall>x y. sealed H U x \<longrightarrow> sealed H U y \<longrightarrow> cert_digest H y \<in> set (c_parents x) \<longrightarrow> c_round x = c_round y + 1)"

definition waits_ok :: "hash_fun \<Rightarrow> header_wire set \<Rightarrow> pending_manager \<Rightarrow> bool" where
  "waits_ok H U pm \<longleftrightarrow>
     (\<forall>d c m. bt_get (pm_pending pm) d = Some (c, m) \<longrightarrow>
        sealed H U c \<and> is_verified c \<and> 2 \<le> c_round c \<and> m \<subseteq> set (c_parents c))"

definition stored :: "cert_manager \<Rightarrow> digest set" where
  "stored cm = {d. contains (cm_store cm) d}"

definition causal :: "round \<Rightarrow> digest set \<Rightarrow> certificate \<Rightarrow> bool" where
  "causal floor S c \<longleftrightarrow> c_round c \<le> floor + 1 \<or> c_round c \<le> 1 \<or> set (c_parents c) \<subseteq> S"

definition causal_list :: "hash_fun \<Rightarrow> round \<Rightarrow> digest set \<Rightarrow> certificate list \<Rightarrow> bool" where
  "causal_list H floor S certs \<longleftrightarrow>
     (\<forall>i < length certs. causal floor (S \<union> cert_digest H ` set (take i certs)) (certs ! i))"

definition waits_causal :: "round \<Rightarrow> digest set \<Rightarrow> pending_manager \<Rightarrow> bool" where
  "waits_causal floor S pm \<longleftrightarrow> (\<forall>d c m. bt_get (pm_pending pm) d = Some (c, m) \<longrightarrow> causal floor (S \<union> m) c)"

definition cm_ok :: "hash_fun \<Rightarrow> header_wire set \<Rightarrow> round \<Rightarrow> cert_manager \<Rightarrow> bool" where
  "cm_ok H U floor cm \<longleftrightarrow>
     pending_ok H (cm_pending cm) \<and> waits_ok H U (cm_pending cm) \<and> store_ok H U (cm_store cm)
     \<and> cm_gc_round cm \<le> floor
     \<and> (\<forall>d c. store_read (cm_store cm) d = Some c \<longrightarrow> is_verified c \<and> causal floor (stored cm) c)
     \<and> waits_causal floor (stored cm) (cm_pending cm)"

text \<open>Bullshark's channel, from the digests \<open>S\<close> that were stored when the task started.\<close>

definition channel_ok :: "hash_fun \<Rightarrow> round \<Rightarrow> digest set \<Rightarrow> cert_manager \<Rightarrow> bool" where
  "channel_ok H floor S cm \<longleftrightarrow>
     stored cm = S \<union> cert_digest H ` set (new_certificates_ch cm) \<and> causal_list H floor S (new_certificates_ch cm)"

definition alive :: "cm_env \<Rightarrow> bool" where
  "alive env \<longleftrightarrow> (\<forall>n. \<not> noticed env n \<and> parents_open env n \<and> consensus_open env n)"

lemma causal_mono: "causal floor S c \<Longrightarrow> floor \<le> floor' \<Longrightarrow> S \<subseteq> S' \<Longrightarrow> causal floor' S' c"
  by (auto simp: causal_def)

lemma causal_list_mono: "causal_list H floor S certs \<Longrightarrow> floor \<le> floor' \<Longrightarrow> S \<subseteq> S' \<Longrightarrow> causal_list H floor' S' certs"
  by (fastforce simp: causal_list_def intro: causal_mono)

lemma causal_list_append:
  assumes "causal_list H floor S xs" "causal_list H floor (S \<union> cert_digest H ` set xs) ys"
  shows "causal_list H floor S (xs @ ys)"
  unfolding causal_list_def
proof (intro allI impI)
  fix i assume i: "i < length (xs @ ys)"
  show "causal floor (S \<union> cert_digest H ` set (take i (xs @ ys))) ((xs @ ys) ! i)"
  proof (cases "i < length xs")
    case True
    then show ?thesis using assms(1) by (simp add: causal_list_def nth_append)
  next
    case False
    then have "causal floor (S \<union> cert_digest H ` set xs \<union> cert_digest H ` set (take (i - length xs) ys)) (ys ! (i - length xs))"
      using assms(2) i by (simp add: causal_list_def)
    with False show ?thesis by (simp add: nth_append image_Un Un_assoc)
  qed
qed

lemma causal_list_member:
  assumes "causal_list H floor S certs" "c \<in> set certs"
  shows "causal floor (S \<union> cert_digest H ` set certs) c"
proof -
  from assms(2) obtain i where i: "i < length certs" "c = certs ! i" by (auto simp: in_set_conv_nth)
  with assms(1) have "causal floor (S \<union> cert_digest H ` set (take i certs)) c" by (simp add: causal_list_def)
  then show ?thesis by (rule causal_mono) (use set_take_subset [of i certs] in auto)
qed

section \<open>Storing\<close>

lemma write_all_table:
  "certificates_table (write_all H certs s) =
   fold (\<lambda>(k, v). bt_insert k v) (map (\<lambda>c. (cert_digest H c, c)) certs) (certificates_table s)"
  by (induction certs arbitrary: s) (simp_all add: write_all_def save_cert_def)

lemma write_all_get:
  assumes "bt_inv (certificates_table s)"
  shows "bt_get (certificates_table (write_all H certs s)) =
    bt_get (certificates_table s) ++ map_of (rev (map (\<lambda>c. (cert_digest H c, c)) certs))"
  unfolding write_all_table by (rule bt.get_collect [OF assms])

lemma write_all_contains:
  "bt_inv (certificates_table s) \<Longrightarrow> {d. contains (write_all H certs s) d} = {d. contains s d} \<union> cert_digest H ` set certs"
  by (auto simp: contains_def write_all_get map_add_None map_of_eq_None_iff image_iff)

lemma write_all_read:
  "bt_inv (certificates_table s) \<Longrightarrow> store_read (write_all H certs s) d = Some c \<Longrightarrow> c \<in> set certs \<or> store_read s d = Some c"
  by (auto simp: store_read_def write_all_get map_add_Some_iff dest!: map_of_SomeD)

lemma cm_okD:
  assumes "cm_ok H U floor cm"
  shows "pending_ok H (cm_pending cm)" "waits_ok H U (cm_pending cm)" "store_ok H U (cm_store cm)"
    "cm_gc_round cm \<le> floor"
    "store_read (cm_store cm) d = Some c \<Longrightarrow> is_verified c \<and> causal floor (stored cm) c"
    "bt_get (pm_pending (cm_pending cm)) d = Some (c, m) \<Longrightarrow> causal floor (stored cm \<union> m) c"
  using assms by (simp_all add: cm_ok_def waits_causal_def)

lemma cm_ok_mono:
  assumes "cm_ok H U floor cm" "floor \<le> floor'"
  shows "cm_ok H U floor' cm"
proof -
  note o = cm_okD [OF assms(1)]
  have "causal floor' (stored cm \<union> m) c" if "bt_get (pm_pending (cm_pending cm)) d = Some (c, m)" for d c m
    by (rule causal_mono [OF o(6) [OF that] assms(2)]) simp
  moreover have "is_verified c \<and> causal floor' (stored cm) c" if "store_read (cm_store cm) d = Some c" for d c
    using o(5) [OF that] causal_mono [OF _ assms(2) subset_refl] by simp
  ultimately show ?thesis using o(1-4) assms(2) by (simp add: cm_ok_def waits_causal_def)
qed

text \<open>Only these fields matter.\<close>

lemma cm_ok_cong:
  "cm_pending cm' = cm_pending cm \<Longrightarrow> cm_store cm' = cm_store cm \<Longrightarrow> cm_gc_round cm' = cm_gc_round cm \<Longrightarrow>
   cm_ok H U floor cm' \<longleftrightarrow> cm_ok H U floor cm"
  by (simp add: cm_ok_def stored_def)

lemma channel_ok_cong:
  "cm_store cm' = cm_store cm \<Longrightarrow> new_certificates_ch cm' = new_certificates_ch cm \<Longrightarrow>
   channel_ok H floor S cm' \<longleftrightarrow> channel_ok H floor S cm"
  by (simp add: channel_ok_def stored_def)

lemma forward_alive:
  assumes "alive env"
  shows "\<exists>cm'. forward_to_dag env cert cm = (cm', Inr ())"
  using assms
  by (auto simp: forward_to_dag_def alive_def Let_def tick_def split: prod.splits option.splits if_splits)

lemma forward_all_alive:
  assumes "alive env"
  shows "\<exists>cm'. forward_all env certs cm = (cm', Inr ()) \<and> forwards certs cm cm'"
proof (induction certs arbitrary: cm)
  case (Cons cert certs)
  let ?cm1 = "tick (record_accepted cert cm)"
  obtain cm2 where fd: "forward_to_dag env cert ?cm1 = (cm2, Inr ())" using forward_alive [OF assms] by blast
  obtain cm' where rest: "forward_all env certs cm2 = (cm', Inr ())" "forwards certs cm2 cm'" using Cons.IH by blast
  have "forwards ([] @ [] @ [cert] @ certs) cm cm'"
    by (rule forwards_trans [OF forwards_record forwards_trans [OF forwards_tick forwards_trans [OF _ rest(2)]]])
      (use forwards_to_dag [OF fd] in simp)
  moreover have "\<not> noticed env (calls (record_accepted cert cm))" using assms by (simp add: alive_def)
  ultimately show ?case using fd rest(1) by (simp add: Let_def)
qed simp

lemma forward_all_errors:
  "forward_all env certs cm = (cm', Inl e) \<Longrightarrow> e = FatalAppendParent \<or> e = FatalForwardAcceptedCertificate"
proof (induction certs arbitrary: cm)
  case (Cons cert certs)
  let ?cm1 = "tick (record_accepted cert cm)"
  obtain cm2 out where fd: "forward_to_dag env cert ?cm1 = (cm2, out)" by (metis surj_pair)
  have out: "e' = FatalAppendParent \<or> e' = FatalForwardAcceptedCertificate" if "out = Inl e'" for e'
    using fd that by (auto simp: forward_to_dag_def Let_def split: prod.splits option.splits if_splits)
  show ?case
    using Cons.prems Cons.IH fd out
    by (cases "noticed env (calls (record_accepted cert cm))"; cases out) (simp_all add: Let_def split: if_splits)
qed simp

text \<open>The certificates of a batch are stored, then forwarded.\<close>

lemma accept_ok:
  assumes cf: "collision_free H U" and ok: "cm_ok H U floor cm"
    and pm: "pending_ok H pm" "waits_ok H U pm"
      "waits_causal floor (stored cm \<union> cert_digest H ` set certs) pm"
    and certs: "\<forall>c \<in> set certs. sealed H U c \<and> is_verified c" "causal_list H floor (stored cm) certs"
    and a: "accept_verified_certificates H env certs (with_pending pm (cm, bus)) = (st', res)"
  shows "cm_ok H U floor (fst st')" "cm_pending (fst st') = pm"
    "alive env \<Longrightarrow> channel_ok H floor S cm \<Longrightarrow> res = Inr () \<and> channel_ok H floor S (fst st')"
    "res = Inr () \<or> res = Inl FatalAppendParent \<or> res = Inl FatalForwardAcceptedCertificate"
proof -
  note o = cm_okD [OF ok]
  define cm1 where "cm1 = fst (persist_and_advance_high_water_mark H certs (with_pending pm (cm, bus)))"
  have f1: "cm_pending cm1 = pm" "cm_store cm1 = write_all H certs (cm_store cm)" "cm_gc_round cm1 = cm_gc_round cm"
    "new_certificates_ch cm1 = new_certificates_ch cm"
    by (simp_all add: cm1_def persist_and_advance_high_water_mark_def with_pending_def Let_def)
  obtain cm2 where f: "forward_all env certs cm1 = (cm2, res)" "fst st' = cm2"
    using a by (auto simp: accept_verified_certificates_def cm1_def split: prod.splits)
  obtain fwd where fwd: "forwards fwd cm1 cm2" using forwards_all [OF f(1)] by blast
  have inv: "bt_inv (certificates_table (cm_store cm))" by (rule index_okD(1) [OF store_okD(1) [OF o(3)]])
  have st1: "stored cm1 = stored cm \<union> cert_digest H ` set certs"
    unfolding stored_def f1(2) by (rule write_all_contains [OF inv])
  have "causal floor (stored cm1) c \<and> is_verified c" if "store_read (cm_store cm1) d = Some c" for d c
    using write_all_read [OF inv that [unfolded f1(2)]]
  proof
    assume "c \<in> set certs"
    then show ?thesis using certs(1) causal_list_member [OF certs(2)] st1 by simp
  next
    assume "store_read (cm_store cm) d = Some c"
    from o(5) [OF this] show ?thesis unfolding st1 by (auto intro: causal_mono)
  qed
  then have ok1: "cm_ok H U floor cm1"
    using o(4) pm write_all_ok [OF cf o(3), of certs] certs(1) by (simp add: cm_ok_def st1 f1)
  have same: "cm_pending cm2 = cm_pending cm1" "cm_store cm2 = cm_store cm1" "cm_gc_round cm2 = cm_gc_round cm1"
    using fwd by (simp_all add: forwards_def)
  show "cm_ok H U floor (fst st')" using ok1 unfolding f(2) cm_ok_cong [OF same] .
  show "cm_pending (fst st') = pm" using same f1 f(2) by simp
  show "res = Inr () \<or> res = Inl FatalAppendParent \<or> res = Inl FatalForwardAcceptedCertificate"
    using f(1) forward_all_errors [of env certs cm1 cm2] by (cases res) auto
  assume al: "alive env" and ch: "channel_ok H floor S cm"
  from forward_all_alive [OF al, of certs cm1] f(1) have r: "res = Inr ()" and fc: "forwards certs cm1 cm2" by auto
  then have chan: "new_certificates_ch cm2 = new_certificates_ch cm @ certs" "stored cm2 = stored cm1"
    using f1 same by (simp_all add: forwards_def stored_def)
  have "causal_list H floor S (new_certificates_ch cm @ certs)"
    by (rule causal_list_append) (use ch certs(2) in \<open>simp_all add: channel_ok_def\<close>)
  then have "channel_ok H floor S cm2" using ch chan st1 by (simp add: channel_ok_def image_Un Un_assoc)
  with r f(2) show "res = Inr () \<and> channel_ok H floor S (fst st')" by simp
qed

section \<open>Releasing pending certificates\<close>

lemma waits_okD:
  "waits_ok H U pm \<Longrightarrow> bt_get (pm_pending pm) d = Some (c, m) \<Longrightarrow>
   sealed H U c \<and> is_verified c \<and> 2 \<le> c_round c \<and> m \<subseteq> set (c_parents c)"
  by (simp add: waits_ok_def)

text \<open>
  What a certificate no longer waits for is stored with the batch, or lies at the floor. Here \<open>(r, d)\<close>
  is the accepted or collected key and \<open>new\<close> the certificates freed before.
\<close>

lemma shed_causal:
  assumes c: "causal floor (S \<union> m) c" and key: "d \<in> S \<or> r \<le> floor"
    and new: "cert_digest H ` set new \<subseteq> S"
  shows "causal floor (S \<union> still_missing ({(r, d)} \<union> cert_key_of H ` set new) c m) c"
proof (cases "c_round c \<le> floor + 1 \<or> c_round c \<le> 1")
  case True
  then show ?thesis by (auto simp: causal_def)
next
  case False
  have "p \<in> S \<union> still_missing ({(r, d)} \<union> cert_key_of H ` set new) c m" if "p \<in> set (c_parents c)" for p
  proof -
    from c False that have "p \<in> S \<or> p \<in> m" by (auto simp: causal_def)
    moreover have "p \<in> S" if "(c_round c - 1, p) \<in> {(r, d)} \<union> cert_key_of H ` set new"
      using that key new False by (auto simp: cert_key_of_def)
    ultimately show ?thesis by (auto simp: still_missing_def)
  qed
  then show ?thesis by (auto simp: causal_def)
qed

lemma cascade_postD:
  assumes "cascade_post H K pm pm' new"
  shows "pending_ok H pm'" "distinct (map (cert_digest H) new)"
    "i < length new \<Longrightarrow> \<exists>m. bt_get (pm_pending pm) (cert_digest H (new ! i)) = Some (new ! i, m)
          \<and> still_missing (K \<union> cert_key_of H ` set (take i new)) (new ! i) m = {}"
    "bt_get (pm_pending pm) x = Some (c, m) \<Longrightarrow> bt_get (pm_pending pm') x =
            (if c \<in> set new then None else Some (c, still_missing (K \<union> cert_key_of H ` set new) c m))"
    "bt_get (pm_pending pm) x = None \<Longrightarrow> bt_get (pm_pending pm') x = None"
  using assms by (simp_all add: cascade_post_def)

lemma cascade_orig:
  assumes "cascade_post H K pm pm' new" "bt_get (pm_pending pm') x = Some (c, m')"
  shows "\<exists>m. bt_get (pm_pending pm) x = Some (c, m) \<and> m' = still_missing (K \<union> cert_key_of H ` set new) c m"
proof (cases "bt_get (pm_pending pm) x")
  case None
  with cascade_postD(5) [OF assms(1)] assms(2) show ?thesis by simp
next
  case (Some e)
  obtain c0 m0 where e: "e = (c0, m0)" by (cases e)
  from cascade_postD(4) [OF assms(1) Some [unfolded e]] assms(2)
  have "c = c0" "m' = still_missing (K \<union> cert_key_of H ` set new) c0 m0" by (auto split: if_splits)
  with Some e show ?thesis by simp
qed

lemma release_waits:
  assumes w: "waits_ok H U pm" and post: "cascade_post H K pm pm' new"
  shows "waits_ok H U pm'" "c \<in> set new \<Longrightarrow> sealed H U c \<and> is_verified c"
proof -
  show "waits_ok H U pm'" unfolding waits_ok_def
  proof (intro allI impI)
    fix d c m' assume "bt_get (pm_pending pm') d = Some (c, m')"
    from cascade_orig [OF post this] obtain m where m: "bt_get (pm_pending pm) d = Some (c, m)"
      "m' = still_missing (K \<union> cert_key_of H ` set new) c m" by auto
    have "m' \<subseteq> m" unfolding m(2) by (auto simp: still_missing_def)
    with waits_okD [OF w m(1)] show "sealed H U c \<and> is_verified c \<and> 2 \<le> c_round c \<and> m' \<subseteq> set (c_parents c)" by auto
  qed
  assume "c \<in> set new"
  then obtain i where "i < length new" "c = new ! i" by (auto simp: in_set_conv_nth)
  with cascade_postD(3) [OF post] obtain m where "bt_get (pm_pending pm) (cert_digest H c) = Some (c, m)" by auto
  from waits_okD [OF w this] show "sealed H U c \<and> is_verified c" by simp
qed

lemma release_causal:
  assumes ok: "cm_ok H U floor cm" and post: "cascade_post H {(r, d)} (cm_pending cm) pm new"
    and pre: "causal_list H floor (stored cm) pre" and key: "d \<in> stored cm \<union> cert_digest H ` set pre \<or> r \<le> floor"
  shows "causal_list H floor (stored cm) (pre @ new)"
    "waits_causal floor (stored cm \<union> cert_digest H ` set (pre @ new)) pm"
proof -
  note o = cm_okD [OF ok]
  let ?S = "stored cm \<union> cert_digest H ` set pre"
  have "causal floor (?S \<union> cert_digest H ` set (take i new)) (new ! i)" if i: "i < length new" for i
  proof -
    obtain m where m: "bt_get (pm_pending (cm_pending cm)) (cert_digest H (new ! i)) = Some (new ! i, m)"
      "still_missing ({(r, d)} \<union> cert_key_of H ` set (take i new)) (new ! i) m = {}"
      using cascade_postD(3) [OF post i] by auto
    have "causal floor (?S \<union> cert_digest H ` set (take i new) \<union> m) (new ! i)"
      by (rule causal_mono [OF o(6) [OF m(1)]]) auto
    from shed_causal [OF this, of d r H "take i new"] key m(2) show ?thesis by auto
  qed
  then have "causal_list H floor ?S new" by (simp add: causal_list_def)
  from causal_list_append [OF pre this] show "causal_list H floor (stored cm) (pre @ new)" .
  show "waits_causal floor (stored cm \<union> cert_digest H ` set (pre @ new)) pm" unfolding waits_causal_def
  proof (intro allI impI)
    fix x c m assume "bt_get (pm_pending pm) x = Some (c, m)"
    from cascade_orig [OF post this] obtain m0 where m0: "bt_get (pm_pending (cm_pending cm)) x = Some (c, m0)"
      "m = still_missing ({(r, d)} \<union> cert_key_of H ` set new) c m0" by auto
    have "causal floor (stored cm \<union> cert_digest H ` set (pre @ new) \<union> m0) c"
      by (rule causal_mono [OF o(6) [OF m0(1)]]) auto
    from shed_causal [OF this, of d r H new] key
    show "causal floor (stored cm \<union> cert_digest H ` set (pre @ new) \<union> m) c" unfolding m0(2) by auto
  qed
qed

text \<open>A key is accepted (or collected) and everything it frees is stored and forwarded.\<close>

lemma release_ok:
  assumes cf: "collision_free H U" and iter: "iter_ok iter" and ok: "cm_ok H U floor cm"
    and pre: "\<forall>c \<in> set pre. sealed H U c \<and> is_verified c" "causal_list H floor (stored cm) pre"
    and key: "d \<in> stored cm \<union> cert_digest H ` set pre \<or> r \<le> floor"
  obtains pm ready where "update_pending iter r d (cm_pending cm) = (pm, Inr ready)"
    "pending_ok H pm" "waits_ok H U pm"
    "waits_causal floor (stored cm \<union> cert_digest H ` set (pre @ ready)) pm"
    "\<forall>c \<in> set (pre @ ready). sealed H U c \<and> is_verified c" "causal_list H floor (stored cm) (pre @ ready)"
proof -
  note o = cm_okD [OF ok]
  obtain pm' new where c: "cascade iter [(r, d)] (cm_pending cm) [] = (pm', Inr new)"
    "cascade_post H {(r, d)} (cm_pending cm) pm' new"
    using cascade_ok [OF iter o(1), of "[(r, d)]" "[]"] by auto
  then have post: "cascade_post H {(r, d)} (cm_pending cm) (publish_count pm') new" by (simp add: cascade_post_def)
  show thesis
  proof (rule that [of "publish_count pm'" new])
    show "update_pending iter r d (cm_pending cm) = (publish_count pm', Inr new)" using c(1) by (simp add: update_pending_def)
  qed (use cascade_postD(1) [OF post] release_waits [OF o(2) post] release_causal [OF ok post pre(2) key] pre(1) in auto)
qed

section \<open>Processing verified certificates\<close>

definition soft_error :: "cert_manager_error \<Rightarrow> bool" where
  "soft_error e \<longleftrightarrow> (\<forall>d. e \<noteq> PendingParentsMismatch d \<and> e \<noteq> PendingCertificateNotFound d)"

lemma missing_parents_eq:
  "set (map fst (filter (\<lambda>(_, exists). \<not> exists) (zip ps (multi_contains s ps)))) = {p \<in> set ps. \<not> contains s p}"
  by (induction ps) (auto simp: multi_contains_def)

lemma get_missing_cases:
  assumes "get_missing_parents env cert (cm, bus) = ((cm', bus'), res)"
  shows "cm' = cm \<or> cm' = tick cm"
    "res = Inr missing \<Longrightarrow> missing = {} \<and> c_round cert = 1
       \<or> c_round cert \<noteq> 1 \<and> missing = {p \<in> set (c_parents cert). p \<notin> stored cm}"
    "res = Inl e \<Longrightarrow> soft_error e"
  using assms unfolding get_missing_parents_def missing_parents_eq
  by (auto simp: stored_def soft_error_def Let_def split: if_splits option.splits)

lemma tick_fields [simp]:
  "cm_pending (tick cm) = cm_pending cm" "cm_store (tick cm) = cm_store cm" "cm_gc_round (tick cm) = cm_gc_round cm"
  "new_certificates_ch (tick cm) = new_certificates_ch cm" "stored (tick cm) = stored cm"
  by (simp_all add: tick_def stored_def)

lemma suspend_ok:
  assumes iter: "iter_ok iter" and ok: "cm_ok H U floor cm"
    and cert: "sealed H U cert" "is_verified cert" "\<not> is_pending (cm_pending cm) (cert_digest H cert)" "2 \<le> c_round cert"
    and miss: "miss = {p \<in> set (c_parents cert). p \<notin> stored cm}" "miss \<noteq> {}"
  obtains pm where "insert_pending H iter cert miss (cm_pending cm) = (pm, Inr ())"
    "cm_ok H U floor (cm\<lparr>cm_pending := pm\<rparr>)"
proof -
  note o = cm_okD [OF ok]
  have "finite miss" using miss(1) by simp
  then obtain pm where pm: "insert_pending H iter cert miss (cm_pending cm) = (pm, Inr ())" "pending_ok H pm"
    and get: "bt_get (pm_pending pm) = (bt_get (pm_pending (cm_pending cm)))(cert_digest H cert \<mapsto> (cert, miss))"
    using insert_pending_ok [OF iter o(1) cert(3) _ miss(2)] by blast
  have new: "causal floor (stored cm \<union> miss) cert" using miss(1) by (auto simp: causal_def)
  have "sealed H U c \<and> is_verified c \<and> 2 \<le> c_round c \<and> m \<subseteq> set (c_parents c) \<and> causal floor (stored cm \<union> m) c"
    if g: "bt_get (pm_pending pm) d = Some (c, m)" for d c m
  proof (cases "d = cert_digest H cert")
    case True
    with g get have "c = cert" "m = miss" by simp_all
    with cert new miss(1) show ?thesis by auto
  next
    case False
    with g get have g0: "bt_get (pm_pending (cm_pending cm)) d = Some (c, m)" by simp
    from waits_okD [OF o(2) g0] o(6) [OF g0] show ?thesis by simp
  qed
  then have "cm_ok H U floor (cm\<lparr>cm_pending := pm\<rparr>)"
    using o(3-5) pm(2) by (simp add: cm_ok_def waits_ok_def waits_causal_def stored_def)
  with pm(1) show thesis by (rule that)
qed

lemma process_one_ok:
  assumes cf: "collision_free H U" and iter: "iter_ok iter" and ok: "cm_ok H U floor cm"
    and cert: "sealed H U cert" "is_verified cert" "\<not> is_pending (cm_pending cm) (cert_digest H cert)"
    and p: "process_one H iter env cert (cm, bus) = (st', res)"
  shows "cm_ok H U floor (fst st') \<and> (alive env \<longrightarrow> channel_ok H floor S cm \<longrightarrow> channel_ok H floor S (fst st'))
    \<and> (\<forall>e. res = Inl e \<longrightarrow> soft_error e)"
proof -
  note o = cm_okD [OF ok]
  define first where "first = (if c_round cert > cm_gc_round cm + 1 then get_missing_parents env cert (cm, bus) else ((cm, bus), Inr {}))"
  obtain cm1 bus1 out where f: "first = ((cm1, bus1), out)" by (metis surj_pair)
  have cm1: "cm1 = cm \<or> cm1 = tick cm"
    using f get_missing_cases(1) by (auto simp: first_def split: if_splits)
  then have same: "cm_pending cm1 = cm_pending cm" "cm_store cm1 = cm_store cm" "cm_gc_round cm1 = cm_gc_round cm"
    "new_certificates_ch cm1 = new_certificates_ch cm" "stored cm1 = stored cm" by auto
  have ok1: "cm_ok H U floor cm1" using ok by (simp add: cm_ok_cong [OF same(1-3)])
  have ch1: "channel_ok H floor S cm1 \<longleftrightarrow> channel_ok H floor S cm" by (rule channel_ok_cong [OF same(2,4)])
  show ?thesis
  proof (cases out)
    case (Inl e)
    then have "st' = (cm1, bus1)" "res = Inl e" using p f by (simp_all add: process_one_def first_def)
    moreover have "soft_error e" using f Inl get_missing_cases(3) by (auto simp: first_def split: if_splits)
    ultimately show ?thesis using ok1 ch1 by simp
  next
    case (Inr miss)
    show ?thesis
    proof (cases "miss = {}")
      case True
      have "causal floor (stored cm1) cert"
        using f Inr True o(4) same(5) get_missing_cases(2) [of env cert cm bus cm1 bus1 out miss]
        by (auto simp: first_def causal_def split: if_splits)
      then have pre: "causal_list H floor (stored cm1) [cert]" by (simp add: causal_list_def)
      obtain pm ready where u: "update_pending iter (c_round cert) (cert_digest H cert) (cm_pending cm1) = (pm, Inr ready)"
        and pm: "pending_ok H pm" "waits_ok H U pm"
          "waits_causal floor (stored cm1 \<union> cert_digest H ` set ([cert] @ ready)) pm"
        and cs: "\<forall>c \<in> set ([cert] @ ready). sealed H U c \<and> is_verified c" "causal_list H floor (stored cm1) ([cert] @ ready)"
        by (rule release_ok [OF cf iter ok1 _ pre, of "cert_digest H cert" "c_round cert"]) (use cert in auto)
      obtain st2 res2 where a: "accept_verified_certificates H env ([cert] @ ready) (with_pending pm (cm1, bus1)) = (st2, res2)"
        by (metis surj_pair)
      have r: "st' = st2" "res = (case res2 of Inl e \<Rightarrow> Inl e | Inr _ \<Rightarrow> Inr False)"
        using p f Inr True u a by (auto simp: process_one_def first_def split: sum.splits)
      show ?thesis using accept_ok [OF cf ok1 pm cs a] ch1 r by (auto simp: soft_error_def)
    next
      case False
      have *: "c_round cert \<noteq> 1 \<and> cm_gc_round cm + 1 < c_round cert \<and> miss = {p \<in> set (c_parents cert). p \<notin> stored cm}"
        using f Inr False get_missing_cases(2) [of env cert cm bus cm1 bus1 out miss]
        by (auto simp: first_def split: if_splits)
      obtain pm where ins: "insert_pending H iter cert miss (cm_pending cm1) = (pm, Inr ())"
        and okp: "cm_ok H U floor (cm1\<lparr>cm_pending := pm\<rparr>)"
        by (rule suspend_ok [OF iter ok1 cert(1,2), of miss]) (use cert(3) * False same in auto)
      have "st' = with_pending pm (cm1, bus1)" "res = Inr True"
        using p f Inr False ins by (simp_all add: process_one_def first_def)
      then show ?thesis using okp ch1 channel_ok_cong [of "cm1\<lparr>cm_pending := pm\<rparr>" cm1] by (simp add: with_pending_def)
    qed
  qed
qed

lemma process_loop_ok:
  assumes cf: "collision_free H U" and iter: "iter_ok iter"
    and "cm_ok H U floor (fst st)" "\<forall>c \<in> set certs. is_verified c \<longrightarrow> sealed H U c" "\<forall>e. result = Inl e \<longrightarrow> soft_error e"
    and "process_loop H iter env certs result st = (st', res)"
  shows "cm_ok H U floor (fst st') \<and> (alive env \<longrightarrow> channel_ok H floor S (fst st) \<longrightarrow> channel_ok H floor S (fst st'))
    \<and> (\<forall>e. res = Inl e \<longrightarrow> soft_error e)"
  using assms(3-)
proof (induction certs arbitrary: result st)
  case (Cons cert certs)
  let ?d = "cert_digest H cert"
  have soft: "soft_error (Pending ?d)" "soft_error (UnverifiedSignature ?d)" by (simp_all add: soft_error_def)
  consider (unverified) "\<not> is_verified cert" | (pending) "is_verified cert" "is_pending (cm_pending (fst st)) ?d"
    | (process) "is_verified cert" "\<not> is_pending (cm_pending (fst st)) ?d" by blast
  then show ?case
  proof cases
    case unverified
    then show ?thesis using Cons.prems soft by auto
  next
    case pending
    then show ?thesis using Cons.IH [of st "Inl (Pending ?d)"] Cons.prems soft by simp
  next
    case process
    obtain cm bus where st: "st = (cm, bus)" by (cases st)
    obtain st1 out where p: "process_one H iter env cert (cm, bus) = (st1, out)" by (metis surj_pair)
    have one: "cm_ok H U floor (fst st1)" "alive env \<longrightarrow> channel_ok H floor S cm \<longrightarrow> channel_ok H floor S (fst st1)"
      "\<forall>e. out = Inl e \<longrightarrow> soft_error e"
      using process_one_ok [OF cf iter _ _ process(1) _ p, of floor S] Cons.prems(1,2) process st by auto
    show ?thesis
    proof (cases out)
      case (Inl e)
      then show ?thesis using Cons.prems process p one st by auto
    next
      case (Inr suspended)
      then have pl: "process_loop H iter env certs (if suspended then Inl (Pending ?d) else result) st1 = (st', res)"
        using Cons.prems process p st by simp
      have soft': "\<forall>e. (if suspended then Inl (Pending ?d) else result) = Inl e \<longrightarrow> soft_error e"
        using Cons.prems(3) soft by (cases suspended) simp_all
      have sealed: "\<forall>c \<in> set certs. is_verified c \<longrightarrow> sealed H U c" using Cons.prems(2) by simp
      from Cons.IH [OF one(1) sealed soft' pl] one(2) show ?thesis unfolding st by simp
    qed
  qed
qed simp

section \<open>Garbage collection\<close>

text \<open>The parent with the lowest key is never pending itself, so nothing is cleared behind its back.\<close>

lemma next_gc_same:
  assumes pb: "parents_below H U" and ok: "pending_ok H pm" and w: "waits_ok H U pm"
    and n: "next_for_gc_round gc pm = (pm', Some (r, d))"
  shows "pm' = pm"
proof (cases "bt_get (pm_pending pm) d")
  case None
  then show ?thesis using n by (auto simp: next_for_gc_round_def split: option.splits if_splits)
next
  case (Some e)
  obtain c m where e: "e = (c, m)" by (cases e)
  note o = pending_okD [OF ok] and wc = waits_okD [OF w Some [unfolded e]]
  obtain S rest where mf: "missing_for_pending pm = ((r, d), S) # rest"
    using n by (auto simp: next_for_gc_round_def bt_first_def split: option.splits if_splits list.splits)
  then have S: "bt_get (missing_for_pending pm) (r, d) = Some S" by (simp add: bt_get_def)
  with o(3) have "S \<noteq> {}" by (simp add: entries_nonempty_def)
  then obtain x where "x \<in> missing_at pm (r, d)" using missing_at_Some [OF S] by auto
  then obtain c' m' where c': "bt_get (pm_pending pm) x = Some (c', m')" "d \<in> m'" "r = c_round c' - 1"
    unfolding o(6) by blast
  have "cert_digest H c = d" using o(5) [OF Some [unfolded e]] by simp
  moreover have "d \<in> set (c_parents c')" "sealed H U c'" using waits_okD [OF w c'(1)] c'(2) by auto
  ultimately have "c_round c' = c_round c + 1" using pb wc unfolding parents_below_def by blast
  then have r: "r = c_round c" using c'(3) by simp
  obtain p where "p \<in> m" using o(5) [OF Some [unfolded e]] by blast
  then have "d \<in> missing_at pm (c_round c - 1, p)" unfolding o(6) using Some e by auto
  then obtain S' where "((c_round c - 1, p), S') \<in> set (missing_for_pending pm)"
    by (auto simp: missing_at_def split: option.splits dest: bt_get_set)
  with o(2) have "(r, d) \<le> (c_round c - 1, p)" unfolding mf by (auto simp: bt_inv_Cons less_imp_le)
  then have "c_round c \<le> c_round c - 1" using r by (auto simp: less_eq_prod_def)
  moreover have "2 \<le> c_round c" using wc by simp
  ultimately show ?thesis by arith
qed

lemma gc_loop_ok:
  assumes cf: "collision_free H U" and iter: "iter_ok iter" and pb: "parents_below H U" and gc: "gc \<le> floor"
    and "cm_ok H U floor (fst st)" "gc_loop H iter env gc st = (st', res)"
  shows "cm_ok H U floor (fst st') \<and> (alive env \<longrightarrow> channel_ok H floor S (fst st) \<longrightarrow> channel_ok H floor S (fst st') \<and> res = Inr ())
    \<and> (\<forall>e. res = Inl e \<longrightarrow> soft_error e)
    \<and> (res = Inr () \<longrightarrow> (\<forall>d c m. bt_get (pm_pending (cm_pending (fst st'))) d = Some (c, m) \<longrightarrow> gc + 1 < c_round c))"
  using assms
proof (induction H iter env gc st rule: gc_loop.induct)
  case (1 H iter env gc st)
  note cf = "1.prems"(1) and iter = "1.prems"(2) and pb = "1.prems"(3) and gc = "1.prems"(4) and ok = "1.prems"(5)
  note o = cm_okD [OF ok] and run = "1.prems"(6) [unfolded gc_loop.simps [of H iter env gc st]]
  obtain pm k where n: "next_for_gc_round gc (cm_pending (fst st)) = (pm, k)" by (metis surj_pair)
  show ?case
  proof (cases k)
    case None
    note nn = next_gc_None [OF n [unfolded None] pending_okD(2) [OF o(1)]]
    have same: "st' = with_pending pm st" "res = Inr ()" using run n None by simp_all
    then have st': "st' = st" using nn(1) by (simp add: with_pending_def)
    have "gc + 1 < c_round c" if g: "bt_get (pm_pending (cm_pending (fst st))) d = Some (c, m)" for d c m
    proof -
      obtain p where "p \<in> m" using pending_okD(5) [OF o(1) g] by blast
      then have "missing_at (cm_pending (fst st)) (c_round c - 1, p) \<noteq> {}" using pending_okD(6) [OF o(1)] g by blast
      from nn(2) [OF this] show ?thesis by simp
    qed
    with st' same ok show ?thesis by auto
  next
    case (Some rd)
    obtain r d where rd: "rd = (r, d)" by (cases rd)
    have n': "next_for_gc_round gc (cm_pending (fst st)) = (pm, Some (r, d))" using n Some rd by simp
    have pm: "pm = cm_pending (fst st)" by (rule next_gc_same [OF pb o(1,2) n'])
    have le: "r \<le> floor" using next_gc_key [OF n'] gc by simp
    obtain pm1 ready where u: "update_pending iter r d (cm_pending (fst st)) = (pm1, Inr ready)"
      and p1: "pending_ok H pm1" "waits_ok H U pm1" "waits_causal floor (stored (fst st) \<union> cert_digest H ` set ready) pm1"
      and cs: "\<forall>c \<in> set ready. sealed H U c \<and> is_verified c" "causal_list H floor (stored (fst st)) ready"
      using release_ok [OF cf iter ok, of "[]" d r] le by (auto simp: causal_list_def)
    obtain st1 out where a: "accept_verified_certificates H env ready (with_pending pm1 st) = (st1, out)" by (metis surj_pair)
    have a': "accept_verified_certificates H env ready (with_pending pm1 (fst st, snd st)) = (st1, out)" using a by simp
    note acc = accept_ok [OF cf ok p1 cs a']
    show ?thesis
    proof (cases out)
      case (Inl e)
      then have "st' = st1" "res = Inl e" using run n' pm u a by simp_all
      with acc Inl show ?thesis by (auto simp: soft_error_def)
    next
      case (Inr x)
      have "gc_loop H iter env gc st1 = (st', res)" using run n' pm u a Inr by simp
      from "1.IH" [OF n' [symmetric] refl refl u [unfolded pm [symmetric], symmetric] refl a [symmetric] Inr cf iter pb gc
          acc(1) this] acc Inr show ?thesis by auto
    qed
  qed
qed

section \<open>The task\<close>

text \<open>
  One turn of the task's loop, with the floor as a ghost: a batch of verified certificates (a fatal
  result ends the task), a new garbage-collection round, or a change by another task of the bus, of
  the shared counter of processed rounds or of the channel of parents.
\<close>

definition fatal :: "cert_manager_error + unit \<Rightarrow> bool" where
  "fatal res \<longleftrightarrow> res = Inl FatalAppendParent \<or> res = Inl FatalForwardAcceptedCertificate"

text \<open>Collecting a round moves the floor to the bound in use.\<close>

definition gc_floor :: "round \<Rightarrow> cm_state \<Rightarrow> round" where
  "gc_floor floor st = max floor (max (cm_gc_round (fst st)) (effective_gc st))"

inductive cm_step ::
  "hash_fun \<Rightarrow> header_wire set \<Rightarrow> iter_fun \<Rightarrow> cm_env \<Rightarrow> round \<times> cm_state \<Rightarrow> round \<times> cm_state \<Rightarrow> bool"
  for H U iter env where
  process: "\<forall>c \<in> set certs. is_verified c \<longrightarrow> sealed H U c \<Longrightarrow> process_verified_certificates H iter env certs st = (st', res) \<Longrightarrow>
     \<not> fatal res \<Longrightarrow> cm_step H U iter env (floor, st) (floor, st')"
| collect: "process_gc_round H iter env (process_next_round st) = (st', Inr ()) \<Longrightarrow>
     cm_step H U iter env (floor, st) (gc_floor floor (process_next_round st), st')"
| other: "cm_step H U iter env (floor, (cm, bus))
     (floor, (cm\<lparr>highest_processed_round := h, parents_ch := ps, calls := n\<rparr>, bus'))"

definition task_inv ::
  "hash_fun \<Rightarrow> header_wire set \<Rightarrow> cm_env \<Rightarrow> digest set \<Rightarrow> round \<times> cm_state \<Rightarrow> bool" where
  "task_inv H U env S x \<longleftrightarrow> cm_ok H U (fst x) (fst (snd x)) \<and> (alive env \<longrightarrow> channel_ok H (fst x) S (fst (snd x)))"

lemma channel_ok_mono: "channel_ok H floor S cm \<Longrightarrow> floor \<le> floor' \<Longrightarrow> channel_ok H floor' S cm"
  by (auto simp: channel_ok_def intro: causal_list_mono)

text \<open>The state in which the loop over the missing parents starts.\<close>

definition gc_start :: "cm_state \<Rightarrow> cm_state" where
  "gc_start st =
     ((fst st)\<lparr>cm_aggregators := am_garbage_collect (cm_gc_round (fst st)) (cm_aggregators (fst st))\<rparr>, snd st)"

lemma process_gc_round_eq: "process_gc_round H iter env st = gc_loop H iter env (effective_gc st) (gc_start st)"
  by (simp add: process_gc_round_def gc_start_def case_prod_beta)

lemma gc_start_ok:
  assumes "task_inv H U env S (floor, st)"
  shows "task_inv H U env S (gc_floor floor (process_next_round st), gc_start (process_next_round st))"
proof -
  let ?st1 = "gc_start (process_next_round st)" and ?floor = "gc_floor floor (process_next_round st)"
  have ok: "cm_ok H U ?floor (fst st)" "alive env \<longrightarrow> channel_ok H ?floor S (fst st)"
    using assms cm_ok_mono [of H U floor "fst st" ?floor] channel_ok_mono [of H floor S "fst st" ?floor]
    by (simp_all add: task_inv_def gc_floor_def)
  have eq: "cm_pending (fst ?st1) = cm_pending (fst st)" "cm_store (fst ?st1) = cm_store (fst st)"
    "new_certificates_ch (fst ?st1) = new_certificates_ch (fst st)" "stored (fst ?st1) = stored (fst st)"
    by (simp_all add: process_next_round_def gc_start_def stored_def)
  have "cm_gc_round (fst ?st1) \<le> ?floor" by (simp add: gc_floor_def gc_start_def)
  with ok(1) have "cm_ok H U ?floor (fst ?st1)" unfolding cm_ok_def eq by blast
  moreover have "alive env \<longrightarrow> channel_ok H ?floor S (fst ?st1)" using ok(2) channel_ok_cong [OF eq(2,3)] by simp
  ultimately show ?thesis by (simp add: task_inv_def)
qed

lemma cm_step_ok:
  assumes cf: "collision_free H U" and iter: "iter_ok iter" and pb: "parents_below H U"
    and "cm_step H U iter env x y" "task_inv H U env S x"
  shows "task_inv H U env S y"
  using assms(4,5)
proof (induction rule: cm_step.induct)
  case (process certs st st' res floor)
  have "\<forall>c \<in> set (sort_by (\<lambda>a b. c_round a \<le> c_round b) certs). is_verified c \<longrightarrow> sealed H U c" using process by simp
  from process_loop_ok [OF cf iter _ this _ process.hyps(2) [unfolded process_verified_certificates_def], of floor S]
    process.prems show ?case by (auto simp: task_inv_def)
next
  case (collect st st' floor)
  have le: "effective_gc (process_next_round st) \<le> gc_floor floor (process_next_round st)" by (simp add: gc_floor_def)
  note inv = gc_start_ok [OF collect.prems, unfolded task_inv_def fst_conv snd_conv]
  from gc_loop_ok [OF cf iter pb le inv [THEN conjunct1] collect.hyps [unfolded process_gc_round_eq]] inv
  show ?case by (simp add: task_inv_def)
next
  case (other floor cm bus n ps h bus')
  let ?cm = "cm\<lparr>highest_processed_round := h, parents_ch := ps, calls := n\<rparr>"
  have "cm_ok H U floor ?cm = cm_ok H U floor cm" "channel_ok H floor S ?cm = channel_ok H floor S cm"
    by (simp_all add: cm_ok_def channel_ok_def stored_def)
  then show ?case using other.prems by (simp add: task_inv_def)
qed

lemma cm_reachable_ok:
  assumes "collision_free H U" "iter_ok iter" "parents_below H U"
    and "(cm_step H U iter env)\<^sup>*\<^sup>* x y" "task_inv H U env S x"
  shows "task_inv H U env S y"
  using assms(4,5) by (induction rule: rtranclp_induct) (auto intro: cm_step_ok [OF assms(1-3)])

lemma cert_manager_new_ok [keeps]:
  "task_inv H U env {} (gc, (cert_manager_new H c depth gc h store_empty, bus))"
  by (simp add: task_inv_def cm_ok_def channel_ok_def causal_list_def waits_ok_def waits_causal_def cert_manager_new_def
      pending_new_ok store_empty_ok stored_def contains_def store_read_def)
    (simp add: store_empty_def pending_new_def)

section \<open>Properties\<close>

definition ex_env :: cm_env where
  "ex_env = \<lparr>noticed = \<lambda>_. False, parents_open = \<lambda>_. True, consensus_open = \<lambda>_. True, fetcher_open = \<lambda>_. True\<rparr>"

definition ex_bus :: consensus_bus where
  "ex_bus = \<lparr>committed_round_updates = 0, gc_round_updates = 0, primary_round_updates = 0, cert_store_round = 0,
     execution_replay_complete = True, recently_executed = recent_new 4, current_mode = CvvActive, mode_transition = None,
     barrier = None, sequence_ch = [], committed_ch = [], fetcher_ch = [], shutdown_notified = False\<rparr>"

definition ex_manager :: cert_manager where
  "ex_manager = cert_manager_new ex_hash ex_committee 50 0 0 store_empty"

lemma ex_alive: "alive ex_env"
  by (simp add: alive_def ex_env_def)

lemma ex_parents_below: "parents_below ex_hash ex_wires"
  unfolding parents_below_def
proof (intro allI impI)
  fix x y assume "sealed ex_hash ex_wires x" "sealed ex_hash ex_wires y" and p: "cert_digest ex_hash y \<in> set (c_parents x)"
  then obtain r a r' a' where x: "wire (c_header x) = wire (c_header (ex_cert r a))"
    and y: "wire (c_header y) = wire (c_header (ex_cert r' a'))" "a' < 100" "cert_digest ex_hash y = ex_hash (wire (c_header y))"
    by (auto simp: sealed_def ex_wires_def)
  have dy: "cert_digest ex_hash y = 100 * r' + a'" using y ex_hash_wire by simp
  have rx: "c_round x = r" "c_parents x = c_parents (ex_cert r a)" "c_round y = r'"
    using wire_eqD [OF x] wire_eqD [OF y(1)] by simp_all
  have r: "r \<noteq> 0" using p rx(2) by (cases "r = 0") simp_all
  then have "cert_digest ex_hash y \<in> (\<lambda>i. 100 * (r - 1) + i) ` set [1, 2, 3]"
    using p unfolding rx(2) ex_cert_fields(4) by (simp only: if_False set_map)
  then obtain i where i: "i \<in> set [1, 2, 3]" "100 * r' + a' = 100 * (r - 1) + i" unfolding dy by (elim imageE)
  have "i < 100" using i(1) by auto
  from ex_digest_inj(1) [OF i(2) y(2) this] have "r' = r - 1" .
  with rx r show "c_round x = c_round y + 1" by simp
qed

text \<open>The four certificates arrive out of order in one batch and are all accepted.\<close>

definition ex_batch :: "certificate list" where
  "ex_batch = [ex_cert 2 1, ex_cert 1 1, ex_cert 1 2, ex_cert 1 3]"

lemmas cm_eval = process_verified_certificates_def process_one_def get_missing_parents_def with_pending_def
  update_pending_def accept_verified_certificates_def persist_and_advance_high_water_mark_def record_accepted_def
  forward_to_dag_def append_certificate_def am_proactive_gc_def certificates_aggregator_append_def
  certificates_aggregator_new_def tick_def u32_max_def Let_def bt_get_def is_pending_def is_verified_def

lemma ex_batch_run:
  "new_certificates_ch (fst (fst (process_verified_certificates ex_hash ex_iter ex_env ex_batch (ex_manager, ex_bus)))) =
     [ex_cert 1 1, ex_cert 1 2, ex_cert 1 3, ex_cert 2 1]
   \<and> snd (process_verified_certificates ex_hash ex_iter ex_env ex_batch (ex_manager, ex_bus)) = Inr ()"
  by (simp add: ex_batch_def ex_manager_def cert_manager_new_def ex_env_def pending_new_def aggregator_manager_new_def
      cm_eval ex_thresholds ex_powers write_all_def save_cert_def store_empty_def multi_contains_def contains_def)

lemma ex_batch_step:
  "(cm_step ex_hash ex_wires ex_iter ex_env)\<^sup>*\<^sup>* (0, (ex_manager, ex_bus))
     (0, fst (process_verified_certificates ex_hash ex_iter ex_env ex_batch (ex_manager, ex_bus)))"
proof (rule r_into_rtranclp, rule cm_step.process [of ex_batch])
  show "\<forall>c \<in> set ex_batch. is_verified c \<longrightarrow> sealed ex_hash ex_wires c" by (simp add: ex_batch_def ex_sealed)
  show "process_verified_certificates ex_hash ex_iter ex_env ex_batch (ex_manager, ex_bus) =
      (fst (process_verified_certificates ex_hash ex_iter ex_env ex_batch (ex_manager, ex_bus)), Inr ())"
    using ex_batch_run by (simp add: prod_eq_iff)
qed (simp add: fatal_def)

text \<open>C19. In every state the certificate task reaches from an empty store, a stored certificate is
  verified, and above the floor of garbage collection (and past round one, whose parents are the
  genesis certificates) all its parents are stored.\<close>

theorem stored_parents:
  assumes "collision_free H U" "iter_ok iter" "parents_below H U"
    and "(cm_step H U iter env)\<^sup>*\<^sup>* (gc, (cert_manager_new H c depth gc h store_empty, bus)) (floor, (cm, bus'))"
    and "store_read (cm_store cm) d = Some x"
  shows "is_verified x \<and> cert_digest H x = d
    \<and> (floor + 1 < c_round x \<longrightarrow> 1 < c_round x \<longrightarrow> (\<forall>p \<in> set (c_parents x). contains (cm_store cm) p))"
proof -
  have "cm_ok H U floor cm"
    using cm_reachable_ok [OF assms(1-4) cert_manager_new_ok] by (simp add: task_inv_def)
  note o = cm_okD [OF this]
  have "cert_digest H x = d" using index_okD(3) [OF store_okD(1) [OF o(3)], of d x] assms(5) by (simp add: store_read_def)
  with o(5) [OF assms(5)] show ?thesis by (auto simp: causal_def stored_def)
qed

theorem stored_parents_witness:
  "store_read (cm_store (fst (fst (process_verified_certificates ex_hash ex_iter ex_env ex_batch (ex_manager, ex_bus))))) 201
     = Some (ex_cert 2 1)
   \<and> list_all (contains (cm_store (fst (fst (process_verified_certificates ex_hash ex_iter ex_env ex_batch (ex_manager, ex_bus))))))
        [101, 102, 103]"
proof -
  let ?st = "fst (process_verified_certificates ex_hash ex_iter ex_env ex_batch (ex_manager, ex_bus))"
  have "store_read (cm_store (fst ?st)) 201 = Some (ex_cert 2 1)"
    by (simp add: ex_batch_def ex_manager_def cert_manager_new_def ex_env_def pending_new_def aggregator_manager_new_def
      cm_eval ex_thresholds ex_powers write_all_def save_cert_def store_empty_def multi_contains_def contains_def store_read_def)
  moreover have "(cm_step ex_hash ex_wires ex_iter ex_env)\<^sup>*\<^sup>*
      (0, (cert_manager_new ex_hash ex_committee 50 0 0 store_empty, ex_bus)) (0, (fst ?st, snd ?st))"
    using ex_batch_step by (simp add: ex_manager_def)
  ultimately show ?thesis
    using stored_parents [OF ex_collision_free ex_iter_ok ex_parents_below, of ex_env 0 ex_committee 50 0 ex_bus 0 "fst ?st" "snd ?st" 201 "ex_cert 2 1"]
    by simp
qed





end
