(* ===== verification/Cert_Validator.thy ===== *)
theory Cert_Validator
  imports Cert_Causality
begin

text \<open>
  The front door for certificates, from
  \<open>crates/consensus/primary/src/state_sync/cert_validator.rs\<close>: the node's own certificates, single
  certificates of peers and batches that were fetched. The rounds shared with the certificate task
  are fields of its state; the validator's own counter is the highest round received. The tasks that
  fetch the batches of accepted headers run beside it and are left out. The reply of the certificate
  task is the result of the call, so the reply channel does not close while the task handles it.
\<close>

section \<open>State and operations\<close>

record cv_env =
  cv_verify :: verify_fun
  max_diff :: round
  last_leader_round :: round
  manager_open :: bool

type_synonym cv_state = "round \<times> cm_state"

text \<open>The window of acceptance slides forward when a certificate is too far ahead.\<close>

definition slide_window :: "round \<Rightarrow> round \<Rightarrow> round \<Rightarrow> round" where
  "slide_window diff cert_round highest_processed =
     (if highest_processed + diff < cert_round then max highest_processed (cert_round - diff)
      else highest_processed)"

definition forward_verified_certs ::
  "hash_fun \<Rightarrow> iter_fun \<Rightarrow> cm_env \<Rightarrow> cv_env \<Rightarrow> round \<Rightarrow> certificate list \<Rightarrow> cv_state \<Rightarrow>
   cv_state \<times> (cert_manager_error + unit)" where
  "forward_verified_certs H iter env cv highest_round certs st =
     (let (received, cm, bus) = st;
          received' = max received highest_round;
          inactive = (\<not> is_active_cvv (current_mode bus));
          bus1 = (if inactive \<and> received' > primary_round_updates bus
                  then bus\<lparr>primary_round_updates := received'\<rparr> else bus)
      in if inactive \<and> \<not> parents_open env (calls cm) then ((received', tick cm, bus1), Inl CmSend)
         else let cm1 = (if inactive then tick (cm\<lparr>parents_ch := parents_ch cm @ [([], received' - 1)]\<rparr>) else cm);
                  floor = max (highest_processed_round cm1) (last_leader_round cv);
                  cm2 = cm1\<lparr>highest_processed_round :=
                          fold (\<lambda>c. slide_window (max_diff cv) (c_round c)) certs floor\<rparr>
              in if \<not> manager_open cv then ((received', cm2, bus1), Inl CmSend)
                 else let (st', res) = process_verified_certificates H iter env certs (cm2, bus1)
                      in ((received', st'), res))"

definition cv_validate_and_verify ::
  "hash_fun \<Rightarrow> cv_env \<Rightarrow> cert_manager \<Rightarrow> certificate \<Rightarrow> cert_manager_error + certificate" where
  "cv_validate_and_verify H cv cm cert =
     (if c_round cert < cm_gc_round cm
      then Inl (CmCertificate (CertTooOld (cert_digest H cert) (c_round cert) (cm_gc_round cm)))
      else case validate_and_verify H (cv_verify cv) (cm_committee cm) cert of
        Inl e \<Rightarrow> Inl (CmCertificate e) | Inr c \<Rightarrow> Inr c)"

definition validator_process_certificate ::
  "hash_fun \<Rightarrow> iter_fun \<Rightarrow> cm_env \<Rightarrow> cv_env \<Rightarrow> certificate \<Rightarrow> bool \<Rightarrow> cv_state \<Rightarrow>
   cv_state \<times> (cert_manager_error + unit)" where
  "validator_process_certificate H iter env cv cert external st =
     (let (received, cm, bus) = st; ours = committee_epoch (cm_committee cm)
      in if c_epoch cert \<noteq> ours then (st, Inl (CmCertificate (CertHeader (InvalidEpoch (c_epoch cert) ours))))
         else if contains (cm_store cm) (cert_digest H cert) then (st, Inr ())
         else case (if external then cv_validate_and_verify H cv cm cert else Inr cert) of
             Inl e \<Rightarrow> (st, Inl e)
           | Inr c \<Rightarrow> forward_verified_certs H iter env cv (c_round c) [c] st)"

definition process_own_certificate ::
  "hash_fun \<Rightarrow> iter_fun \<Rightarrow> cm_env \<Rightarrow> cv_env \<Rightarrow> certificate \<Rightarrow> cv_state \<Rightarrow> cv_state \<times> (cert_manager_error + unit)" where
  "process_own_certificate H iter env cv cert st = validator_process_certificate H iter env cv cert False st"

definition process_peer_certificate ::
  "hash_fun \<Rightarrow> iter_fun \<Rightarrow> cm_env \<Rightarrow> cv_env \<Rightarrow> certificate \<Rightarrow> cv_state \<Rightarrow> cv_state \<times> (cert_manager_error + unit)" where
  "process_peer_certificate H iter env cv cert st = validator_process_certificate H iter env cv cert True st"

section \<open>Batches of fetched certificates\<close>

text \<open>One verification task: certificates below the garbage-collection round are dropped.\<close>

fun verify_task ::
  "hash_fun \<Rightarrow> cv_env \<Rightarrow> cert_manager \<Rightarrow> certificate list \<Rightarrow> cert_manager_error + certificate list" where
  "verify_task H cv cm [] = Inr []"
| "verify_task H cv cm (cert # certs) =
     (case cv_validate_and_verify H cv cm cert of
        Inr verified \<Rightarrow>
          (case verify_task H cv cm certs of Inl e \<Rightarrow> Inl e | Inr vs \<Rightarrow> Inr (verified # vs))
      | Inl (CmCertificate (CertTooOld _ _ _)) \<Rightarrow> verify_task H cv cm certs
      | Inl e \<Rightarrow> Inl e)"

text \<open>The slices of \<open>chunks(n)\<close>, for \<open>n > 0\<close>.\<close>

function chunks :: "nat \<Rightarrow> 'a list \<Rightarrow> 'a list list" where
  "chunks n xs = (if n = 0 \<or> xs = [] then [] else take n xs # chunks n (drop n xs))"
  by pat_completeness auto
termination by (relation "measure (length \<circ> snd)") auto

declare chunks.simps [simp del]

fun join_tasks :: "(cert_manager_error + 'a list) list \<Rightarrow> cert_manager_error + 'a list" where
  "join_tasks [] = Inr []"
| "join_tasks (Inl e # rs) = Inl e"
| "join_tasks (Inr xs # rs) = (case join_tasks rs of Inl e \<Rightarrow> Inl e | Inr ys \<Rightarrow> Inr (xs @ ys))"

text \<open>\<open>None\<close>: the panic of \<open>chunks(0)\<close>.\<close>

definition verify_collection ::
  "hash_fun \<Rightarrow> cv_env \<Rightarrow> nat \<Rightarrow> cert_manager \<Rightarrow> certificate list \<Rightarrow>
   (cert_manager_error + certificate list) option" where
  "verify_collection H cv n cm certs =
     (if certs = [] then Some (Inr [])
      else if n = 0 then None
      else Some (join_tasks (map (verify_task H cv cm) (chunks n certs))))"

definition process_fetched_certificates ::
  "hash_fun \<Rightarrow> iter_fun \<Rightarrow> cm_env \<Rightarrow> cv_env \<Rightarrow> nat \<Rightarrow> certificate list \<Rightarrow> cv_state \<Rightarrow>
   (cv_state \<times> (cert_manager_error + unit)) option" where
  "process_fetched_certificates H iter env cv n certs st =
     (case verify_collection H cv n (fst (snd st)) certs of
        None \<Rightarrow> None
      | Some (Inl e) \<Rightarrow> Some (st, Inl e)
      | Some (Inr verified) \<Rightarrow>
          Some (forward_verified_certs H iter env cv (fold max (map c_round verified) 0) verified st))"

section \<open>The chunks do not matter\<close>

lemma verify_task_append:
  "verify_task H cv cm (xs @ ys) = join_tasks [verify_task H cv cm xs, verify_task H cv cm ys]"
proof (induction xs)
  case Nil
  show ?case by (cases "verify_task H cv cm ys") simp_all
next
  case (Cons x xs)
  show ?case
    by (cases "verify_task H cv cm xs"; cases "verify_task H cv cm ys")
      (use Cons.IH in \<open>auto split: sum.splits cert_manager_error.splits certificate_error.splits\<close>)
qed

lemma join_tasks_Cons: "join_tasks (r # rs) = join_tasks [r, join_tasks rs]"
  by (cases r; cases "join_tasks rs") simp_all

lemma verify_chunks: "0 < n \<Longrightarrow> join_tasks (map (verify_task H cv cm) (chunks n certs)) = verify_task H cv cm certs"
proof (induction n certs rule: chunks.induct)
  case (1 n xs)
  show ?case
  proof (cases "xs = []")
    case False
    then have "chunks n xs = take n xs # chunks n (drop n xs)" using 1(2) by (simp add: chunks.simps [of n xs])
    then have "join_tasks (map (verify_task H cv cm) (chunks n xs)) =
        join_tasks [verify_task H cv cm (take n xs), join_tasks (map (verify_task H cv cm) (chunks n (drop n xs)))]"
      by (simp only: list.map) (rule join_tasks_Cons)
    also have "\<dots> = join_tasks [verify_task H cv cm (take n xs), verify_task H cv cm (drop n xs)]"
      using 1 False by simp
    finally show ?thesis by (simp only: verify_task_append [symmetric] append_take_drop_id)
  qed (simp add: chunks.simps)
qed

section \<open>What the validator lets through\<close>

text \<open>A quorum of signatures: the signers have the quorum of seats and the aggregate verifies.\<close>

definition quorum_signed :: "hash_fun \<Rightarrow> verify_fun \<Rightarrow> committee \<Rightarrow> certificate \<Rightarrow> bool" where
  "quorum_signed H verify c x \<longleftrightarrow>
     (\<exists>s. signature_verification_state x = VerifiedDirectly s
        \<and> quorum_threshold c \<le> fst (signed_by x (bls_keys c))
        \<and> verify s (cert_digest H x) (snd (signed_by x (bls_keys c))))"

text \<open>
  The state in which the callers hand over a certificate of a peer: unverified, after
  \<open>validate_received\<close>, or already verified against the keys of the committee, after
  \<open>verify_cert\<close>.
\<close>

definition peer_ready :: "hash_fun \<Rightarrow> verify_fun \<Rightarrow> committee \<Rightarrow> certificate \<Rightarrow> bool" where
  "peer_ready H verify c x \<longleftrightarrow>
     (case signature_verification_state x of
        Unverified s \<Rightarrow> True
      | VerifiedDirectly s \<Rightarrow> verify s (cert_digest H x) (snd (signed_by x (bls_keys c)))
      | _ \<Rightarrow> False)"

lemma validate_received_ready: "validate_received x = Inr y \<Longrightarrow> peer_ready H verify c y"
  by (auto simp: validate_received_def peer_ready_def split: option.splits)

lemma verify_signature_sound:
  assumes "verify_signature H verify x (snd (signed_by x (bls_keys c))) = Inr y" "peer_ready H verify c x"
  shows "\<exists>s. c_header y = c_header x \<and> signed_authorities y = signed_authorities x
    \<and> signature_verification_state y = VerifiedDirectly s
    \<and> verify s (cert_digest H x) (snd (signed_by x (bls_keys c)))"
  using assms by (auto simp: verify_signature_def peer_ready_def split: if_splits sig_state.splits)

lemma verify_cert_ready:
  assumes "verify_cert H verify (bls_keys c) x = Inr y"
  shows "peer_ready H verify c y"
proof -
  obtain x1 where x1: "validate_received x = Inr x1"
    "verify_signature H verify x1 (snd (signed_by x1 (bls_keys c))) = Inr y"
    using assms by (auto simp: verify_cert_def Let_def split: sum.splits prod.splits option.splits if_splits)
  from verify_signature_sound [OF x1(2) validate_received_ready [OF x1(1)]] show ?thesis
    by (auto simp: peer_ready_def signed_by_def cert_digest_def)
qed

lemma validate_and_verify_sound:
  assumes "validate_and_verify H verify c x = Inr y" "peer_ready H verify c x" "c_round x \<noteq> 0 \<or> \<not> is_verified x"
  shows "c_header y = c_header x
    \<and> (is_verified y \<longrightarrow> header_validate H c (c_header y) = Inr () \<and> quorum_signed H verify c y)"
proof (cases "c_round x = 0 \<and> list_ex (\<lambda>g. cert_eq H g x) (genesis c)")
  case True
  then show ?thesis using assms(1,3) by (auto simp: validate_and_verify_def split: if_splits)
next
  case False
  then have h: "header_validate H c (c_header x) = Inr ()"
    "quorum_threshold c \<le> fst (signed_by x (bls_keys c))"
    "verify_signature H verify x (snd (signed_by x (bls_keys c))) = Inr y"
    using assms(1) by (auto simp: validate_and_verify_def Let_def split: if_splits sum.splits prod.splits)
  from verify_signature_sound [OF h(3) assms(2)] h(1,2) show ?thesis
    by (auto simp: quorum_signed_def signed_by_def cert_digest_def)
qed

lemma cv_verify_sound:
  assumes "cv_validate_and_verify H cv cm x = Inr y" "peer_ready H (cv_verify cv) (cm_committee cm) x"
    and "c_round x \<noteq> 0 \<or> \<not> is_verified x"
  shows "c_header y = c_header x
    \<and> (is_verified y \<longrightarrow> header_validate H (cm_committee cm) (c_header y) = Inr ()
         \<and> quorum_signed H (cv_verify cv) (cm_committee cm) y)"
proof -
  have "validate_and_verify H (cv_verify cv) (cm_committee cm) x = Inr y"
    using assms(1) by (simp add: cv_validate_and_verify_def split: if_splits sum.splits)
  from validate_and_verify_sound [OF this assms(2,3)] show ?thesis .
qed

section \<open>The validator drives the certificate task\<close>

text \<open>Headers that a quorum of the committee signed.\<close>

definition certified_wires :: "hash_fun \<Rightarrow> verify_fun \<Rightarrow> committee \<Rightarrow> header_wire set \<Rightarrow> header_wire set" where
  "certified_wires H verify c U =
     {wire (c_header y) | y. wire (c_header y) \<in> U \<and> header_validate H c (c_header y) = Inr () \<and> quorum_signed H verify c y}"

lemma certified_sealed:
  assumes "header_validate H c (c_header y) = Inr ()" "quorum_signed H verify c y" "wire (c_header y) \<in> U"
  shows "sealed H (certified_wires H verify c U) y"
  using header_validate_Inr(3) [OF assms(1)] assms
  by (auto simp: sealed_def certified_wires_def cert_digest_def header_hash_def)

lemma forward_steps:
  assumes "\<forall>c \<in> set certs. is_verified c \<longrightarrow> sealed H V c" "\<not> fatal res"
    and "forward_verified_certs H iter env cv r certs (received, cm, bus) = ((received', st'), res)"
  shows "(cm_step H V iter env)\<^sup>*\<^sup>* (floor, cm, bus) (floor, st')"
proof -
  have other: "cm_step H V iter env (floor, cm, bus) (floor, cm', bus')"
    if "cm' = cm\<lparr>highest_processed_round := h, parents_ch := ps, calls := n\<rparr>" for cm' bus' h ps n
    unfolding that by (rule cm_step.other)
  define inactive where "inactive \<longleftrightarrow> \<not> is_active_cvv (current_mode bus)"
  define bus1 where "bus1 = (if inactive \<and> max received r > primary_round_updates bus
    then bus\<lparr>primary_round_updates := max received r\<rparr> else bus)"
  define cm1 where "cm1 = (if inactive then tick (cm\<lparr>parents_ch := parents_ch cm @ [([], max received r - 1)]\<rparr>) else cm)"
  define cm2 where "cm2 = cm1\<lparr>highest_processed_round :=
    fold (\<lambda>c. slide_window (max_diff cv) (c_round c)) certs (max (highest_processed_round cm1) (last_leader_round cv))\<rparr>"
  note fw = assms(3) [unfolded forward_verified_certs_def Let_def prod.case, folded inactive_def, folded bus1_def cm1_def,
    folded cm2_def]
  have s1: "cm_step H V iter env (floor, cm, bus) (floor, tick cm, bus1)"
    by (rule other [where h = "highest_processed_round cm" and ps = "parents_ch cm" and n = "calls cm + 1"]) (simp add: tick_def)
  have s2: "cm_step H V iter env (floor, cm, bus) (floor, cm2, bus1)"
    by (rule other [where h = "highest_processed_round cm2" and ps = "parents_ch cm2" and n = "calls cm2"])
      (simp add: cm2_def cm1_def tick_def)
  obtain st2 res2 where p: "process_verified_certificates H iter env certs (cm2, bus1) = (st2, res2)" by (metis surj_pair)
  consider "st' = (tick cm, bus1)" | "st' = (cm2, bus1)" | "st' = st2" "res = res2"
    using fw p by (auto split: if_splits)
  then show ?thesis
  proof cases
    case 3
    have "cm_step H V iter env (floor, cm2, bus1) (floor, st2)"
      by (rule cm_step.process [OF assms(1) p]) (use assms(2) 3 in simp)
    with s2 3 show ?thesis by auto
  qed (use s1 s2 in auto)
qed

text \<open>The task works for one committee.\<close>

lemma accept_committee:
  assumes "accept_verified_certificates H env certs st = (st', res)"
  shows "cm_committee (fst st') = cm_committee (fst st)"
proof -
  obtain cm bus where p: "persist_and_advance_high_water_mark H certs st = (cm, bus)" by (metis surj_pair)
  obtain cm' res' where f: "forward_all env certs cm = (cm', res')" by (metis surj_pair)
  have "cm_committee cm = cm_committee (fst st)"
    using p by (auto simp: persist_and_advance_high_water_mark_def Let_def split: prod.splits)
  with assms p f forwards_all [OF f] show ?thesis by (auto simp: accept_verified_certificates_def forwards_def)
qed

lemma with_pending_committee [simp]: "cm_committee (fst (with_pending pm st)) = cm_committee (fst st)"
  by (simp add: with_pending_def)

lemma missing_committee:
  "get_missing_parents env cert st = (st', res) \<Longrightarrow> cm_committee (fst st') = cm_committee (fst st)"
  by (auto simp: get_missing_parents_def Let_def tick_def split: prod.splits option.splits if_splits)

lemma process_one_committee:
  assumes "process_one H iter env cert st = (st', res)"
  shows "cm_committee (fst st') = cm_committee (fst st)"
proof -
  obtain st1 m where m: "(if c_round cert > cm_gc_round (fst st) + 1 then get_missing_parents env cert st else (st, Inr {})) = (st1, m)"
    by (metis surj_pair)
  then have "cm_committee (fst st1) = cm_committee (fst st)" by (auto split: if_splits dest: missing_committee)
  with assms m show ?thesis
    unfolding process_one_def by (auto split: sum.splits prod.splits if_splits dest!: accept_committee)
qed

lemma process_loop_committee:
  "process_loop H iter env certs result st = (st', res) \<Longrightarrow> cm_committee (fst st') = cm_committee (fst st)"
proof (induction certs arbitrary: result st)
  case (Cons cert certs)
  obtain st1 out where one: "process_one H iter env cert st = (st1, out)" by (metis surj_pair)
  show ?case using Cons process_one_committee [OF one] one
    by (cases out) (auto split: if_splits)
qed simp

lemma gc_loop_committee: "cm_committee (fst (fst (gc_loop H iter env gc st))) = cm_committee (fst st)"
proof (induction H iter env gc st rule: gc_loop.induct)
  case (1 H iter env gc st)
  obtain pm k where n: "next_for_gc_round gc (cm_pending (fst st)) = (pm, k)" by (metis surj_pair)
  show ?case
  proof (cases k)
    case None
    then show ?thesis using n by (simp add: gc_loop.simps [of H iter env gc st])
  next
    case (Some rd)
    obtain r d where rd: "rd = (r, d)" by (cases rd)
    obtain pm' u where u: "update_pending iter r d pm = (pm', u)" by (metis surj_pair)
    show ?thesis
    proof (cases u)
      case (Inl e)
      then show ?thesis using n Some rd u by (simp add: gc_loop.simps [of H iter env gc st])
    next
      case (Inr l)
      obtain st' v where v: "accept_verified_certificates H env l (with_pending pm' st) = (st', v)" by (metis surj_pair)
      note step = n Some rd u Inr v accept_committee [OF v] gc_loop.simps [of H iter env gc st]
      show ?thesis
      proof (cases v)
        case (Inr w)
        with 1 [OF n [symmetric] Some rd [symmetric] u [symmetric] \<open>u = Inr l\<close> v [symmetric]] step show ?thesis by simp
      qed (use step in simp)
    qed
  qed
qed

lemma cm_step_committee: "cm_step H V iter env x y \<Longrightarrow> cm_committee (fst (snd y)) = cm_committee (fst (snd x))"
proof (induction rule: cm_step.induct)
  case (process certs st st' res floor)
  then show ?case using process_loop_committee by (auto simp: process_verified_certificates_def)
next
  case (collect st st' floor)
  have "cm_committee (fst (gc_start (process_next_round st))) = cm_committee (fst st)"
    by (simp add: gc_start_def process_next_round_def)
  with collect gc_loop_committee [of H iter env _ "gc_start (process_next_round st)"] show ?case
    by (metis fst_conv process_gc_round_eq snd_conv)
qed simp

lemma cm_steps_committee:
  "(cm_step H V iter env)\<^sup>*\<^sup>* x y \<Longrightarrow> cm_committee (fst (snd y)) = cm_committee (fst (snd x))"
  by (induction rule: rtranclp_induct) (simp_all add: cm_step_committee)

text \<open>
  The calls of the validator. A certificate of the node itself comes from the certifier, which
  assembled it from a quorum of votes. No member votes for a header of round zero, so a verified
  certificate of a peer has a positive round.
\<close>

inductive cv_step ::
  "hash_fun \<Rightarrow> header_wire set \<Rightarrow> iter_fun \<Rightarrow> cm_env \<Rightarrow> verify_fun \<Rightarrow>
   round \<times> cv_state \<Rightarrow> round \<times> cv_state \<Rightarrow> bool"
  for H U iter env verify where
  own: "sealed H (certified_wires H verify (cm_committee (fst st)) U) x \<Longrightarrow> cv_verify cv = verify \<Longrightarrow>
    process_own_certificate H iter env cv x (received, st) = ((received', st'), res) \<Longrightarrow> \<not> fatal res \<Longrightarrow>
    cv_step H U iter env verify (floor, received, st) (floor, received', st')"
| peer: "peer_ready H verify (cm_committee (fst st)) x \<Longrightarrow> wire (c_header x) \<in> U \<Longrightarrow>
    c_round x \<noteq> 0 \<or> \<not> is_verified x \<Longrightarrow> cv_verify cv = verify \<Longrightarrow>
    process_peer_certificate H iter env cv x (received, st) = ((received', st'), res) \<Longrightarrow> \<not> fatal res \<Longrightarrow>
    cv_step H U iter env verify (floor, received, st) (floor, received', st')"
| fetched: "\<forall>x \<in> set certs. validate_received x = Inr x \<and> wire (c_header x) \<in> U \<Longrightarrow> cv_verify cv = verify \<Longrightarrow>
    process_fetched_certificates H iter env cv n certs (received, st) = Some ((received', st'), res) \<Longrightarrow> \<not> fatal res \<Longrightarrow>
    cv_step H U iter env verify (floor, received, st) (floor, received', st')"
| collect: "process_gc_round H iter env (process_next_round st) = (st', Inr ()) \<Longrightarrow>
    cv_step H U iter env verify (floor, received, st) (gc_floor floor (process_next_round st), received, st')"

lemma validate_received_unverified: "validate_received x = Inr y \<Longrightarrow> \<not> is_verified y"
  by (auto simp: validate_received_def is_verified_def split: option.splits)

lemma verify_task_sound:
  "verify_task H cv cm certs = Inr vs \<Longrightarrow> v \<in> set vs \<Longrightarrow> \<exists>x \<in> set certs. cv_validate_and_verify H cv cm x = Inr v"
  by (induction certs arbitrary: vs)
    (auto split: sum.splits cert_manager_error.splits certificate_error.splits)

lemma verify_collection_eq: "0 < n \<Longrightarrow> verify_collection H cv n cm certs = Some (verify_task H cv cm certs)"
  by (simp add: verify_collection_def verify_chunks)

lemma verify_collection_Inr: "verify_collection H cv n cm certs = Some (Inr vs) \<Longrightarrow> verify_task H cv cm certs = Inr vs"
  by (auto simp: verify_collection_def verify_chunks split: if_splits)

lemma cv_verify_sealed:
  assumes "cv_validate_and_verify H cv cm x = Inr y" "peer_ready H (cv_verify cv) (cm_committee cm) x"
    and "wire (c_header x) \<in> U" "c_round x \<noteq> 0 \<or> \<not> is_verified x" "is_verified y"
  shows "sealed H (certified_wires H (cv_verify cv) (cm_committee cm) U) y"
  using cv_verify_sound [OF assms(1,2,4)] assms(3,5) certified_sealed by metis

lemma validator_process_steps:
  assumes "validator_process_certificate H iter env cv x external (received, st) = ((received', st'), res)" "\<not> fatal res"
    and "\<And>y. (if external then cv_validate_and_verify H cv (fst st) x else Inr x) = Inr y \<Longrightarrow> is_verified y \<longrightarrow> sealed H V y"
  shows "(cm_step H V iter env)\<^sup>*\<^sup>* (floor, st) (floor, st')"
proof -
  obtain cm bus where st: "st = (cm, bus)" by (cases st)
  show ?thesis
  proof (cases "c_epoch x \<noteq> committee_epoch (cm_committee cm) \<or> contains (cm_store cm) (cert_digest H x)")
    case True
    then show ?thesis using assms(1) st by (auto simp: validator_process_certificate_def Let_def split: if_splits)
  next
    case False
    define r where "r = (if external then cv_validate_and_verify H cv cm x else Inr x)"
    have vp: "(case r of Inl e \<Rightarrow> ((received, cm, bus), Inl e)
        | Inr c \<Rightarrow> forward_verified_certs H iter env cv (c_round c) [c] (received, cm, bus)) = ((received', st'), res)"
      using assms(1) False by (simp add: validator_process_certificate_def Let_def st r_def)
    show ?thesis
    proof (cases r)
      case (Inl e)
      then show ?thesis using vp st by simp
    next
      case (Inr c)
      then have "\<forall>c \<in> set [c]. is_verified c \<longrightarrow> sealed H V c"
        using assms(3) [of c, unfolded st fst_conv, folded r_def] by simp
      from forward_steps [OF this assms(2)] vp Inr show ?thesis unfolding st by simp
    qed
  qed
qed

lemma cv_step_cm:
  assumes "cv_step H U iter env verify (floor, received, st) (floor', received', st')"
  shows "(cm_step H (certified_wires H verify (cm_committee (fst st)) U) iter env)\<^sup>*\<^sup>* (floor, st) (floor', st')"
  using assms
proof (cases rule: cv_step.cases)
  case (own x cv res)
  show ?thesis unfolding own(1)
    by (rule validator_process_steps [OF own(4) [unfolded process_own_certificate_def] own(5)]) (use own(2) in auto)
next
  case (peer x cv res)
  note seal = cv_verify_sealed [of H cv "fst st" x _ U, unfolded peer(5)]
  show ?thesis unfolding peer(1)
    by (rule validator_process_steps [OF peer(6) [unfolded process_peer_certificate_def] peer(7)]) (use seal peer(2-4) in auto)
next
  case (fetched certs cv n res)
  obtain cm bus where st: "st = (cm, bus)" by (cases st)
  let ?V = "certified_wires H verify (cm_committee cm) U"
  show ?thesis
  proof (cases "\<exists>vs. verify_collection H cv n cm certs = Some (Inr vs)")
    case True
    then obtain vs where c: "verify_collection H cv n cm certs = Some (Inr vs)" by blast
    note vs = verify_collection_Inr [OF c]
    have seal: "is_verified v \<longrightarrow> sealed H ?V v" if "v \<in> set vs" for v
    proof -
      from verify_task_sound [OF vs that] obtain x where x: "x \<in> set certs" "cv_validate_and_verify H cv cm x = Inr v" by blast
      with fetched(2) have "validate_received x = Inr x" "wire (c_header x) \<in> U" by blast+
      with cv_verify_sealed [OF x(2) validate_received_ready] validate_received_unverified fetched(3) show ?thesis by blast
    qed
    have fw: "forward_verified_certs H iter env cv (fold max (map c_round vs) 0) vs (received, cm, bus) = ((received', st'), res)"
      using fetched(4) c by (simp add: process_fetched_certificates_def st)
    show ?thesis unfolding st fst_conv fetched(1) by (rule forward_steps [OF _ fetched(5) fw]) (use seal in blast)
  next
    case False
    then have "st' = st" using fetched(4)
      by (auto simp: process_fetched_certificates_def st split: option.splits sum.splits)
    then show ?thesis using fetched(1) by simp
  qed
next
  case collect
  then show ?thesis using cm_step.collect by (metis r_into_rtranclp)
qed

lemma cv_reachable:
  assumes "(cv_step H U iter env verify)\<^sup>*\<^sup>* x y"
  defines "V \<equiv> certified_wires H verify (cm_committee (fst (snd (snd x)))) U"
  shows "(cm_step H V iter env)\<^sup>*\<^sup>* (fst x, snd (snd x)) (fst y, snd (snd y))"
  using assms(1) unfolding V_def
proof (induction rule: rtranclp_induct)
  case (step y z)
  have "cm_committee (fst (snd (snd y))) = cm_committee (fst (snd (snd x)))"
    using cm_steps_committee [OF step.IH] by simp
  with cv_step_cm [of H U iter env verify "fst y" "fst (snd y)" "snd (snd y)" "fst z" "fst (snd z)" "snd (snd z)"] step
  show ?case by simp
qed simp

lemma certified_collision_free: "collision_free H U \<Longrightarrow> collision_free H (certified_wires H verify c U)"
  unfolding collision_free_def by (erule inj_on_subset) (auto simp: certified_wires_def)

lemma certified_parents_below: "parents_below H U \<Longrightarrow> parents_below H (certified_wires H verify c U)"
  by (auto simp: parents_below_def sealed_def certified_wires_def)

lemma slide_max: "fold (\<lambda>c. slide_window diff (c_round c)) certs h = fold max (map (\<lambda>c. c_round c - diff) certs) h"
proof (induction certs arbitrary: h)
  case (Cons c certs)
  have "slide_window diff (c_round c) h = max (c_round c - diff) h" by (auto simp: slide_window_def max_def)
  then show ?case using Cons.IH by simp
qed simp

section \<open>Properties\<close>

definition ex_verify :: verify_fun where
  "ex_verify s d pks = (s = 1)"

definition ex_received :: certificate where
  "ex_received = (ex_cert 1 1)\<lparr>signature_verification_state := Unverified 1\<rparr>"

definition ex_cv :: cv_env where
  "ex_cv = \<lparr>cv_verify = ex_verify, max_diff = 100, last_leader_round = 0, manager_open = True\<rparr>"

text \<open>C6. Whatever certificates arrive, from peers, from fetches or from the node itself, and however
  garbage collection is interleaved: a certificate in the store has a digest that is the hash of its
  header, and that header was certified: it is valid for the committee, and some certificate for it
  has the signatures of a quorum of the committee, verified against the members' keys.\<close>

theorem stored_certified:
  assumes "collision_free H U" "iter_ok iter" "parents_below H U"
    and run: "(cv_step H U iter env verify)\<^sup>*\<^sup>*
      (gc, received, cert_manager_new H c depth gc h store_empty, bus) (floor, received', cm, bus')"
    and read: "store_read (cm_store cm) d = Some x"
  shows "cert_digest H x = d \<and> H (wire (c_header x)) = d
    \<and> (\<exists>y. wire (c_header y) = wire (c_header x) \<and> header_validate H c (c_header y) = Inr () \<and> quorum_signed H verify c y)"
proof -
  let ?V = "certified_wires H verify c U"
  have "cm_committee (cert_manager_new H c depth gc h store_empty) = c" by (simp add: cert_manager_new_def)
  then have "(cm_step H ?V iter env)\<^sup>*\<^sup>* (gc, cert_manager_new H c depth gc h store_empty, bus) (floor, cm, bus')"
    using cv_reachable [OF run] by simp
  from cm_reachable_ok [OF certified_collision_free [OF assms(1)] assms(2) certified_parents_below [OF assms(3)] this
      cert_manager_new_ok]
  have "store_ok H ?V (cm_store cm)" by (simp add: task_inv_def cm_ok_def)
  from index_okD(3) [OF store_okD(1) [OF this]] read have "cert_digest H x = d" "sealed H ?V x"
    by (auto simp: store_read_def)
  then show ?thesis by (auto simp: sealed_def certified_wires_def)
qed

lemma ex_received_fields [simp]:
  "c_header ex_received = c_header (ex_cert 1 1)" "signature_verification_state ex_received = Unverified 1"
  "signed_by ex_received ks = signed_by (ex_cert 1 1) ks" "cert_digest ex_hash ex_received = 101"
  "ex_received\<lparr>signature_verification_state := VerifiedDirectly 1\<rparr> = ex_cert 1 1"
  using ex_cert_fields(5) [of 1 1] by (simp_all add: ex_received_def signed_by_def cert_digest_def ex_cert_def)

lemma ex_manager_fields [simp]: "cm_committee ex_manager = ex_committee" "cm_gc_round ex_manager = 0"
  "highest_processed_round ex_manager = 0" "cm_store ex_manager = store_empty"
  by (simp_all add: ex_manager_def cert_manager_new_def)

lemma ex_cv_fields [simp]: "cv_verify ex_cv = ex_verify" "max_diff ex_cv = 100" "last_leader_round ex_cv = 0" "manager_open ex_cv"
  by (simp_all add: ex_cv_def)

lemma ex_received_verified: "cv_validate_and_verify ex_hash ex_cv ex_manager ex_received = Inr (ex_cert 1 1)"
proof -
  have "committee_epoch ex_committee = 0" by (simp add: ex_committee_def)
  then show ?thesis
    using ex_header_valid [of 1 1] ex_signed [of 1 1] ex_thresholds
    by (simp add: cv_validate_and_verify_def validate_and_verify_def ex_verify_def verify_signature_def Let_def
        case_prod_beta del: One_nat_def)
qed

lemma ex_received_run:
  "\<exists>cm' bus'. process_peer_certificate ex_hash ex_iter ex_env ex_cv ex_received (0, ex_manager, ex_bus) = ((1, cm', bus'), Inr ())
    \<and> store_read (cm_store cm') 101 = Some (ex_cert 1 1)"
proof -
  obtain st' res where p: "process_verified_certificates ex_hash ex_iter ex_env [ex_cert 1 1] (ex_manager, ex_bus) = (st', res)"
    by (metis surj_pair)
  have "res = Inr () \<and> store_read (cm_store (fst st')) 101 = Some (ex_cert 1 1)"
    using p by (auto simp: ex_manager_def cert_manager_new_def ex_env_def pending_new_def aggregator_manager_new_def
      cm_eval ex_thresholds ex_powers write_all_def save_cert_def store_empty_def multi_contains_def contains_def store_read_def)
  moreover have "ex_manager\<lparr>highest_processed_round := 0\<rparr> = ex_manager" by (simp add: ex_manager_def cert_manager_new_def)
  moreover have "is_active_cvv (current_mode ex_bus)" by (simp add: ex_bus_def is_active_cvv_def)
  moreover have "\<not> contains store_empty 101" by (simp add: contains_def store_read_def store_empty_def)
  moreover have "committee_epoch ex_committee = 0" by (simp add: ex_committee_def)
  ultimately show ?thesis
    using p by (cases st') (simp add: process_peer_certificate_def validator_process_certificate_def ex_received_verified
        forward_verified_certs_def Let_def slide_window_def del: One_nat_def)
qed

theorem stored_certified_witness:
  "\<exists>(cm :: cert_manager) y. store_read (cm_store cm) 101 = Some (ex_cert 1 1) \<and> wire (c_header y) = wire (c_header (ex_cert 1 1))
    \<and> header_validate ex_hash ex_committee (c_header y) = Inr () \<and> quorum_signed ex_hash ex_verify ex_committee y"
proof -
  obtain cm bus where run: "process_peer_certificate ex_hash ex_iter ex_env ex_cv ex_received (0, ex_manager, ex_bus) = ((1, cm, bus), Inr ())"
    and read: "store_read (cm_store cm) 101 = Some (ex_cert 1 1)" using ex_received_run by blast
  have "wire (c_header ex_received) \<in> ex_wires" using ex_sealed [of 1 1] by (simp add: sealed_def)
  moreover have "peer_ready ex_hash ex_verify (cm_committee (fst (ex_manager, ex_bus))) ex_received" by (simp add: peer_ready_def)
  moreover have "c_round ex_received \<noteq> 0 \<or> \<not> is_verified ex_received" by simp
  moreover have "cv_verify ex_cv = ex_verify" "\<not> fatal (Inr ())" by (simp_all add: ex_cv_def fatal_def)
  ultimately have "cv_step ex_hash ex_wires ex_iter ex_env ex_verify (0, 0, ex_manager, ex_bus) (0, 1, cm, bus)"
    using cv_step.peer run by blast
  then have "(cv_step ex_hash ex_wires ex_iter ex_env ex_verify)\<^sup>*\<^sup>*
      (0, 0, cert_manager_new ex_hash ex_committee 50 0 0 store_empty, ex_bus) (0, 1, cm, bus)"
    by (simp add: ex_manager_def)
  from stored_certified [OF ex_collision_free ex_iter_ok ex_parents_below this read] read show ?thesis by blast
qed

text \<open>C38. Splitting a fetched batch into chunks that are verified in parallel gives the same result as
  verifying the certificates one after the other: the same certificates in the same order, without
  those below the garbage-collection round, or the error of the first certificate that is rejected.\<close>

theorem chunks_as_sequential:
  assumes "0 < n"
  shows "verify_collection H cv n cm certs = Some (verify_task H cv cm certs)"
  using assms by (rule verify_collection_eq)

theorem chunks_as_sequential_witness:
  "verify_collection ex_hash ex_cv 1 ex_manager [ex_received, ex_received] = Some (Inr [ex_cert 1 1, ex_cert 1 1])"
  using chunks_as_sequential [of 1 ex_hash ex_cv ex_manager "[ex_received, ex_received]"] ex_received_verified by simp

text \<open>The window of acceptance only moves up, and after a batch was admitted every certificate of
  the batch lies inside it: its round is at most the allowed distance above the highest processed
  round. It never moves past the highest round that is needed for that.\<close>

theorem window_bounds:
  fixes diff h :: round
  defines "slide certs \<equiv> fold (\<lambda>c. slide_window diff (c_round c)) certs h"
  shows "h \<le> slide certs \<and> (\<forall>c \<in> set certs. c_round c \<le> slide certs + diff)
    \<and> (slide certs = h \<or> (\<exists>c \<in> set certs. slide certs = c_round c - diff))"
proof -
  let ?S = "insert h ((\<lambda>c. c_round c - diff) ` set certs)"
  have eq: "slide certs = Max ?S" unfolding slide_def slide_max fold_max_nat by simp
  have "c_round c \<le> Max ?S + diff" if "c \<in> set certs" for c
  proof -
    have "c_round c - diff \<le> Max ?S" using that by (intro Max_ge) simp_all
    then show ?thesis by linarith
  qed
  moreover have "h \<le> Max ?S" by (intro Max_ge) simp_all
  moreover have "Max ?S \<in> ?S" by (intro Max_in) simp_all
  ultimately show ?thesis unfolding eq by blast
qed

end
