(* ===== verification/Certified_Headers.thy ===== *)
theory Certified_Headers
  imports Vote_Handler Cert_Validator Dag_Agreement
begin

text \<open>
  Two components together: members vote once per author and round (the vote handler), and a
  certificate carries the signatures of a quorum (the certificate validator). As long as the faulty
  members stay below the validity threshold, no author gets two different headers of a round
  certified, which is what the ordering of the DAG relies on.
\<close>

section \<open>The members behind a certificate\<close>

definition signers :: "committee \<Rightarrow> certificate \<Rightarrow> auth_id set" where
  "signers c x = {i \<in> members c. \<exists>a. authority c i = Some a \<and> protocol_key a \<in> set (snd (signed_by x (bls_keys c)))}"

text \<open>The code counts one seat per signer; every member has some voting power.\<close>

definition seats_have_power :: "committee \<Rightarrow> bool" where
  "seats_have_power c \<longleftrightarrow> (\<forall>i \<in> members c. 1 \<le> voting_power_by_id c i)"

lemma signed_by_loop_keys:
  "signed_by_loop i idx ks = (w, pks) \<Longrightarrow> w = length pks \<and> set pks \<subseteq> set ks \<and> (distinct ks \<longrightarrow> distinct pks)"
proof (induction ks arbitrary: i idx w pks)
  case (Cons k ks)
  show ?case
  proof (cases "\<exists>js. idx = i # js")
    case True
    then obtain js w' pks' where "signed_by_loop (Suc i) js ks = (w', pks')" "w = Suc w'" "pks = k # pks'"
      using Cons.prems by (auto simp: Let_def split: prod.splits)
    with Cons.IH show ?thesis by fastforce
  next
    case False
    then have "signed_by_loop (Suc i) idx ks = (w, pks)" using Cons.prems by (auto split: list.splits if_splits)
    with Cons.IH show ?thesis by fastforce
  qed
qed simp

lemma signers_power:
  assumes c: "committee_ok c" and p: "seats_have_power c"
  shows "fst (signed_by x (bls_keys c)) \<le> (\<Sum>i \<in> signers c x. voting_power_by_id c i)"
proof -
  obtain w pks where s: "signed_by x (bls_keys c) = (w, pks)" by (metis surj_pair)
  have "bt_inv (authorities_map c)" using c by (simp add: committee_ok_def)
  then have "distinct (bls_keys c)" unfolding bls_keys_ok [OF c] by (rule bt_inv_distinct)
  with signed_by_loop_keys [OF s [unfolded signed_by_def]] have k: "w = length pks" "set pks \<subseteq> set (bls_keys c)" "distinct pks"
    by auto
  have mem: "\<exists>i a. authority c i = Some a \<and> protocol_key a = k" if "k \<in> set pks" for k
    using that k(2) authority_iff [OF c] by (force simp: bls_keys_def)
  define f where "f k = (SOME i. \<exists>a. authority c i = Some a \<and> protocol_key a = k)" for k
  have f: "\<exists>a. authority c (f k) = Some a \<and> protocol_key a = k" if "k \<in> set pks" for k
    unfolding f_def using mem [OF that] by (rule someI_ex)
  have "inj_on f (set pks)" using f by (intro inj_onI) (metis option.inject)
  moreover have "f ` set pks \<subseteq> signers c x"
    using f s by (auto simp: signers_def members_iff is_authority_def authority_def)
  moreover have fin: "finite (signers c x)" by (simp add: signers_def)
  ultimately have "length pks \<le> card (signers c x)"
    using card_inj_on_le distinct_card [OF k(3)] by metis
  also have "\<dots> \<le> (\<Sum>i \<in> signers c x. voting_power_by_id c i)"
    using sum_mono [of "signers c x" "\<lambda>_. 1" "voting_power_by_id c"] p by (auto simp: seats_have_power_def signers_def)
  finally show ?thesis using s k(1) by simp
qed

text \<open>
  Signatures cannot be forged: when an aggregate signature verifies against keys that include the one
  of an honest member, that member has sent a vote for the digest.
\<close>

definition unforgeable ::
  "verify_fun \<Rightarrow> committee \<Rightarrow> auth_id set \<Rightarrow> (auth_id \<Rightarrow> vote_world) \<Rightarrow> bool" where
  "unforgeable verify c honest W \<longleftrightarrow>
     (\<forall>i \<in> honest. \<forall>a s d pks. authority c i = Some a \<longrightarrow> verify s d pks \<longrightarrow> protocol_key a \<in> set pks \<longrightarrow>
        (\<exists>v \<in> set (vw_issued (W i)). vote_header_digest v = d))"

lemma quorum_signed_honest:
  assumes c: "committee_ok c" "seats_have_power c" and F: "F \<subseteq> members c" "(\<Sum>i \<in> F. voting_power_by_id c i) < validity_threshold c"
    and x: "quorum_signed H verify c x" and y: "quorum_signed H verify c y" and u: "unforgeable verify c (members c - F) W"
  shows "\<exists>i \<in> members c - F. \<exists>v \<in> set (vw_issued (W i)). \<exists>w \<in> set (vw_issued (W i)).
    vote_header_digest v = cert_digest H x \<and> vote_header_digest w = cert_digest H y"
proof -
  have sub: "signers c z \<subseteq> members c" for z by (auto simp: signers_def)
  have q: "quorum_threshold c \<le> (\<Sum>i \<in> signers c z. voting_power_by_id c i)" if "quorum_signed H verify c z" for z
    using that signers_power [OF c, of z] by (auto simp: quorum_signed_def)
  have "validity_threshold c \<le> (\<Sum>i \<in> signers c x \<inter> signers c y. voting_power_by_id c i)"
    by (rule cq.quorums_overlap [OF c(1) sub sub q [OF x] q [OF y]])
  then have "\<not> signers c x \<inter> signers c y \<subseteq> F"
    using F(2) sum_mono2 [of F "signers c x \<inter> signers c y" "voting_power_by_id c"] finite_subset [OF F(1)] by force
  then obtain i where i: "i \<in> signers c x" "i \<in> signers c y" "i \<in> members c - F" using sub by blast
  have "\<exists>v \<in> set (vw_issued (W i)). vote_header_digest v = cert_digest H z" if "i \<in> signers c z" "quorum_signed H verify c z" for z
    using that u i(3) unfolding unforgeable_def signers_def quorum_signed_def by blast
  with i x y show ?thesis by blast
qed

section \<open>Certified headers are unique\<close>

lemma vote_for_wire:
  assumes cf: "collision_free H U" and v: "vote_for H U v" "vote_header_digest v = H w" and w: "w \<in> U"
  shows "vote_origin v = fst w \<and> vote_round v = fst (snd w) \<and> vote_epoch v = fst (snd (snd w))"
proof -
  obtain h where h: "wire h \<in> U" "header_digest H h = header_hash H h" "vote_origin v = author h" "vote_round v = h_round h"
    "vote_epoch v = h_epoch h" "vote_header_digest v = header_digest H h" using v(1) by (auto simp: vote_for_def)
  have "H (wire h) = H w" using h v(2) by (simp add: header_hash_def)
  with cf h(1) w have "wire h = w" by (auto simp: collision_free_def dest: inj_onD)
  then show ?thesis using h by (auto simp: wire_def)
qed

lemma certified_wire:
  assumes "w \<in> certified_wires H verify c U"
  shows "w \<in> U" "fst (snd (snd w)) = committee_epoch c" "\<exists>x. quorum_signed H verify c x \<and> cert_digest H x = H w"
proof -
  obtain x where x: "w = wire (c_header x)" "w \<in> U" "header_validate H c (c_header x) = Inr ()" "quorum_signed H verify c x"
    using assms by (auto simp: certified_wires_def)
  note h = header_validate_Inr [OF x(3)]
  show "w \<in> U" "fst (snd (snd w)) = committee_epoch c" using x h(1) by (simp_all add: wire_def)
  have "cert_digest H x = H w" using h(3) x(1) by (simp add: cert_digest_def header_hash_def)
  with x(4) show "\<exists>x. quorum_signed H verify c x \<and> cert_digest H x = H w" by blast
qed

lemma certified_headers_eq:
  assumes cf: "collision_free H U" and c: "committee_ok c" "seats_have_power c"
    and F: "F \<subseteq> members c" "(\<Sum>i \<in> F. voting_power_by_id c i) < validity_threshold c"
    and W: "\<forall>i \<in> members c - F. (vote_step H U)\<^sup>*\<^sup>* (vote_world_new (e i)) (W i)"
    and u: "unforgeable verify c (members c - F) W"
    and w: "w1 \<in> certified_wires H verify c U" "w2 \<in> certified_wires H verify c U" "fst w1 = fst w2" "fst (snd w1) = fst (snd w2)"
  shows "w1 = w2"
proof -
  obtain x y where x: "quorum_signed H verify c x" "cert_digest H x = H w1" and y: "quorum_signed H verify c y" "cert_digest H y = H w2"
    using certified_wire(3) w(1,2) by meson
  from quorum_signed_honest [OF c F x(1) y(1) u] obtain i v v' where i: "i \<in> members c - F"
    and v: "v \<in> set (vw_issued (W i))" "vote_header_digest v = H w1" and v': "v' \<in> set (vw_issued (W i))" "vote_header_digest v' = H w2"
    unfolding x(2) y(2) by blast
  have run: "(vote_step H U)\<^sup>*\<^sup>* (vote_world_new (e i)) (W i)" using W i by blast
  note o1 = vote_for_wire [OF cf votes_sent [OF run v(1)] v(2) certified_wire(1) [OF w(1)]]
  note o2 = vote_for_wire [OF cf votes_sent [OF run v'(1)] v'(2) certified_wire(1) [OF w(2)]]
  have "same_slot v v'" using o1 o2 w(3,4) certified_wire(2) [OF w(1)] certified_wire(2) [OF w(2)] by (simp add: same_slot_def)
  from sent_once [OF run v(1) v'(1) this] have "H w1 = H w2" using v(2) v'(2) by simp
  with cf certified_wire(1) [OF w(1)] certified_wire(1) [OF w(2)] show ?thesis by (auto simp: collision_free_def dest: inj_onD)
qed

section \<open>Properties\<close>


definition ex_verify201 :: verify_fun where
  "ex_verify201 s d pks = (s = 1 \<and> d = 201)"

definition ex_dag1 :: dag where
  "ex_dag1 = [(2, [(1, (201, ex_cert 2 1))])]"

lemma ex_certified: "wire (c_header (ex_cert 2 1)) \<in> certified_wires ex_hash ex_verify201 ex_committee ex_wires"
proof -
  have "quorum_signed ex_hash ex_verify201 ex_committee (ex_cert 2 1)"
    using ex_signed [of 2 1] ex_thresholds by (simp add: quorum_signed_def ex_verify201_def)
  moreover have "wire (c_header (ex_cert 2 1)) \<in> ex_wires" using ex_sealed [of 1 2] by (simp add: sealed_def)
  ultimately show ?thesis using ex_header_valid [of 1 2] by (auto simp: certified_wires_def)
qed

lemma ex_dag1_ok: "dag_ok ex_hash (certified_wires ex_hash ex_verify201 ex_committee ex_wires) ex_committee ex_dag1"
  using ex_certified ex_members
  by (simp add: dag_ok_def row_ok_def cert_ok_def ex_dag1_def bt_inv_def ex_hash_wire members_iff [symmetric])


end
