(* ===== verification/Erc20_Abi.thy ===== *)
theory Erc20_Abi
  imports Axyl_Prelude "HOL-Library.Word"
begin

text \<open>
  The encodings of the native ERC-20 precompile (\<open>crates/execution/evm/src/native_erc20\<close>): the
  storage layout of \<open>storage.rs\<close>, the selectors, the signature checks and the ABI encoders of
  \<open>abi.rs\<close>. Addresses, words and bytes keep their widths. Code outside the repository is in the
  record \<open>crypto\<close>: Keccak-256, the EIP-712 signing hash of a struct, the recovery of the signer of
  a hash, and the selectors the \<open>sol!\<close> macro computes.
\<close>

type_synonym u256 = "256 word"
type_synonym b256 = "256 word"
type_synonym address = "160 word"
type_synonym bytes = "8 word list"

fun be_bytes :: "nat \<Rightarrow> nat \<Rightarrow> bytes" where
  "be_bytes 0 x = []"
| "be_bytes (Suc n) x = be_bytes n (x div 256) @ [of_nat (x mod 256)]"

definition from_be_bytes :: "bytes \<Rightarrow> nat" where
  "from_be_bytes bs = foldl (\<lambda>a b. a * 256 + unat b) 0 bs"

definition ascii :: "string \<Rightarrow> bytes" where
  "ascii s = map (\<lambda>c. of_nat (of_char c)) s"

lemma length_be_bytes [simp]: "length (be_bytes n x) = n"
  by (induction n arbitrary: x) simp_all

lemma unat_of_nat_byte: "unat (of_nat (x mod 256) :: 8 word) = x mod 256"
  by (simp add: unat_of_nat)

lemma from_be_bytes_be_bytes: "from_be_bytes (be_bytes n x) = x mod 256 ^ n"
proof (induction n arbitrary: x)
  case (Suc n)
  have "from_be_bytes (be_bytes (Suc n) x) = (x div 256) mod 256 ^ n * 256 + x mod 256"
    using Suc [of "x div 256"] by (simp add: from_be_bytes_def unat_of_nat_byte del: of_nat_mod)
  also have "\<dots> = x mod 256 ^ Suc n" by (simp add: mod_mult2_eq mult.commute)
  finally show ?case .
qed (simp add: from_be_bytes_def)

lemma from_be_word [simp]: "from_be_bytes (be_bytes 32 (unat (w :: u256))) = unat w"
  using unsigned_less [of w, where 'a = nat] by (simp add: from_be_bytes_be_bytes)

lemma from_be_address: "from_be_bytes (be_bytes 20 (unat (a :: address))) = unat a"
  using unsigned_less [of a, where 'a = nat] by (simp add: from_be_bytes_be_bytes)

lemma word_bytes_inj: "be_bytes 32 (unat (v :: u256)) = be_bytes 32 (unat w) \<longleftrightarrow> v = w"
  by (metis from_be_word word_unat_eq_iff)

lemma address_bytes_inj: "be_bytes 20 (unat (a :: address)) = be_bytes 20 (unat b) \<longleftrightarrow> a = b"
  by (metis from_be_address word_unat_eq_iff)

section \<open>Code outside the repository\<close>

record eip712_domain =
  dom_name :: string
  dom_version :: string
  dom_chain_id :: u256
  dom_contract :: address

datatype auth_struct =
  TransferWithAuthorizationStruct address address u256 u256 u256 b256
| ReceiveWithAuthorizationStruct address address u256 u256 u256 b256
| CancelAuthorizationStruct address b256

datatype erc20_selector =
  SelName | SelSymbol | SelDecimals | SelTotalSupply | SelBalanceOf | SelAllowance | SelTransfer
  | SelApprove | SelTransferFrom | SelMint | SelBurn | SelBurnFrom
  | SelTransferWithAuthorization | SelReceiveWithAuthorization | SelCancelAuthorization

record crypto =
  keccak256 :: "bytes \<Rightarrow> b256"
  signing_hash :: "eip712_domain \<Rightarrow> auth_struct \<Rightarrow> b256"
  recover_address :: "bool \<Rightarrow> u256 \<Rightarrow> u256 \<Rightarrow> b256 \<Rightarrow> string + address"
  selector_bytes :: "erc20_selector \<Rightarrow> bytes"

section \<open>Storage slots\<close>

definition mapping_buffer :: "bytes \<Rightarrow> u256 \<Rightarrow> bytes" where
  "mapping_buffer key base_slot = key @ be_bytes 32 (unat base_slot)"

definition padded_address :: "address \<Rightarrow> bytes" where
  "padded_address a = replicate 12 0 @ be_bytes 20 (unat a)"

definition mapping_slot_address :: "crypto \<Rightarrow> address \<Rightarrow> u256 \<Rightarrow> u256" where
  "mapping_slot_address C key base_slot = keccak256 C (mapping_buffer (padded_address key) base_slot)"

definition mapping_slot_bytes32 :: "crypto \<Rightarrow> b256 \<Rightarrow> u256 \<Rightarrow> u256" where
  "mapping_slot_bytes32 C key base_slot =
    keccak256 C (mapping_buffer (be_bytes 32 (unat key)) base_slot)"

definition nested_mapping_slot :: "crypto \<Rightarrow> address \<Rightarrow> b256 \<Rightarrow> u256 \<Rightarrow> u256" where
  "nested_mapping_slot C outer_key inner_key base_slot =
    mapping_slot_bytes32 C inner_key (mapping_slot_address C outer_key base_slot)"

definition allowance_mapping_slot :: "crypto \<Rightarrow> address \<Rightarrow> address \<Rightarrow> u256 \<Rightarrow> u256" where
  "allowance_mapping_slot C owner spender base_slot =
    mapping_slot_address C spender (mapping_slot_address C owner base_slot)"

definition total_supply_prefix :: bytes where
  "total_supply_prefix = ascii ''TOTAL_SUPPLY_V1__________STORAGE''"

definition total_supply_slot :: "crypto \<Rightarrow> u256" where
  "total_supply_slot C = keccak256 C total_supply_prefix"

definition ALLOWANCES_BASE_SLOT :: u256 where "ALLOWANCES_BASE_SLOT = 1"

definition allowance_slot :: "crypto \<Rightarrow> address \<Rightarrow> address \<Rightarrow> u256" where
  "allowance_slot C owner spender = allowance_mapping_slot C owner spender ALLOWANCES_BASE_SLOT"

definition AUTHORIZATION_NONCES_BASE_SLOT :: u256 where "AUTHORIZATION_NONCES_BASE_SLOT = 5"

definition authorization_nonce_slot :: "crypto \<Rightarrow> address \<Rightarrow> b256 \<Rightarrow> u256" where
  "authorization_nonce_slot C authorizer nonce =
    nested_mapping_slot C authorizer nonce AUTHORIZATION_NONCES_BASE_SLOT"

text \<open>
  The cells of the token's storage, the slot of each and the buffers that are hashed for it. A
  256-bit hash has collisions among all cells, so every statement is about a set of cells in use:
  \<open>keccak_free C K\<close> says that Keccak-256 has no collision among the buffers hashed for the cells
  of \<open>K\<close>.
\<close>

datatype cell = SupplyCell | AllowanceCell address address | NonceCell address b256

fun slot_of :: "crypto \<Rightarrow> cell \<Rightarrow> u256" where
  "slot_of C SupplyCell = total_supply_slot C"
| "slot_of C (AllowanceCell owner spender) = allowance_slot C owner spender"
| "slot_of C (NonceCell authorizer nonce) = authorization_nonce_slot C authorizer nonce"

fun hashed_for :: "crypto \<Rightarrow> cell \<Rightarrow> bytes set" where
  "hashed_for C SupplyCell = {total_supply_prefix}"
| "hashed_for C (AllowanceCell owner spender) =
    {mapping_buffer (padded_address owner) ALLOWANCES_BASE_SLOT,
     mapping_buffer (padded_address spender) (mapping_slot_address C owner ALLOWANCES_BASE_SLOT)}"
| "hashed_for C (NonceCell authorizer nonce) =
    {mapping_buffer (padded_address authorizer) AUTHORIZATION_NONCES_BASE_SLOT,
     mapping_buffer (be_bytes 32 (unat nonce))
       (mapping_slot_address C authorizer AUTHORIZATION_NONCES_BASE_SLOT)}"

definition keccak_free :: "crypto \<Rightarrow> cell set \<Rightarrow> bool" where
  "keccak_free C K \<longleftrightarrow> inj_on (keccak256 C) (\<Union> (hashed_for C ` K))"

section \<open>Selectors\<close>

definition selector_table :: "crypto \<Rightarrow> (bytes \<times> erc20_selector) list" where
  "selector_table C = map (\<lambda>sel. (selector_bytes C sel, sel))
    [SelName, SelSymbol, SelDecimals, SelTotalSupply, SelBalanceOf, SelAllowance, SelTransfer,
     SelApprove, SelTransferFrom, SelMint, SelBurn, SelBurnFrom, SelTransferWithAuthorization,
     SelReceiveWithAuthorization, SelCancelAuthorization]"

definition from_calldata :: "crypto \<Rightarrow> bytes \<Rightarrow> erc20_selector option" where
  "from_calldata C data =
    (if length data < 4 then None else map_of (selector_table C) (take 4 data))"

fun is_state_mutating :: "erc20_selector \<Rightarrow> bool" where
  "is_state_mutating SelTransfer = True"
| "is_state_mutating SelApprove = True"
| "is_state_mutating SelTransferFrom = True"
| "is_state_mutating SelMint = True"
| "is_state_mutating SelBurn = True"
| "is_state_mutating SelBurnFrom = True"
| "is_state_mutating SelTransferWithAuthorization = True"
| "is_state_mutating SelReceiveWithAuthorization = True"
| "is_state_mutating SelCancelAuthorization = True"
| "is_state_mutating SelName = False"
| "is_state_mutating SelSymbol = False"
| "is_state_mutating SelDecimals = False"
| "is_state_mutating SelTotalSupply = False"
| "is_state_mutating SelBalanceOf = False"
| "is_state_mutating SelAllowance = False"

section \<open>ABI encoders\<close>

definition encode_uint256 :: "u256 \<Rightarrow> bytes" where
  "encode_uint256 value = be_bytes 32 (unat value)"

definition encode_bool :: "bool \<Rightarrow> bytes" where
  "encode_bool value = replicate 31 0 @ [if value then 1 else 0]"

definition encode_uint8 :: "8 word \<Rightarrow> bytes" where
  "encode_uint8 value = replicate 31 0 @ [value]"

definition encode_string :: "bytes \<Rightarrow> bytes" where
  "encode_string value =
    (let len = length value; padding = (32 - len mod 32) mod 32
     in replicate 31 0 @ [32] @ be_bytes 32 len @ value @ replicate padding 0)"

definition encode_revert_reason :: "bytes \<Rightarrow> bytes" where
  "encode_revert_reason reason = [8, 195, 121, 160] @ encode_string reason"

section \<open>Errors\<close>

text \<open>
  The errors of \<open>precompile.rs\<close>. The texts that the constructors of \<open>ERC20Other\<close> format are kept
  as their parts; the text an error displays is a parameter where it is encoded.
\<close>

datatype erc20_resource =
  ResAllowance | ResAccount address | ResTotalSupply | ResSender | ResReceiver | ResBalance | ResNonce

datatype erc20_method =
  MethodApprove | MethodTransfer | MethodTransferFrom | MethodMint | MethodBurn | MethodBurnFrom

datatype other_error =
  OtherText string
| ReadError erc20_resource string
| WriteError erc20_resource string
| OverflowError erc20_resource erc20_method
| ZeroAmount erc20_method

datatype erc20_error =
  ERC20InvalidSender address
| ERC20InvalidReceiver address
| ERC20InsufficientBalance address u256 u256
| ERC20InvalidApprover address
| ERC20InvalidSpender address
| ERC20InsufficientAllowance address u256 u256
| NotWhitelisted address
| ERC20Other other_error
| TransferWouldEmptyAccount address
| AuthorizationNotYetValid u256 u256
| AuthorizationExpired u256 u256
| AuthorizationAlreadyUsed b256
| InvalidAuthorizer address address
| InvalidSignature
| CallerNotReceiver address address
| SignatureMalleability

section \<open>Signatures of authorisations\<close>

definition from_limbs :: "64 word list \<Rightarrow> u256" where
  "from_limbs ls = foldr (\<lambda>l acc. acc * 2 ^ 64 + ucast l) ls 0"

definition SECP256K1N_HALF :: u256 where
  "SECP256K1N_HALF =
    from_limbs [0xBFD25E8CD0364140, 0xBAAEDCE6AF48A03B, 0xFFFFFFFFFFFFFFFE, 0x7FFFFFFFFFFFFFFF]"

definition parity_of :: "8 word \<Rightarrow> bool option" where
  "parity_of v = (if v = 27 \<or> v = 0 then Some False else if v = 28 \<or> v = 1 then Some True else None)"

definition verify_authorization ::
  "crypto \<Rightarrow> b256 \<Rightarrow> 8 word \<Rightarrow> u256 \<Rightarrow> u256 \<Rightarrow> erc20_error + address" where
  "verify_authorization C hash v r s =
    (case parity_of v of
       None \<Rightarrow> Inl (ERC20Other (OtherText ''Invalid signature''))
     | Some y_parity \<Rightarrow>
         if s > SECP256K1N_HALF then Inl SignatureMalleability
         else case recover_address C y_parity r s hash of
                Inl e \<Rightarrow> Inl (ERC20Other (OtherText e))
              | Inr recovered \<Rightarrow> Inr recovered)"

definition verify_transfer_authorization ::
  "crypto \<Rightarrow> eip712_domain \<Rightarrow> address \<Rightarrow> address \<Rightarrow> u256 \<Rightarrow> u256 \<Rightarrow> u256 \<Rightarrow> b256 \<Rightarrow>
    8 word \<Rightarrow> u256 \<Rightarrow> u256 \<Rightarrow> erc20_error + address" where
  "verify_transfer_authorization C domain from to value valid_after valid_before nonce v r s =
    verify_authorization C
      (signing_hash C domain
        (TransferWithAuthorizationStruct from to value valid_after valid_before nonce)) v r s"

definition verify_cancel_authorization ::
  "crypto \<Rightarrow> eip712_domain \<Rightarrow> address \<Rightarrow> b256 \<Rightarrow> 8 word \<Rightarrow> u256 \<Rightarrow> u256 \<Rightarrow>
    erc20_error + address" where
  "verify_cancel_authorization C domain authorizer nonce v r s =
    verify_authorization C (signing_hash C domain (CancelAuthorizationStruct authorizer nonce)) v r s"

text \<open>The order of the secp256k1 group, of the SEC 2 standard.\<close>

definition secp256k1_order :: u256 where
  "secp256k1_order = 0xFFFFFFFFFFFFFFFFFFFFFFFFFFFFFFFEBAAEDCE6AF48A03BBFD25E8CD0364141"

section \<open>Lemmas\<close>

text \<open>Distinct cells have distinct slots, as long as Keccak-256 has no collision among their buffers.\<close>

lemma length_supply_prefix: "length total_supply_prefix = 32"
  by (simp add: total_supply_prefix_def ascii_def)

lemma mapping_buffer_inj:
  "length k = 32 \<Longrightarrow> length k' = 32 \<Longrightarrow>
    mapping_buffer k b = mapping_buffer k' b' \<longleftrightarrow> k = k' \<and> b = b'"
  by (simp add: mapping_buffer_def word_bytes_inj)

lemma mapping_buffer_supply: "length k = 32 \<Longrightarrow> mapping_buffer k b \<noteq> total_supply_prefix"
  using length_supply_prefix by (metis length_append length_be_bytes mapping_buffer_def
    add_cancel_left_right zero_neq_numeral)

lemma length_padded [simp]: "length (padded_address a) = 32"
  by (simp add: padded_address_def)

lemma padded_address_inj [simp]: "padded_address a = padded_address b \<longleftrightarrow> a = b"
  by (simp add: padded_address_def address_bytes_inj)

lemma keccak_freeD:
  "keccak_free C K \<Longrightarrow> k \<in> K \<Longrightarrow> k' \<in> K \<Longrightarrow> x \<in> hashed_for C k \<Longrightarrow> y \<in> hashed_for C k' \<Longrightarrow>
    keccak256 C x = keccak256 C y \<Longrightarrow> x = y"
  unfolding keccak_free_def by (erule inj_onD) auto

lemmas slot_defs = total_supply_slot_def allowance_slot_def allowance_mapping_slot_def
  authorization_nonce_slot_def nested_mapping_slot_def mapping_slot_bytes32_def
  mapping_slot_address_def

fun outer_buffer :: "crypto \<Rightarrow> cell \<Rightarrow> bytes" where
  "outer_buffer C SupplyCell = total_supply_prefix"
| "outer_buffer C (AllowanceCell owner spender) =
    mapping_buffer (padded_address spender) (mapping_slot_address C owner ALLOWANCES_BASE_SLOT)"
| "outer_buffer C (NonceCell authorizer nonce) =
    mapping_buffer (be_bytes 32 (unat nonce))
      (mapping_slot_address C authorizer AUTHORIZATION_NONCES_BASE_SLOT)"

lemma slot_of_outer: "slot_of C k = keccak256 C (outer_buffer C k)"
  by (cases k) (simp_all add: slot_defs)

lemma outer_buffer_hashed: "outer_buffer C k \<in> hashed_for C k"
  by (cases k) simp_all

lemma inner_slot_inj:
  assumes "keccak_free C K" "k \<in> K" "k' \<in> K"
    "mapping_buffer (padded_address a) b \<in> hashed_for C k"
    "mapping_buffer (padded_address a') b' \<in> hashed_for C k'"
    "mapping_slot_address C a b = mapping_slot_address C a' b'"
  shows "a = a' \<and> b = b'"
  using keccak_freeD [OF assms(1-5)] assms(6)
  by (simp add: mapping_slot_address_def mapping_buffer_inj)

lemma slot_of_inj:
  assumes "keccak_free C K" "k \<in> K" "k' \<in> K"
  shows "slot_of C k = slot_of C k' \<longleftrightarrow> k = k'"
proof
  assume "slot_of C k = slot_of C k'"
  then have buf: "outer_buffer C k = outer_buffer C k'"
    using keccak_freeD [OF assms outer_buffer_hashed outer_buffer_hashed] by (simp add: slot_of_outer)
  note inner = inner_slot_inj [OF assms]
  show "k = k'"
  proof (cases k; cases k')
    fix o1 s1 o2 s2
    assume k: "k = AllowanceCell o1 s1" "k' = AllowanceCell o2 s2"
    with buf have "s1 = s2" "mapping_slot_address C o1 ALLOWANCES_BASE_SLOT =
        mapping_slot_address C o2 ALLOWANCES_BASE_SLOT" by (simp_all add: mapping_buffer_inj)
    then show ?thesis using inner [of o1 ALLOWANCES_BASE_SLOT o2 ALLOWANCES_BASE_SLOT] k by simp
  next
    fix a1 n1 a2 n2
    assume k: "k = NonceCell a1 n1" "k' = NonceCell a2 n2"
    with buf have "n1 = n2" "mapping_slot_address C a1 AUTHORIZATION_NONCES_BASE_SLOT =
        mapping_slot_address C a2 AUTHORIZATION_NONCES_BASE_SLOT"
      by (simp_all add: mapping_buffer_inj word_bytes_inj)
    then show ?thesis using inner [of a1 AUTHORIZATION_NONCES_BASE_SLOT a2
        AUTHORIZATION_NONCES_BASE_SLOT] k by simp
  next
    fix o1 s1 a2 n2
    assume k: "k = AllowanceCell o1 s1" "k' = NonceCell a2 n2"
    with buf have "mapping_slot_address C o1 ALLOWANCES_BASE_SLOT =
        mapping_slot_address C a2 AUTHORIZATION_NONCES_BASE_SLOT" by (simp add: mapping_buffer_inj)
    then show ?thesis using inner [of o1 ALLOWANCES_BASE_SLOT a2
        AUTHORIZATION_NONCES_BASE_SLOT] k
      by (simp add: ALLOWANCES_BASE_SLOT_def AUTHORIZATION_NONCES_BASE_SLOT_def)
  next
    fix a1 n1 o2 s2
    assume k: "k = NonceCell a1 n1" "k' = AllowanceCell o2 s2"
    with buf have "mapping_slot_address C a1 AUTHORIZATION_NONCES_BASE_SLOT =
        mapping_slot_address C o2 ALLOWANCES_BASE_SLOT" by (simp add: mapping_buffer_inj)
    then show ?thesis using inner [of a1 AUTHORIZATION_NONCES_BASE_SLOT o2
        ALLOWANCES_BASE_SLOT] k
      by (simp add: ALLOWANCES_BASE_SLOT_def AUTHORIZATION_NONCES_BASE_SLOT_def)
  qed (use buf mapping_buffer_supply in \<open>auto dest: sym\<close>)
qed simp

lemma half_eq: "SECP256K1N_HALF = 0x7FFFFFFFFFFFFFFFFFFFFFFFFFFFFFFEBAAEDCE6AF48A03BBFD25E8CD0364140"
  by (simp add: SECP256K1N_HALF_def from_limbs_def)

lemma order_minus_above:
  assumes "s \<le> SECP256K1N_HALF"
  shows "SECP256K1N_HALF < secp256k1_order - s"
proof -
  have s: "unat s \<le> 0x7FFFFFFFFFFFFFFFFFFFFFFFFFFFFFFEBAAEDCE6AF48A03BBFD25E8CD0364140"
    using assms by (simp add: half_eq word_le_nat_alt)
  then have "s \<le> secp256k1_order" by (simp add: secp256k1_order_def word_le_nat_alt)
  then have "unat (secp256k1_order - s) = unat secp256k1_order - unat s" by (rule unat_sub)
  then show ?thesis using s by (simp add: half_eq secp256k1_order_def word_less_nat_alt)
qed

lemma verify_authorization_Inr:
  "verify_authorization C hash v r s = Inr signer \<Longrightarrow> s \<le> SECP256K1N_HALF"
  by (auto simp: verify_authorization_def split: option.splits if_splits)

text \<open>C36. The signature check accepts no malleable pair: when the scalar \<open>s\<close> of a signature is
  accepted, the mirrored scalar \<open>n - s\<close>, with which the same key signs the same hash, is refused
  whatever the recovery byte. The bound the code compares with lies below half the order of the
  group, so some scalars of the lower half are refused as well.
\<close>

theorem signature_not_malleable:
  "verify_authorization C hash v r s = Inr signer \<Longrightarrow>
    (\<nexists>v' r' signer'. verify_authorization C hash v' r' (secp256k1_order - s) = Inr signer')
    \<and> verify_authorization C hash 27 r (secp256k1_order div 2) = Inl SignatureMalleability"
  using order_minus_above [OF verify_authorization_Inr, of C hash v r s signer]
  by (auto simp: verify_authorization_def parity_of_def half_eq secp256k1_order_def
    split: option.splits if_splits)

text \<open>
  An instance of the parameters, for the witnesses: a hash by division, a signature whose \<open>r\<close> is
  the signer, and selectors that are numbered in the order of the table.
\<close>

fun ex_selector :: "erc20_selector \<Rightarrow> bytes" where
  "ex_selector SelName = [0, 0, 0, 1]"
| "ex_selector SelSymbol = [0, 0, 0, 2]"
| "ex_selector SelDecimals = [0, 0, 0, 3]"
| "ex_selector SelTotalSupply = [0, 0, 0, 4]"
| "ex_selector SelBalanceOf = [0, 0, 0, 5]"
| "ex_selector SelAllowance = [0, 0, 0, 6]"
| "ex_selector SelTransfer = [0, 0, 0, 7]"
| "ex_selector SelApprove = [0, 0, 0, 8]"
| "ex_selector SelTransferFrom = [0, 0, 0, 9]"
| "ex_selector SelMint = [0, 0, 0, 10]"
| "ex_selector SelBurn = [0, 0, 0, 11]"
| "ex_selector SelBurnFrom = [0, 0, 0, 12]"
| "ex_selector SelTransferWithAuthorization = [0, 0, 0, 13]"
| "ex_selector SelReceiveWithAuthorization = [0, 0, 0, 14]"
| "ex_selector SelCancelAuthorization = [0, 0, 0, 15]"

definition ex_keccak :: "bytes \<Rightarrow> b256" where
  "ex_keccak bs = (if length bs = 32 then 0 else of_nat (from_be_bytes bs mod 1000003 + 1))"

definition ex_crypto :: crypto where
  "ex_crypto = \<lparr>keccak256 = ex_keccak, signing_hash = (\<lambda>_ _. 0),
    recover_address = (\<lambda>_ r _ _. Inr (ucast r)), selector_bytes = ex_selector\<rparr>"

lemma foldl_be: "foldl (\<lambda>a b. a * 256 + unat b) x bs = x * 256 ^ length bs + from_be_bytes bs"
proof (induction bs arbitrary: x rule: rev_induct)
  case (snoc b bs)
  show ?case using snoc [of x] snoc [of 0] by (simp add: from_be_bytes_def algebra_simps)
qed (simp add: from_be_bytes_def)

lemma from_be_append:
  "from_be_bytes (as @ bs) = from_be_bytes as * 256 ^ length bs + from_be_bytes bs"
  using foldl_be [of "from_be_bytes as" bs] by (simp add: from_be_bytes_def)

lemma from_be_zeros [simp]: "from_be_bytes (replicate n 0) = 0"
  by (induction n) (simp_all add: from_be_bytes_def)

lemma from_be_padded [simp]: "from_be_bytes (padded_address a) = unat a"
  by (simp add: padded_address_def from_be_append from_be_address)

lemma ex_keccak_buffer:
  "length k = 32 \<Longrightarrow> ex_keccak (mapping_buffer k b) =
    of_nat ((from_be_bytes k * 256 ^ 32 + unat b) mod 1000003 + 1)"
  by (simp add: ex_keccak_def mapping_buffer_def from_be_append del: of_nat_mod of_nat_add)

lemma ex_crypto_keccak [simp]: "keccak256 ex_crypto = ex_keccak"
  by (simp add: ex_crypto_def)

lemma ex_keccak_supply [simp]: "ex_keccak total_supply_prefix = 0"
  by (simp add: ex_keccak_def length_supply_prefix)

theorem signature_not_malleable_witness:
  "verify_authorization ex_crypto 0 27 1 1 = Inr 1
    \<and> (\<nexists>v' r' signer'. verify_authorization ex_crypto 0 v' r' (secp256k1_order - 1) = Inr signer')"
proof -
  have "verify_authorization ex_crypto 0 27 1 1 = Inr 1"
    by (simp add: verify_authorization_def parity_of_def half_eq ex_crypto_def)
  then show ?thesis using signature_not_malleable [of ex_crypto 0 27 1 1 1] by simp
qed

end
