(* ===== verification/Native_Erc20.thy ===== *)
theory Native_Erc20
  imports Erc20_Abi
begin

text \<open>
  The handlers of the native ERC-20 precompile, \<open>precompile.rs\<close> of
  \<open>crates/execution/evm/src/native_erc20\<close>. The trait \<open>StateAccessAdapter\<close>, through which the
  handlers reach the journal of the EVM, is the record \<open>state_access\<close> over a state of any type, an
  argument of every handler; each access may fail with an error of the database. A handler maps a
  state to the state it leaves and to its result, the writes made before an error included: the
  operator \<open>?\<close> of the source is \<open>andthen\<close>.
\<close>

section \<open>The interface of the journal\<close>

record account_info =
  balance :: u256
  acc_nonce :: "64 word"
  code_hash :: b256

datatype event =
  TransferEvent address address u256
| ApprovalEvent address address u256
| MintEvent address u256
| BurnEvent address u256
| AuthorizationUsed address b256
| AuthorizationCanceled address b256

record log =
  log_address :: address
  log_data :: event

record 's state_access =
  perform_load_account :: "address \<Rightarrow> 's \<Rightarrow> 's \<times> (string + account_info)"
  perform_set_balance :: "address \<Rightarrow> u256 \<Rightarrow> 's \<Rightarrow> 's \<times> (string + unit)"
  perform_sload :: "address \<Rightarrow> u256 \<Rightarrow> 's \<Rightarrow> 's \<times> (string + u256)"
  perform_sstore :: "address \<Rightarrow> u256 \<Rightarrow> u256 \<Rightarrow> 's \<Rightarrow> 's \<times> (string + unit)"
  perform_touch_account :: "address \<Rightarrow> 's \<Rightarrow> 's"
  perform_log :: "log \<Rightarrow> 's \<Rightarrow> 's"
  get_block_timestamp :: "'s \<Rightarrow> u256"

type_synonym ('s, 'a) act = "'s \<Rightarrow> 's \<times> (erc20_error + 'a)"

definition ret :: "'a \<Rightarrow> ('s, 'a) act" where
  "ret x s = (s, Inr x)"

definition fail :: "erc20_error \<Rightarrow> ('s, 'a) act" where
  "fail e s = (s, Inl e)"

definition andthen :: "('s, 'a) act \<Rightarrow> ('a \<Rightarrow> ('s, 'b) act) \<Rightarrow> ('s, 'b) act" where
  "andthen m f s = (case m s of (s', Inl e) \<Rightarrow> (s', Inl e) | (s', Inr x) \<Rightarrow> f x s')"

definition effect :: "('s \<Rightarrow> 's) \<Rightarrow> ('s, unit) act" where
  "effect f s = (f s, Inr ())"

definition map_err :: "(string \<Rightarrow> erc20_error) \<Rightarrow> ('s \<Rightarrow> 's \<times> (string + 'a)) \<Rightarrow> ('s, 'a) act" where
  "map_err g m s = (case m s of (s', Inl e) \<Rightarrow> (s', Inl (g e)) | (s', Inr x) \<Rightarrow> (s', Inr x))"

definition of_result :: "erc20_error + 'a \<Rightarrow> ('s, 'a) act" where
  "of_result r s = (s, r)"

definition ok_or :: "'a option \<Rightarrow> erc20_error \<Rightarrow> ('s, 'a) act" where
  "ok_or x e = (case x of Some y \<Rightarrow> ret y | None \<Rightarrow> fail e)"

definition checked_add :: "u256 \<Rightarrow> u256 \<Rightarrow> u256 option" where
  "checked_add x y = (if unat x + unat y < 2 ^ 256 then Some (x + y) else None)"

definition checked_sub :: "u256 \<Rightarrow> u256 \<Rightarrow> u256 option" where
  "checked_sub x y = (if y \<le> x then Some (x - y) else None)"

text \<open>\<open>AccountInfo::is_empty\<close> of revm, as the comment of \<open>check_not_left_empty\<close> states it.\<close>

definition is_empty :: "crypto \<Rightarrow> account_info \<Rightarrow> bool" where
  "is_empty C info \<longleftrightarrow> balance info = 0 \<and> acc_nonce info = 0 \<and>
    (code_hash info = keccak256 C [] \<or> code_hash info = 0)"

section \<open>The precompile\<close>

record erc20_token_config =
  cfg_name :: string
  cfg_symbol :: string
  cfg_decimals :: "8 word"
  cfg_version :: string

definition token_config_default :: erc20_token_config where
  "token_config_default = \<lparr>cfg_name = ''USD Rayls'', cfg_symbol = ''USDr'', cfg_decimals = 18,
    cfg_version = ''1.0.0''\<rparr>"

record erc20_precompile =
  tok_name :: string
  tok_symbol :: string
  tok_decimals :: "8 word"
  contract_address :: address
  tok_version :: string
  chain_id :: "64 word"
  domain :: eip712_domain

definition precompile_new :: "erc20_token_config \<Rightarrow> address \<Rightarrow> 64 word \<Rightarrow> erc20_precompile" where
  "precompile_new config addr chain =
    \<lparr>tok_name = cfg_name config, tok_symbol = cfg_symbol config,
     tok_decimals = cfg_decimals config, contract_address = addr,
     tok_version = cfg_version config, chain_id = chain,
     domain = \<lparr>dom_name = cfg_name config, dom_version = cfg_version config,
       dom_chain_id = ucast chain, dom_contract = addr\<rparr>\<rparr>"

definition default_native :: "address \<Rightarrow> 64 word \<Rightarrow> erc20_precompile" where
  "default_native addr chain = precompile_new token_config_default addr chain"

definition ERC20_PRECOMPILE_ADDRESS :: address where "ERC20_PRECOMPILE_ADDRESS = 0x0400"

definition MINTING_MODULE_ADDRESS :: address where
  "MINTING_MODULE_ADDRESS = 0x07e17e17e17e17e17e17e17e17e17e17e17e17e6"

record precompile_output =
  gas_used :: nat
  out_bytes :: bytes

definition output_new :: "nat \<Rightarrow> bytes \<Rightarrow> precompile_output" where
  "output_new gas bs = \<lparr>gas_used = gas, out_bytes = bs\<rparr>"

definition GAS_NAME :: nat where "GAS_NAME = 100"
definition GAS_SYMBOL :: nat where "GAS_SYMBOL = 100"
definition GAS_DECIMALS :: nat where "GAS_DECIMALS = 100"
definition GAS_TOTAL_SUPPLY :: nat where "GAS_TOTAL_SUPPLY = 2100"
definition GAS_BALANCE_QUERY :: nat where "GAS_BALANCE_QUERY = 400"
definition GAS_ALLOWANCE_QUERY :: nat where "GAS_ALLOWANCE_QUERY = 2100"
definition GAS_TRANSFER :: nat where "GAS_TRANSFER = 9000"
definition GAS_APPROVE :: nat where "GAS_APPROVE = 5000"
definition GAS_TRANSFER_FROM :: nat where "GAS_TRANSFER_FROM = 12000"
definition GAS_MINT :: nat where "GAS_MINT = 10000"
definition GAS_BURN :: nat where "GAS_BURN = 10000"
definition GAS_TRANSFER_WITH_AUTHORIZATION :: nat where "GAS_TRANSFER_WITH_AUTHORIZATION = 35000"
definition GAS_RECEIVE_WITH_AUTHORIZATION :: nat where "GAS_RECEIVE_WITH_AUTHORIZATION = 35000"
definition GAS_CANCEL_AUTHORIZATION :: nat where "GAS_CANCEL_AUTHORIZATION = 25000"

section \<open>Reads and writes\<close>

definition perform_get_balance :: "'s state_access \<Rightarrow> address \<Rightarrow> 's \<Rightarrow> 's \<times> (string + u256)" where
  "perform_get_balance A a s =
    (case perform_load_account A a s of
       (s', Inl e) \<Rightarrow> (s', Inl e)
     | (s', Inr info) \<Rightarrow> (s', Inr (balance info)))"

definition get_allowance ::
  "crypto \<Rightarrow> 's state_access \<Rightarrow> erc20_precompile \<Rightarrow> address \<Rightarrow> address \<Rightarrow> ('s, u256) act" where
  "get_allowance C A self owner spender =
    map_err (\<lambda>e. ERC20Other (ReadError ResAllowance e))
      (perform_sload A (contract_address self) (allowance_slot C owner spender))"

definition get_balance :: "'s state_access \<Rightarrow> address \<Rightarrow> ('s, u256) act" where
  "get_balance A a =
    map_err (\<lambda>e. ERC20Other (ReadError (ResAccount a) e)) (perform_get_balance A a)"

definition set_balance :: "'s state_access \<Rightarrow> address \<Rightarrow> u256 \<Rightarrow> ('s, unit) act" where
  "set_balance A a b =
    map_err (\<lambda>e. ERC20Other (WriteError (ResAccount a) e)) (perform_set_balance A a b)"

definition get_total_supply ::
  "crypto \<Rightarrow> 's state_access \<Rightarrow> erc20_precompile \<Rightarrow> ('s, u256) act" where
  "get_total_supply C A self =
    map_err (\<lambda>e. ERC20Other (ReadError ResTotalSupply e))
      (perform_sload A (contract_address self) (total_supply_slot C))"

definition set_allowance ::
  "crypto \<Rightarrow> 's state_access \<Rightarrow> erc20_precompile \<Rightarrow> address \<Rightarrow> address \<Rightarrow> u256 \<Rightarrow>
    ('s, unit) act" where
  "set_allowance C A self owner spender amount =
    map_err (\<lambda>e. ERC20Other (WriteError ResAllowance e))
      (perform_sstore A (contract_address self) (allowance_slot C owner spender) amount)"

definition set_total_supply ::
  "crypto \<Rightarrow> 's state_access \<Rightarrow> erc20_precompile \<Rightarrow> u256 \<Rightarrow> ('s, unit) act" where
  "set_total_supply C A self amount =
    map_err (\<lambda>e. ERC20Other (WriteError ResTotalSupply e))
      (perform_sstore A (contract_address self) (total_supply_slot C) amount)"

section \<open>Checks\<close>

definition check_approver :: "address \<Rightarrow> ('s, unit) act" where
  "check_approver approver = (if approver = 0 then fail (ERC20InvalidApprover 0) else ret ())"

definition check_spender :: "address \<Rightarrow> ('s, unit) act" where
  "check_spender spender = (if spender = 0 then fail (ERC20InvalidSpender 0) else ret ())"

definition check_balance :: "address \<Rightarrow> u256 \<Rightarrow> u256 \<Rightarrow> ('s, unit) act" where
  "check_balance sender bal needed =
    (if bal < needed then fail (ERC20InsufficientBalance sender bal needed) else ret ())"

definition check_not_left_empty ::
  "crypto \<Rightarrow> 's state_access \<Rightarrow> address \<Rightarrow> u256 \<Rightarrow> ('s, unit) act" where
  "check_not_left_empty C A account new_balance =
    (if new_balance \<noteq> 0 then ret ()
     else andthen (map_err (\<lambda>e. ERC20Other (ReadError (ResAccount account) e))
                    (perform_load_account A account)) (\<lambda>info.
          if is_empty C (info\<lparr>balance := new_balance\<rparr>)
          then fail (TransferWouldEmptyAccount account) else ret ()))"

definition check_allowance :: "address \<Rightarrow> u256 \<Rightarrow> u256 \<Rightarrow> bool \<Rightarrow> ('s, unit) act" where
  "check_allowance spender allowance needed is_unlimited =
    (if \<not> is_unlimited \<and> allowance < needed
     then fail (ERC20InsufficientAllowance spender allowance needed) else ret ())"

definition check_whitelist :: "address \<Rightarrow> ('s, unit) act" where
  "check_whitelist caller =
    (if caller \<noteq> MINTING_MODULE_ADDRESS then fail (NotWhitelisted caller) else ret ())"

definition check_sender :: "address \<Rightarrow> ('s, unit) act" where
  "check_sender sender = (if sender = 0 then fail (ERC20InvalidSender 0) else ret ())"

definition check_receiver :: "address \<Rightarrow> ('s, unit) act" where
  "check_receiver receiver = (if receiver = 0 then fail (ERC20InvalidReceiver 0) else ret ())"

text \<open>The guard of a debit that the hardfork \<open>Eip161EmptyAccountGuard\<close> switches on.\<close>

definition reject_empty ::
  "crypto \<Rightarrow> 's state_access \<Rightarrow> bool \<Rightarrow> address \<Rightarrow> u256 \<Rightarrow> ('s, unit) act" where
  "reject_empty C A reject_empty_debits account new_balance =
    (if reject_empty_debits then check_not_left_empty C A account new_balance else ret ())"

definition transfer_balance ::
  "crypto \<Rightarrow> 's state_access \<Rightarrow> address \<Rightarrow> address \<Rightarrow> u256 \<Rightarrow> bool \<Rightarrow> ('s, unit) act" where
  "transfer_balance C A sender receiver amount reject_empty_debits =
    andthen (get_balance A sender) (\<lambda>bal.
    andthen (check_balance sender bal amount) (\<lambda>_.
    andthen (ok_or (checked_sub bal amount)
      (ERC20Other (OverflowError ResBalance MethodTransfer))) (\<lambda>new_balance.
    andthen (reject_empty C A reject_empty_debits sender new_balance) (\<lambda>_.
    andthen (set_balance A sender new_balance) (\<lambda>_.
    andthen (effect (perform_touch_account A sender)) (\<lambda>_.
    andthen (get_balance A receiver) (\<lambda>bal'.
    andthen (ok_or (checked_add bal' amount)
      (ERC20Other (OverflowError ResBalance MethodTransfer))) (\<lambda>new_balance'.
    andthen (set_balance A receiver new_balance') (\<lambda>_.
    effect (perform_touch_account A receiver))))))))))"

section \<open>Events\<close>

definition encode_transfer_event :: "address \<Rightarrow> address \<Rightarrow> address \<Rightarrow> u256 \<Rightarrow> log" where
  "encode_transfer_event addr from to value =
    \<lparr>log_address = addr, log_data = TransferEvent from to value\<rparr>"

definition encode_approval_event :: "address \<Rightarrow> address \<Rightarrow> address \<Rightarrow> u256 \<Rightarrow> log" where
  "encode_approval_event addr owner spender value =
    \<lparr>log_address = addr, log_data = ApprovalEvent owner spender value\<rparr>"

definition encode_mint_event :: "address \<Rightarrow> address \<Rightarrow> u256 \<Rightarrow> log" where
  "encode_mint_event addr to value = \<lparr>log_address = addr, log_data = MintEvent to value\<rparr>"

definition encode_burn_event :: "address \<Rightarrow> address \<Rightarrow> u256 \<Rightarrow> log" where
  "encode_burn_event addr from value = \<lparr>log_address = addr, log_data = BurnEvent from value\<rparr>"

definition encode_authorization_used_event :: "address \<Rightarrow> address \<Rightarrow> b256 \<Rightarrow> log" where
  "encode_authorization_used_event addr authorizer nonce =
    \<lparr>log_address = addr, log_data = AuthorizationUsed authorizer nonce\<rparr>"

definition encode_authorization_canceled_event :: "address \<Rightarrow> address \<Rightarrow> b256 \<Rightarrow> log" where
  "encode_authorization_canceled_event addr authorizer nonce =
    \<lparr>log_address = addr, log_data = AuthorizationCanceled authorizer nonce\<rparr>"

section \<open>Handlers of the queries\<close>

definition handle_name :: "erc20_precompile \<Rightarrow> ('s, precompile_output) act" where
  "handle_name self = ret (output_new GAS_NAME (encode_string (ascii (tok_name self))))"

definition handle_symbol :: "erc20_precompile \<Rightarrow> ('s, precompile_output) act" where
  "handle_symbol self = ret (output_new GAS_SYMBOL (encode_string (ascii (tok_symbol self))))"

definition handle_decimals :: "erc20_precompile \<Rightarrow> ('s, precompile_output) act" where
  "handle_decimals self = ret (output_new GAS_DECIMALS (encode_uint8 (tok_decimals self)))"

definition handle_total_supply ::
  "crypto \<Rightarrow> 's state_access \<Rightarrow> erc20_precompile \<Rightarrow> ('s, precompile_output) act" where
  "handle_total_supply C A self =
    andthen (map_err (\<lambda>e. ERC20Other (ReadError ResTotalSupply e))
      (perform_sload A (contract_address self) (total_supply_slot C))) (\<lambda>total_supply.
    ret (output_new GAS_TOTAL_SUPPLY (encode_uint256 total_supply)))"

definition handle_balance_of :: "'s state_access \<Rightarrow> address \<Rightarrow> ('s, precompile_output) act" where
  "handle_balance_of A a =
    andthen (get_balance A a) (\<lambda>bal. ret (output_new GAS_BALANCE_QUERY (encode_uint256 bal)))"

definition handle_allowance ::
  "crypto \<Rightarrow> 's state_access \<Rightarrow> erc20_precompile \<Rightarrow> address \<Rightarrow> address \<Rightarrow>
    ('s, precompile_output) act" where
  "handle_allowance C A self owner spender =
    andthen (get_allowance C A self owner spender) (\<lambda>allowance.
    ret (output_new GAS_ALLOWANCE_QUERY (encode_uint256 allowance)))"

section \<open>Handlers of the transfers\<close>

definition handle_transfer ::
  "crypto \<Rightarrow> 's state_access \<Rightarrow> erc20_precompile \<Rightarrow> address \<Rightarrow> address \<Rightarrow> u256 \<Rightarrow> bool \<Rightarrow>
    ('s, precompile_output) act" where
  "handle_transfer C A self sender receiver amount reject_empty_debits =
    andthen (check_sender sender) (\<lambda>_.
    andthen (check_receiver receiver) (\<lambda>_.
    if amount = 0 then ret (output_new GAS_TRANSFER (encode_bool True))
    else if sender = receiver then ret (output_new GAS_TRANSFER (encode_bool True))
    else
      andthen (transfer_balance C A sender receiver amount reject_empty_debits) (\<lambda>_.
      andthen (effect (perform_log A
        (encode_transfer_event (contract_address self) sender receiver amount))) (\<lambda>_.
      ret (output_new GAS_TRANSFER (encode_bool True))))))"

definition handle_approve ::
  "crypto \<Rightarrow> 's state_access \<Rightarrow> erc20_precompile \<Rightarrow> address \<Rightarrow> address \<Rightarrow> u256 \<Rightarrow>
    ('s, precompile_output) act" where
  "handle_approve C A self owner spender amount =
    andthen (check_approver owner) (\<lambda>_.
    andthen (check_spender spender) (\<lambda>_.
    andthen (set_allowance C A self owner spender amount) (\<lambda>_.
    andthen (effect (perform_touch_account A (contract_address self))) (\<lambda>_.
    andthen (effect (perform_log A
      (encode_approval_event (contract_address self) owner spender amount))) (\<lambda>_.
    ret (output_new GAS_APPROVE (encode_bool True)))))))"

text \<open>The decrease of an allowance, unless it is unlimited; three handlers have these lines.\<close>

definition decrease_allowance ::
  "crypto \<Rightarrow> 's state_access \<Rightarrow> erc20_precompile \<Rightarrow> address \<Rightarrow> address \<Rightarrow> u256 \<Rightarrow> u256 \<Rightarrow>
    bool \<Rightarrow> erc20_method \<Rightarrow> ('s, unit) act" where
  "decrease_allowance C A self owner spender current_allowance amount is_unlimited method =
    (if is_unlimited then ret ()
     else
       andthen (ok_or (checked_sub current_allowance amount)
         (ERC20Other (OverflowError ResAllowance method))) (\<lambda>new_allowance.
       andthen (set_allowance C A self owner spender new_allowance) (\<lambda>_.
       effect (perform_touch_account A (contract_address self)))))"

definition handle_transfer_from ::
  "crypto \<Rightarrow> 's state_access \<Rightarrow> erc20_precompile \<Rightarrow> address \<Rightarrow> address \<Rightarrow> address \<Rightarrow> u256 \<Rightarrow>
    bool \<Rightarrow> ('s, precompile_output) act" where
  "handle_transfer_from C A self spender sender receiver amount reject_empty_debits =
    andthen (check_sender sender) (\<lambda>_.
    andthen (check_receiver receiver) (\<lambda>_.
    if amount = 0 then ret (output_new GAS_TRANSFER_FROM (encode_bool True))
    else
      andthen (get_allowance C A self sender spender) (\<lambda>current_spender_allowance.
      let is_unlimited = (current_spender_allowance = - 1) in
      andthen (check_allowance spender current_spender_allowance amount is_unlimited) (\<lambda>_.
      if sender = receiver then
        andthen (decrease_allowance C A self sender spender current_spender_allowance amount
          is_unlimited MethodTransfer) (\<lambda>_.
        andthen (effect (perform_log A
          (encode_transfer_event (contract_address self) sender receiver amount))) (\<lambda>_.
        ret (output_new GAS_TRANSFER_FROM (encode_bool True))))
      else
        andthen (transfer_balance C A sender receiver amount reject_empty_debits) (\<lambda>_.
        andthen (decrease_allowance C A self sender spender current_spender_allowance amount
          is_unlimited MethodTransfer) (\<lambda>_.
        andthen (effect (perform_log A
          (encode_transfer_event (contract_address self) sender receiver amount))) (\<lambda>_.
        ret (output_new GAS_TRANSFER_FROM (encode_bool True)))))))))"

section \<open>Handlers of the supply\<close>

definition handle_mint ::
  "crypto \<Rightarrow> 's state_access \<Rightarrow> erc20_precompile \<Rightarrow> address \<Rightarrow> address \<Rightarrow> u256 \<Rightarrow>
    ('s, precompile_output) act" where
  "handle_mint C A self caller receiver amount =
    andthen (check_whitelist caller) (\<lambda>_.
    andthen (check_receiver receiver) (\<lambda>_.
    if amount = 0 then fail (ERC20Other (ZeroAmount MethodMint))
    else
      andthen (get_total_supply C A self) (\<lambda>current_total_supply.
      andthen (ok_or (checked_add current_total_supply amount)
        (ERC20Other (OverflowError ResTotalSupply MethodMint))) (\<lambda>new_total_supply.
      andthen (set_total_supply C A self new_total_supply) (\<lambda>_.
      andthen (effect (perform_touch_account A (contract_address self))) (\<lambda>_.
      andthen (get_balance A receiver) (\<lambda>receiver_balance.
      andthen (ok_or (checked_add receiver_balance amount)
        (ERC20Other (OverflowError ResBalance MethodMint))) (\<lambda>new_receiver_balance.
      andthen (set_balance A receiver new_receiver_balance) (\<lambda>_.
      andthen (effect (perform_touch_account A receiver)) (\<lambda>_.
      andthen (effect (perform_log A
        (encode_mint_event (contract_address self) receiver amount))) (\<lambda>_.
      andthen (effect (perform_log A
        (encode_transfer_event (contract_address self) 0 receiver amount))) (\<lambda>_.
      ret (output_new GAS_MINT (encode_bool True))))))))))))))"

text \<open>The part \<open>burn\<close> and \<open>burnFrom\<close> share: the debit with its checks, and the supply.\<close>

definition burn_balance ::
  "crypto \<Rightarrow> 's state_access \<Rightarrow> erc20_precompile \<Rightarrow> address \<Rightarrow> u256 \<Rightarrow> bool \<Rightarrow>
    ('s, unit) act" where
  "burn_balance C A self sender amount reject_empty_debits =
    andthen (get_balance A sender) (\<lambda>sender_balance.
    andthen (check_balance sender sender_balance amount) (\<lambda>_.
    andthen (ok_or (checked_sub sender_balance amount)
      (ERC20Other (OverflowError ResBalance MethodBurn))) (\<lambda>new_sender_balance.
    andthen (reject_empty C A reject_empty_debits sender new_sender_balance) (\<lambda>_.
    andthen (get_total_supply C A self) (\<lambda>current_total_supply.
    andthen (ok_or (checked_sub current_total_supply amount)
      (ERC20Other (OverflowError ResTotalSupply MethodBurn))) (\<lambda>new_total_supply.
    andthen (set_total_supply C A self new_total_supply) (\<lambda>_.
    andthen (effect (perform_touch_account A (contract_address self))) (\<lambda>_.
    andthen (set_balance A sender new_sender_balance) (\<lambda>_.
    effect (perform_touch_account A sender))))))))))"

definition handle_burn ::
  "crypto \<Rightarrow> 's state_access \<Rightarrow> erc20_precompile \<Rightarrow> address \<Rightarrow> u256 \<Rightarrow> bool \<Rightarrow>
    ('s, precompile_output) act" where
  "handle_burn C A self caller amount reject_empty_debits =
    andthen (check_whitelist caller) (\<lambda>_.
    if caller = 0 then fail (ERC20InvalidSender 0)
    else if amount = 0 then fail (ERC20Other (ZeroAmount MethodBurn))
    else
      andthen (burn_balance C A self caller amount reject_empty_debits) (\<lambda>_.
      andthen (effect (perform_log A
        (encode_burn_event (contract_address self) caller amount))) (\<lambda>_.
      andthen (effect (perform_log A
        (encode_transfer_event (contract_address self) caller 0 amount))) (\<lambda>_.
      ret (output_new GAS_BURN (encode_bool True))))))"

definition handle_burn_from ::
  "crypto \<Rightarrow> 's state_access \<Rightarrow> erc20_precompile \<Rightarrow> address \<Rightarrow> address \<Rightarrow> u256 \<Rightarrow> bool \<Rightarrow>
    ('s, precompile_output) act" where
  "handle_burn_from C A self caller sender amount reject_empty_debits =
    andthen (check_whitelist caller) (\<lambda>_.
    if sender = 0 then fail (ERC20InvalidSender 0)
    else if amount = 0 then fail (ERC20Other (ZeroAmount MethodBurn))
    else
      andthen (get_allowance C A self sender caller) (\<lambda>current_allowance.
      let is_unlimited = (current_allowance = - 1) in
      andthen (check_allowance caller current_allowance amount is_unlimited) (\<lambda>_.
      andthen (burn_balance C A self sender amount reject_empty_debits) (\<lambda>_.
      andthen (decrease_allowance C A self sender caller current_allowance amount is_unlimited
        MethodBurn) (\<lambda>_.
      andthen (effect (perform_log A
        (encode_burn_event (contract_address self) sender amount))) (\<lambda>_.
      andthen (effect (perform_log A
        (encode_transfer_event (contract_address self) sender 0 amount))) (\<lambda>_.
      ret (output_new GAS_BURN (encode_bool True)))))))))"

section \<open>Handlers of EIP-3009\<close>

definition is_authorization_nonce_used ::
  "crypto \<Rightarrow> 's state_access \<Rightarrow> erc20_precompile \<Rightarrow> address \<Rightarrow> b256 \<Rightarrow> ('s, bool) act" where
  "is_authorization_nonce_used C A self authorizer nonce =
    andthen (map_err (\<lambda>e. ERC20Other (ReadError ResNonce e))
      (perform_sload A (contract_address self) (authorization_nonce_slot C authorizer nonce)))
    (\<lambda>value. ret (value \<noteq> 0))"

definition mark_nonce_used ::
  "crypto \<Rightarrow> 's state_access \<Rightarrow> erc20_precompile \<Rightarrow> address \<Rightarrow> b256 \<Rightarrow> ('s, unit) act" where
  "mark_nonce_used C A self authorizer nonce =
    andthen (map_err (\<lambda>e. ERC20Other (WriteError ResNonce e))
      (perform_sstore A (contract_address self) (authorization_nonce_slot C authorizer nonce) 1))
    (\<lambda>_. effect (perform_touch_account A (contract_address self)))"

definition handle_transfer_with_authorization ::
  "crypto \<Rightarrow> 's state_access \<Rightarrow> erc20_precompile \<Rightarrow> address \<Rightarrow> address \<Rightarrow> u256 \<Rightarrow> u256 \<Rightarrow> u256 \<Rightarrow>
    b256 \<Rightarrow> 8 word \<Rightarrow> u256 \<Rightarrow> u256 \<Rightarrow> bool \<Rightarrow> ('s, precompile_output) act" where
  "handle_transfer_with_authorization C A self sender receiver amount valid_after valid_before
      nonce v r s reject_empty_debits =
    andthen (\<lambda>st. (st, Inr (get_block_timestamp A st))) (\<lambda>current_timestamp.
    if current_timestamp < valid_after
    then fail (AuthorizationNotYetValid valid_after current_timestamp)
    else if valid_before \<le> current_timestamp
    then fail (AuthorizationExpired valid_before current_timestamp)
    else
      andthen (is_authorization_nonce_used C A self sender nonce) (\<lambda>used.
      if used then fail (AuthorizationAlreadyUsed nonce)
      else
        andthen (of_result (verify_transfer_authorization C (domain self) sender receiver amount
          valid_after valid_before nonce v r s)) (\<lambda>signer.
        if signer \<noteq> sender then fail (InvalidAuthorizer sender signer)
        else
          andthen (mark_nonce_used C A self sender nonce) (\<lambda>_.
          andthen (handle_transfer C A self sender receiver amount reject_empty_debits)
          (\<lambda>transfer_result.
          andthen (effect (perform_log A
            (encode_authorization_used_event (contract_address self) sender nonce))) (\<lambda>_.
          ret (transfer_result\<lparr>gas_used := GAS_TRANSFER_WITH_AUTHORIZATION\<rparr>)))))))"

definition handle_receive_with_authorization ::
  "crypto \<Rightarrow> 's state_access \<Rightarrow> erc20_precompile \<Rightarrow> address \<Rightarrow> address \<Rightarrow> address \<Rightarrow> u256 \<Rightarrow>
    u256 \<Rightarrow> u256 \<Rightarrow> b256 \<Rightarrow> 8 word \<Rightarrow> u256 \<Rightarrow> u256 \<Rightarrow> bool \<Rightarrow> ('s, precompile_output) act" where
  "handle_receive_with_authorization C A self caller sender receiver amount valid_after
      valid_before nonce v r s reject_empty_debits =
    (if caller \<noteq> receiver then fail (CallerNotReceiver caller receiver)
     else
      andthen (\<lambda>st. (st, Inr (get_block_timestamp A st))) (\<lambda>current_timestamp.
      if current_timestamp < valid_after
      then fail (AuthorizationNotYetValid valid_after current_timestamp)
      else if valid_before \<le> current_timestamp
      then fail (AuthorizationExpired valid_before current_timestamp)
      else
        andthen (is_authorization_nonce_used C A self sender nonce) (\<lambda>used.
        if used then fail (AuthorizationAlreadyUsed nonce)
        else
          andthen (of_result (verify_transfer_authorization C (domain self) sender receiver amount
            valid_after valid_before nonce v r s)) (\<lambda>signer.
          if signer \<noteq> sender then fail (InvalidAuthorizer sender signer)
          else
            andthen (mark_nonce_used C A self sender nonce) (\<lambda>_.
            andthen (handle_transfer C A self sender receiver amount reject_empty_debits)
            (\<lambda>transfer_result.
            andthen (effect (perform_log A
              (encode_authorization_used_event (contract_address self) sender nonce))) (\<lambda>_.
            ret (transfer_result\<lparr>gas_used := GAS_RECEIVE_WITH_AUTHORIZATION\<rparr>))))))))"

definition handle_cancel_authorization ::
  "crypto \<Rightarrow> 's state_access \<Rightarrow> erc20_precompile \<Rightarrow> address \<Rightarrow> b256 \<Rightarrow> 8 word \<Rightarrow> u256 \<Rightarrow> u256 \<Rightarrow>
    ('s, precompile_output) act" where
  "handle_cancel_authorization C A self authorizer nonce v r s =
    andthen (is_authorization_nonce_used C A self authorizer nonce) (\<lambda>used.
    if used then fail (AuthorizationAlreadyUsed nonce)
    else
      andthen (of_result (verify_cancel_authorization C (domain self) authorizer nonce v r s))
      (\<lambda>signer.
      if signer \<noteq> authorizer then fail (InvalidAuthorizer authorizer signer)
      else
        andthen (mark_nonce_used C A self authorizer nonce) (\<lambda>_.
        andthen (effect (perform_log A
          (encode_authorization_canceled_event (contract_address self) authorizer nonce))) (\<lambda>_.
        ret (output_new GAS_CANCEL_AUTHORIZATION (encode_bool True))))))"

end
