(* ===== verification/Erc20_Token.thy ===== *)
theory Erc20_Token
  imports Native_Erc20
begin

text \<open>
  The contract of the native ERC-20 token, and that the handlers of \<open>precompile.rs\<close> implement it.
  The contract speaks of a \<open>token\<close>: balances as numbers, the cells of the token's storage (supply,
  allowances, used nonces) without their slots, the nonce and the code of each account, the events.
  An accepted call takes the token to one token, a refused call has no result. \<open>token_of\<close> reads the
  token off a journal; the refinement lemmas show that a handler that succeeds takes the token of
  the journal where the contract says, and that on a journal whose accesses do not fail a handler
  refuses exactly the calls that the contract refuses.
\<close>

section \<open>The journal\<close>

record evm_view =
  accounts :: "address \<Rightarrow> account_info"
  storage :: "address \<Rightarrow> u256 \<Rightarrow> u256"
  logs :: "log list"
  timestamp :: u256

text \<open>
  What the handlers rely on of the journal of revm: a read answers the last write, changes nothing
  else, and touching an account changes nothing a handler can read.
\<close>

definition adapter_ok :: "'s state_access \<Rightarrow> ('s \<Rightarrow> evm_view) \<Rightarrow> bool" where
  "adapter_ok A V \<longleftrightarrow>
    (\<forall>a s s' i. perform_load_account A a s = (s', Inr i) \<longrightarrow> V s' = V s \<and> i = accounts (V s) a) \<and>
    (\<forall>a b s s' u. perform_set_balance A a b s = (s', Inr u) \<longrightarrow>
       V s' = (V s)\<lparr>accounts := (accounts (V s))(a := (accounts (V s) a)\<lparr>balance := b\<rparr>)\<rparr>) \<and>
    (\<forall>a k s s' x. perform_sload A a k s = (s', Inr x) \<longrightarrow> V s' = V s \<and> x = storage (V s) a k) \<and>
    (\<forall>a k x s s' u. perform_sstore A a k x s = (s', Inr u) \<longrightarrow>
       V s' = (V s)\<lparr>storage := (storage (V s))(a := (storage (V s) a)(k := x))\<rparr>) \<and>
    (\<forall>a s. V (perform_touch_account A a s) = V s) \<and>
    (\<forall>l s. V (perform_log A l s) = (V s)\<lparr>logs := logs (V s) @ [l]\<rparr>) \<and>
    (\<forall>s. get_block_timestamp A s = timestamp (V s))"

definition adapter_total :: "'s state_access \<Rightarrow> bool" where
  "adapter_total A \<longleftrightarrow>
    (\<forall>a s s' e. perform_load_account A a s \<noteq> (s', Inl e)) \<and>
    (\<forall>a b s s' e. perform_set_balance A a b s \<noteq> (s', Inl e)) \<and>
    (\<forall>a k s s' e. perform_sload A a k s \<noteq> (s', Inl e)) \<and>
    (\<forall>a k x s s' e. perform_sstore A a k x s \<noteq> (s', Inl e))"

section \<open>The token\<close>

record token =
  tk_bal :: "address \<Rightarrow> nat"
  tk_cell :: "cell \<Rightarrow> nat"
  tk_ident :: "address \<Rightarrow> 64 word \<times> b256"
  tk_logs :: "log list"
  tk_time :: nat

definition token_of :: "crypto \<Rightarrow> erc20_precompile \<Rightarrow> cell set \<Rightarrow> evm_view \<Rightarrow> token" where
  "token_of C self K v =
    \<lparr>tk_bal = (\<lambda>a. unat (balance (accounts v a))),
     tk_cell = (\<lambda>k. if k \<in> K then unat (storage v (contract_address self) (slot_of C k)) else 0),
     tk_ident = (\<lambda>a. (acc_nonce (accounts v a), code_hash (accounts v a))),
     tk_logs = logs v,
     tk_time = unat (timestamp v)\<rparr>"

definition tk_event :: "erc20_precompile \<Rightarrow> event \<Rightarrow> token \<Rightarrow> token" where
  "tk_event self e t =
    t\<lparr>tk_logs := tk_logs t @ [\<lparr>log_address = contract_address self, log_data = e\<rparr>]\<rparr>"

definition tk_set :: "cell \<Rightarrow> nat \<Rightarrow> token \<Rightarrow> token" where
  "tk_set k n t = t\<lparr>tk_cell := (tk_cell t)(k := n)\<rparr>"

definition tk_credit :: "address \<Rightarrow> nat \<Rightarrow> token \<Rightarrow> token option" where
  "tk_credit a n t =
    (if tk_bal t a + n < 2 ^ 256 then Some (t\<lparr>tk_bal := (tk_bal t)(a := tk_bal t a + n)\<rparr>) else None)"

definition tk_codeless :: "crypto \<Rightarrow> token \<Rightarrow> address \<Rightarrow> bool" where
  "tk_codeless C t a \<longleftrightarrow> fst (tk_ident t a) = 0 \<and>
    (snd (tk_ident t a) = keccak256 C [] \<or> snd (tk_ident t a) = 0)"

definition tk_debit :: "crypto \<Rightarrow> bool \<Rightarrow> address \<Rightarrow> nat \<Rightarrow> token \<Rightarrow> token option" where
  "tk_debit C guard a n t =
    (if tk_bal t a < n then None
     else if guard \<and> tk_bal t a = n \<and> tk_codeless C t a then None
     else Some (t\<lparr>tk_bal := (tk_bal t)(a := tk_bal t a - n)\<rparr>))"

definition tk_move :: "crypto \<Rightarrow> bool \<Rightarrow> address \<Rightarrow> address \<Rightarrow> nat \<Rightarrow> token \<Rightarrow> token option" where
  "tk_move C guard a b n t = Option.bind (tk_debit C guard a n t) (tk_credit b n)"

definition tk_transfer ::
  "crypto \<Rightarrow> erc20_precompile \<Rightarrow> bool \<Rightarrow> address \<Rightarrow> address \<Rightarrow> u256 \<Rightarrow> token \<Rightarrow> token option" where
  "tk_transfer C self guard a b n t =
    (if a = 0 \<or> b = 0 then None
     else if n = 0 \<or> a = b then Some t
     else map_option (tk_event self (TransferEvent a b n)) (tk_move C guard a b (unat n) t))"

definition tk_spend :: "address \<Rightarrow> address \<Rightarrow> nat \<Rightarrow> token \<Rightarrow> token option" where
  "tk_spend owner spender n t =
    (let w = tk_cell t (AllowanceCell owner spender)
     in if w = 2 ^ 256 - 1 then Some t
        else if w < n then None
        else Some (tk_set (AllowanceCell owner spender) (w - n) t))"

definition tk_transfer_from ::
  "crypto \<Rightarrow> erc20_precompile \<Rightarrow> bool \<Rightarrow> address \<Rightarrow> address \<Rightarrow> address \<Rightarrow> u256 \<Rightarrow> token \<Rightarrow>
    token option" where
  "tk_transfer_from C self guard spender a b n t =
    (if a = 0 \<or> b = 0 then None
     else if n = 0 then Some t
     else map_option (tk_event self (TransferEvent a b n))
       (Option.bind (tk_spend a spender (unat n) t)
         (if a = b then Some else tk_move C guard a b (unat n))))"

definition tk_approve ::
  "erc20_precompile \<Rightarrow> address \<Rightarrow> address \<Rightarrow> u256 \<Rightarrow> token \<Rightarrow> token option" where
  "tk_approve self owner spender n t =
    (if owner = 0 \<or> spender = 0 then None
     else Some (tk_event self (ApprovalEvent owner spender n)
       (tk_set (AllowanceCell owner spender) (unat n) t)))"

definition tk_mint :: "erc20_precompile \<Rightarrow> address \<Rightarrow> address \<Rightarrow> u256 \<Rightarrow> token \<Rightarrow> token option" where
  "tk_mint self caller a n t =
    (let w = tk_cell t SupplyCell
     in if caller \<noteq> MINTING_MODULE_ADDRESS \<or> a = 0 \<or> n = 0 \<or> 2 ^ 256 \<le> w + unat n then None
        else map_option (tk_event self (TransferEvent 0 a n) \<circ> tk_event self (MintEvent a n))
          (tk_credit a (unat n) (tk_set SupplyCell (w + unat n) t)))"

definition tk_destroy :: "crypto \<Rightarrow> bool \<Rightarrow> address \<Rightarrow> nat \<Rightarrow> token \<Rightarrow> token option" where
  "tk_destroy C guard a n t =
    (if tk_cell t SupplyCell < n then None
     else tk_debit C guard a n (tk_set SupplyCell (tk_cell t SupplyCell - n) t))"

definition tk_burn ::
  "crypto \<Rightarrow> erc20_precompile \<Rightarrow> bool \<Rightarrow> address \<Rightarrow> u256 \<Rightarrow> token \<Rightarrow> token option" where
  "tk_burn C self guard caller n t =
    (if caller \<noteq> MINTING_MODULE_ADDRESS \<or> n = 0 then None
     else map_option (tk_event self (TransferEvent caller 0 n) \<circ> tk_event self (BurnEvent caller n))
       (tk_destroy C guard caller (unat n) t))"

definition tk_burn_from ::
  "crypto \<Rightarrow> erc20_precompile \<Rightarrow> bool \<Rightarrow> address \<Rightarrow> address \<Rightarrow> u256 \<Rightarrow> token \<Rightarrow> token option" where
  "tk_burn_from C self guard caller a n t =
    (if caller \<noteq> MINTING_MODULE_ADDRESS \<or> a = 0 \<or> n = 0 then None
     else map_option (tk_event self (TransferEvent a 0 n) \<circ> tk_event self (BurnEvent a n))
       (Option.bind (tk_spend a caller (unat n) t) (tk_destroy C guard a (unat n))))"

definition tk_use_nonce :: "address \<Rightarrow> b256 \<Rightarrow> token \<Rightarrow> token option" where
  "tk_use_nonce a nonce t =
    (if tk_cell t (NonceCell a nonce) = 0 then Some (tk_set (NonceCell a nonce) 1 t) else None)"

text \<open>
  An authorised transfer: inside its time window, with a fresh nonce and the signature of the
  payer on the whole order.
\<close>

definition tk_authorized ::
  "crypto \<Rightarrow> erc20_precompile \<Rightarrow> bool \<Rightarrow> address \<Rightarrow> address \<Rightarrow> u256 \<Rightarrow> u256 \<Rightarrow> u256 \<Rightarrow> b256 \<Rightarrow>
    8 word \<Rightarrow> u256 \<Rightarrow> u256 \<Rightarrow> token \<Rightarrow> token option" where
  "tk_authorized C self guard a b n valid_after valid_before nonce v r s t =
    (if unat valid_after \<le> tk_time t \<and> tk_time t < unat valid_before \<and>
        verify_transfer_authorization C (domain self) a b n valid_after valid_before nonce v r s = Inr a
     then map_option (tk_event self (AuthorizationUsed a nonce))
       (Option.bind (tk_use_nonce a nonce t) (tk_transfer C self guard a b n))
     else None)"

definition tk_cancel ::
  "crypto \<Rightarrow> erc20_precompile \<Rightarrow> address \<Rightarrow> b256 \<Rightarrow> 8 word \<Rightarrow> u256 \<Rightarrow> u256 \<Rightarrow> token \<Rightarrow>
    token option" where
  "tk_cancel C self a nonce v r s t =
    (if verify_cancel_authorization C (domain self) a nonce v r s = Inr a
     then map_option (tk_event self (AuthorizationCanceled a nonce)) (tk_use_nonce a nonce t)
     else None)"

section \<open>The accesses, on the token\<close>

definition token_env :: "crypto \<Rightarrow> 's state_access \<Rightarrow> ('s \<Rightarrow> evm_view) \<Rightarrow> cell set \<Rightarrow> bool" where
  "token_env C A V K \<longleftrightarrow> adapter_ok A V \<and> keccak_free C K"

lemma token_set_balance:
  "token_of C self K (v\<lparr>accounts := (accounts v)(a := (accounts v a)\<lparr>balance := b\<rparr>)\<rparr>) =
    (token_of C self K v)\<lparr>tk_bal := (tk_bal (token_of C self K v))(a := unat b)\<rparr>"
  by (auto simp: token_of_def cong: if_cong)

lemma token_set_cell:
  assumes "keccak_free C K" "k \<in> K"
  shows "token_of C self K (v\<lparr>storage := (storage v)(contract_address self :=
      (storage v (contract_address self))(slot_of C k := x))\<rparr>) =
    tk_set k (unat x) (token_of C self K v)"
  using slot_of_inj [OF assms(1) _ assms(2)] assms(2)
  by (auto simp: token_of_def tk_set_def fun_eq_iff)

lemma token_log:
  "token_of C self K (v\<lparr>logs := logs v @ [\<lparr>log_address = contract_address self, log_data = e\<rparr>]\<rparr>) =
    tk_event self e (token_of C self K v)"
  by (simp add: token_of_def tk_event_def cong: if_cong)

text \<open>Each access that succeeds, with the token before and after it.\<close>

lemma adapter_okD:
  assumes "adapter_ok A V"
  shows "perform_load_account A a s = (s', Inr i) \<Longrightarrow> V s' = V s \<and> i = accounts (V s) a"
    "perform_set_balance A a b s = (s', Inr u) \<Longrightarrow>
       V s' = (V s)\<lparr>accounts := (accounts (V s))(a := (accounts (V s) a)\<lparr>balance := b\<rparr>)\<rparr>"
    "perform_sload A a k s = (s', Inr x) \<Longrightarrow> V s' = V s \<and> x = storage (V s) a k"
    "perform_sstore A a k y s = (s', Inr u) \<Longrightarrow>
       V s' = (V s)\<lparr>storage := (storage (V s))(a := (storage (V s) a)(k := y))\<rparr>"
    "V (perform_touch_account A a s) = V s"
    "V (perform_log A l s) = (V s)\<lparr>logs := logs (V s) @ [l]\<rparr>"
    "get_block_timestamp A s = timestamp (V s)"
proof -
  note L = assms [unfolded adapter_ok_def]
  note L1 = L [THEN conjunct2] note L2 = L1 [THEN conjunct2] note L3 = L2 [THEN conjunct2]
  note L4 = L3 [THEN conjunct2] note L5 = L4 [THEN conjunct2]
  show "perform_load_account A a s = (s', Inr i) \<Longrightarrow> V s' = V s \<and> i = accounts (V s) a"
    using L [THEN conjunct1] by simp
  show "perform_set_balance A a b s = (s', Inr u) \<Longrightarrow>
       V s' = (V s)\<lparr>accounts := (accounts (V s))(a := (accounts (V s) a)\<lparr>balance := b\<rparr>)\<rparr>"
    using L1 [THEN conjunct1] by simp
  show "perform_sload A a k s = (s', Inr x) \<Longrightarrow> V s' = V s \<and> x = storage (V s) a k"
    using L2 [THEN conjunct1] by simp
  show "perform_sstore A a k y s = (s', Inr u) \<Longrightarrow>
       V s' = (V s)\<lparr>storage := (storage (V s))(a := (storage (V s) a)(k := y))\<rparr>"
    using L3 [THEN conjunct1] by simp
  show "V (perform_touch_account A a s) = V s" using L4 [THEN conjunct1] by simp
  show "V (perform_log A l s) = (V s)\<lparr>logs := logs (V s) @ [l]\<rparr>" using L5 [THEN conjunct1] by simp
  show "get_block_timestamp A s = timestamp (V s)" using L5 [THEN conjunct2] by simp
qed

lemma map_err_Inr: "map_err g m s = (s', Inr x) \<longleftrightarrow> m s = (s', Inr x)"
  by (auto simp: map_err_def split: prod.splits sum.splits)

lemma map_err_Inl: "map_err g m s = (s', Inl e) \<Longrightarrow> \<exists>e'. m s = (s', Inl e')"
  by (auto simp: map_err_def split: prod.splits sum.splits)

lemma andthen_Inr:
  "andthen m f s = (s', Inr y) \<longleftrightarrow> (\<exists>s1 x. m s = (s1, Inr x) \<and> f x s1 = (s', Inr y))"
  by (auto simp: andthen_def split: prod.splits sum.splits)

lemma andthen_Inl:
  "andthen m f s = (s', Inl e) \<longleftrightarrow>
    m s = (s', Inl e) \<or> (\<exists>s1 x. m s = (s1, Inr x) \<and> f x s1 = (s', Inl e))"
  by (auto simp: andthen_def split: prod.splits sum.splits)

lemma ret_iff [simp]: "ret x s = (s', r) \<longleftrightarrow> s' = s \<and> r = Inr x"
  by (auto simp: ret_def)

lemma fail_iff [simp]: "fail e s = (s', r) \<longleftrightarrow> s' = s \<and> r = Inl e"
  by (auto simp: fail_def)

lemma effect_iff [simp]: "effect f s = (s', r) \<longleftrightarrow> s' = f s \<and> r = Inr ()"
  by (auto simp: effect_def)

lemma of_result_iff [simp]: "of_result x s = (s', r) \<longleftrightarrow> s' = s \<and> r = x"
  by (auto simp: of_result_def)

lemma ok_or_iff [simp]:
  "ok_or x e s = (s', Inr y) \<longleftrightarrow> s' = s \<and> x = Some y"
  "ok_or x e s = (s', Inl e') \<longleftrightarrow> s' = s \<and> x = None \<and> e' = e"
  by (auto simp: ok_or_def split: option.splits)

lemma checked_add_Some [simp]:
  "checked_add x y = Some z \<longleftrightarrow> unat x + unat y < 2 ^ 256 \<and> z = x + y"
  by (auto simp: checked_add_def)

lemma checked_sub_Some [simp]: "checked_sub x y = Some z \<longleftrightarrow> unat y \<le> unat x \<and> z = x - y"
  by (auto simp: checked_sub_def word_le_nat_alt)

lemma unat_checked:
  "unat (x :: u256) + unat y < 2 ^ 256 \<Longrightarrow> unat (x + y) = unat x + unat y"
  "unat (y :: u256) \<le> unat x \<Longrightarrow> unat (x - y) = unat x - unat y"
  using unat_add_lem [of x y] unat_sub [of y x] by (simp_all add: word_le_nat_alt)

lemma get_balance_ok:
  "adapter_ok A V \<Longrightarrow> get_balance A a s = (s', Inr b) \<Longrightarrow>
    V s' = V s \<and> unat b = tk_bal (token_of C self K (V s)) a"
  by (auto simp: get_balance_def map_err_Inr perform_get_balance_def token_of_def
    split: prod.splits sum.splits dest: adapter_okD(1))

lemma set_balance_ok:
  "adapter_ok A V \<Longrightarrow> set_balance A a b s = (s', Inr u) \<Longrightarrow>
    token_of C self K (V s') = (token_of C self K (V s))
      \<lparr>tk_bal := (tk_bal (token_of C self K (V s)))(a := unat b)\<rparr>"
  by (simp add: set_balance_def map_err_Inr adapter_okD(2) token_set_balance)

lemma sload_ok:
  "adapter_ok A V \<Longrightarrow> k \<in> K \<Longrightarrow> perform_sload A (contract_address self) (slot_of C k) s = (s', Inr x)
    \<Longrightarrow> V s' = V s \<and> unat x = tk_cell (token_of C self K (V s)) k"
  by (auto simp: token_of_def dest: adapter_okD(3))

lemma sstore_ok:
  "token_env C A V K \<Longrightarrow> k \<in> K \<Longrightarrow>
    perform_sstore A (contract_address self) (slot_of C k) x s = (s', Inr u) \<Longrightarrow>
    token_of C self K (V s') = tk_set k (unat x) (token_of C self K (V s))"
  by (auto simp: token_env_def token_set_cell dest!: adapter_okD(4))

section \<open>The handlers, on the token\<close>

text \<open>
  \<open>gives m s Q E\<close>: if \<open>m\<close> succeeds from \<open>s\<close>, its value and the state it leaves satisfy \<open>Q\<close>, and if
  it fails then \<open>E\<close> holds. The rules follow the structure of a handler.
\<close>

definition gives :: "('s, 'a) act \<Rightarrow> 's \<Rightarrow> ('a \<Rightarrow> 's \<Rightarrow> bool) \<Rightarrow> bool \<Rightarrow> bool" where
  "gives m s Q E \<longleftrightarrow>
    (\<forall>s' x. m s = (s', Inr x) \<longrightarrow> Q x s') \<and> (\<forall>s' e. m s = (s', Inl e) \<longrightarrow> E)"

named_theorems gives_rules

lemma givesI:
  "(\<And>s' x. m s = (s', Inr x) \<Longrightarrow> Q x s') \<Longrightarrow> (\<And>s' e. m s = (s', Inl e) \<Longrightarrow> E) \<Longrightarrow> gives m s Q E"
  by (simp add: gives_def)

lemma givesD: "gives m s Q E \<Longrightarrow> m s = (s', Inr x) \<Longrightarrow> Q x s'"
  "gives m s Q E \<Longrightarrow> m s = (s', Inl e) \<Longrightarrow> E"
  by (simp_all add: gives_def)

lemma gives_andthen [gives_rules]:
  assumes "gives m s (\<lambda>x s1. gives (f x) s1 Q E) E"
  shows "gives (andthen m f) s Q E"
  using assms unfolding gives_def andthen_Inr andthen_Inl by blast

lemma gives_ret [gives_rules]: "Q x s \<Longrightarrow> gives (ret x) s Q E"
  by (simp add: gives_def)

lemma gives_fail [gives_rules]: "E \<Longrightarrow> gives (fail e) s Q E"
  by (simp add: gives_def)

lemma gives_effect [gives_rules]: "Q () (f s) \<Longrightarrow> gives (effect f) s Q E"
  by (simp add: gives_def)

lemma gives_of_result [gives_rules]:
  "(\<And>x. r = Inr x \<Longrightarrow> Q x s) \<Longrightarrow> (\<And>e. r = Inl e \<Longrightarrow> E) \<Longrightarrow> gives (of_result r) s Q E"
  by (auto simp: gives_def)

lemma gives_if [gives_rules]:
  "(b \<Longrightarrow> gives m s Q E) \<Longrightarrow> (\<not> b \<Longrightarrow> gives m' s Q E) \<Longrightarrow> gives (if b then m else m') s Q E"
  by simp

lemma gives_checked_add [gives_rules]:
  "(\<And>z. unat z = unat x + unat y \<Longrightarrow> unat x + unat y < 2 ^ 256 \<Longrightarrow> Q z s) \<Longrightarrow>
    (2 ^ 256 \<le> unat x + unat y \<Longrightarrow> E) \<Longrightarrow> gives (ok_or (checked_add x y) e) s Q E"
  using unat_checked(1) [of x y] by (auto simp: gives_def checked_add_def split: if_splits)

lemma gives_checked_sub [gives_rules]:
  "(\<And>z. unat z = unat x - unat y \<Longrightarrow> unat y \<le> unat x \<Longrightarrow> Q z s) \<Longrightarrow> (unat x < unat y \<Longrightarrow> E) \<Longrightarrow>
    gives (ok_or (checked_sub x y) e) s Q E"
  using unat_checked(2) [of y x]
  by (auto simp: gives_def checked_sub_def word_le_nat_alt split: if_splits)

lemma gives_weaken:
  "gives m s P F \<Longrightarrow> (\<And>x s'. P x s' \<Longrightarrow> Q x s') \<Longrightarrow> (F \<Longrightarrow> E) \<Longrightarrow> gives m s Q E"
  by (auto simp: gives_def)

definition tok :: "crypto \<Rightarrow> ('s \<Rightarrow> evm_view) \<Rightarrow> erc20_precompile \<Rightarrow> cell set \<Rightarrow> 's \<Rightarrow> token" where
  "tok C V self K s = token_of C self K (V s)"

lemma tok_touch: "token_env C A V K \<Longrightarrow> tok C V self K (perform_touch_account A a s) = tok C V self K s"
  by (simp add: tok_def token_env_def adapter_okD(5))

lemma tok_log:
  "token_env C A V K \<Longrightarrow>
    tok C V self K (perform_log A \<lparr>log_address = contract_address self, log_data = e\<rparr> s) =
      tk_event self e (tok C V self K s)"
  by (simp add: tok_def token_env_def adapter_okD(6) token_log)

lemma adapter_totalD:
  "perform_load_account A a s = (s', Inl e) \<Longrightarrow> \<not> adapter_total A"
  "perform_set_balance A a b s = (s', Inl e) \<Longrightarrow> \<not> adapter_total A"
  "perform_sload A a k s = (s', Inl e) \<Longrightarrow> \<not> adapter_total A"
  "perform_sstore A a k x s = (s', Inl e) \<Longrightarrow> \<not> adapter_total A"
  unfolding adapter_total_def by blast+

lemma get_balance_Inl: "get_balance A a s = (s', Inl e) \<Longrightarrow> \<not> adapter_total A"
  by (auto simp: get_balance_def perform_get_balance_def dest!: map_err_Inl
    split: prod.splits sum.splits dest: adapter_totalD)

lemma gives_balance:
  assumes "token_env C A V K" "\<not> adapter_total A \<Longrightarrow> E"
    "\<And>b s'. tok C V self K s' = tok C V self K s \<Longrightarrow> unat b = tk_bal (tok C V self K s) a \<Longrightarrow> Q b s'"
  shows "gives (get_balance A a) s Q E"
proof (rule givesI)
  fix s' b assume "get_balance A a s = (s', Inr b)"
  then have "V s' = V s \<and> unat b = tk_bal (token_of C self K (V s)) a"
    using assms(1) by (intro get_balance_ok) (simp_all add: token_env_def)
  then show "Q b s'" using assms(3) by (simp add: tok_def)
qed (use assms(2) in \<open>auto dest: get_balance_Inl\<close>)

lemma gives_set_balance:
  assumes "token_env C A V K" "\<not> adapter_total A \<Longrightarrow> E"
    "\<And>s'. tok C V self K s' =
      (tok C V self K s)\<lparr>tk_bal := (tk_bal (tok C V self K s))(a := unat b)\<rparr> \<Longrightarrow> Q () s'"
  shows "gives (set_balance A a b) s Q E"
proof (rule givesI)
  fix s' and u :: unit assume "set_balance A a b s = (s', Inr u)"
  then show "Q u s'" using assms(1,3) set_balance_ok [of A V a b s s' u C self K]
    by (simp add: tok_def token_env_def)
qed (use assms(2) in \<open>auto simp: set_balance_def dest!: map_err_Inl dest: adapter_totalD\<close>)

lemma gives_sload:
  assumes "token_env C A V K" "k \<in> K" "\<not> adapter_total A \<Longrightarrow> E"
    "\<And>x s'. tok C V self K s' = tok C V self K s \<Longrightarrow> unat x = tk_cell (tok C V self K s) k \<Longrightarrow> Q x s'"
  shows "gives (map_err f (perform_sload A (contract_address self) (slot_of C k))) s Q E"
proof (rule givesI)
  fix s' x assume "map_err f (perform_sload A (contract_address self) (slot_of C k)) s = (s', Inr x)"
  then show "Q x s'" using assms(1,2,4) sload_ok [of A V k K self C s s' x]
    by (simp add: tok_def token_env_def map_err_Inr)
qed (use assms(3) in \<open>auto dest!: map_err_Inl dest: adapter_totalD\<close>)

lemma gives_sstore:
  assumes "token_env C A V K" "k \<in> K" "\<not> adapter_total A \<Longrightarrow> E"
    "\<And>s'. tok C V self K s' = tk_set k (unat x) (tok C V self K s) \<Longrightarrow> Q () s'"
  shows "gives (map_err f (perform_sstore A (contract_address self) (slot_of C k) x)) s Q E"
proof (rule givesI)
  fix s' and u :: unit
  assume "map_err f (perform_sstore A (contract_address self) (slot_of C k) x) s = (s', Inr u)"
  then show "Q u s'" using assms(4) sstore_ok [OF assms(1,2), of self x s s' u]
    by (simp add: tok_def map_err_Inr)
qed (use assms(3) in \<open>auto dest!: map_err_Inl dest: adapter_totalD\<close>)

lemma gives_load:
  assumes "token_env C A V K" "\<not> adapter_total A \<Longrightarrow> E"
    "\<And>i s'. tok C V self K s' = tok C V self K s \<Longrightarrow>
      (acc_nonce i, code_hash i) = tk_ident (tok C V self K s) a \<Longrightarrow> Q i s'"
  shows "gives (map_err f (perform_load_account A a)) s Q E"
proof (rule givesI)
  fix s' i assume "map_err f (perform_load_account A a) s = (s', Inr i)"
  then have "V s' = V s \<and> i = accounts (V s) a"
    using assms(1) by (intro adapter_okD(1)) (simp_all add: token_env_def map_err_Inr)
  then show "Q i s'" by (intro assms(3)) (simp_all add: tok_def token_of_def)
qed (use assms(2) in \<open>auto dest!: map_err_Inl dest: adapter_totalD\<close>)

lemma gives_reject_empty:
  assumes "token_env C A V K" "\<not> adapter_total A \<Longrightarrow> E"
    "\<And>s'. tok C V self K s' = tok C V self K s \<Longrightarrow>
      \<not> (g \<and> unat b = 0 \<and> tk_codeless C (tok C V self K s) a) \<Longrightarrow> Q () s'"
    "g \<Longrightarrow> unat b = 0 \<Longrightarrow> tk_codeless C (tok C V self K s) a \<Longrightarrow> E"
  shows "gives (reject_empty C A g a b) s Q E"
  unfolding reject_empty_def check_not_left_empty_def
proof (intro gives_rules gives_load [OF assms(1,2), where self = self])
  fix i s'
  assume "g" "\<not> b \<noteq> 0" "tok C V self K s' = tok C V self K s"
    "(acc_nonce i, code_hash i) = tk_ident (tok C V self K s) a"
    "is_empty C (i\<lparr>balance := b\<rparr>)"
  then show E using assms(4)
    by (simp add: is_empty_def tk_codeless_def prod_eq_iff)
next
  fix i s'
  assume "g" "\<not> b \<noteq> 0" "tok C V self K s' = tok C V self K s"
    "(acc_nonce i, code_hash i) = tk_ident (tok C V self K s) a"
    "\<not> is_empty C (i\<lparr>balance := b\<rparr>)"
  then show "Q () s'" using assms(3) [of s']
    by (auto simp: is_empty_def tk_codeless_def prod_eq_iff)
qed (use assms(3) in \<open>auto simp: unat_eq_zero\<close>)

lemma slots_of_cells:
  "total_supply_slot C = slot_of C SupplyCell"
  "allowance_slot C a b = slot_of C (AllowanceCell a b)"
  "authorization_nonce_slot C a n = slot_of C (NonceCell a n)"
  by simp_all

lemmas check_defs = check_sender_def check_receiver_def check_approver_def check_spender_def
  check_balance_def check_allowance_def check_whitelist_def

lemmas event_defs = encode_transfer_event_def encode_approval_event_def encode_mint_event_def
  encode_burn_event_def encode_authorization_used_event_def encode_authorization_canceled_event_def

lemmas tok_rules = gives_balance gives_set_balance gives_reject_empty
lemmas cell_rules = gives_sload gives_sstore

lemma gives_transfer_balance:
  assumes "token_env C A V K" "\<not> adapter_total A \<Longrightarrow> E" "a \<noteq> b"
    "\<And>s'. tk_move C g a b (unat n) (tok C V self K s) = Some (tok C V self K s') \<Longrightarrow> Q () s'"
    "tk_move C g a b (unat n) (tok C V self K s) = None \<Longrightarrow> E"
  shows "gives (transfer_balance C A a b n g) s Q E"
  unfolding transfer_balance_def check_defs
  by (intro gives_rules tok_rules [OF assms(1,2), where self = self])
    (use assms(3) in \<open>auto intro!: assms(4,5) simp: tk_move_def tk_debit_def tk_credit_def
      tok_touch [OF assms(1)] word_less_nat_alt\<close>)

lemma handle_transfer_ok:
  assumes "token_env C A V K"
  shows "gives (handle_transfer C A self a b n g) s
    (\<lambda>_ s'. tk_transfer C self g a b n (tok C V self K s) = Some (tok C V self K s'))
    (adapter_total A \<longrightarrow> tk_transfer C self g a b n (tok C V self K s) = None)"
  unfolding handle_transfer_def check_defs
  by (intro gives_rules gives_transfer_balance [OF assms, where self = self])
    (auto simp: tk_transfer_def event_defs tok_log [OF assms])

lemma handle_approve_ok:
  assumes "token_env C A V K" "AllowanceCell a b \<in> K"
  shows "gives (handle_approve C A self a b n) s
    (\<lambda>_ s'. tk_approve self a b n (tok C V self K s) = Some (tok C V self K s'))
    (adapter_total A \<longrightarrow> tk_approve self a b n (tok C V self K s) = None)"
  unfolding handle_approve_def check_defs set_allowance_def slots_of_cells
  by (intro gives_rules cell_rules [OF assms, where self = self])
    (auto simp: tk_approve_def event_defs tok_log [OF assms(1)] tok_touch [OF assms(1)])

lemma unlimited_iff: "w = - 1 \<longleftrightarrow> unat (w :: u256) = 2 ^ 256 - 1"
  by (simp add: word_unat_eq_iff unsigned_minus_1_eq_mask mask_eq_exp_minus_1)

lemma gives_decrease_allowance:
  assumes "token_env C A V K" "AllowanceCell a b \<in> K" "\<not> adapter_total A \<Longrightarrow> E"
    "unat w = tk_cell (tok C V self K s) (AllowanceCell a b)"
    "\<And>s'. tk_spend a b (unat n) (tok C V self K s) = Some (tok C V self K s') \<Longrightarrow> Q () s'"
    "tk_spend a b (unat n) (tok C V self K s) = None \<Longrightarrow> E"
  shows "gives (decrease_allowance C A self a b w n (w = - 1) m) s Q E"
  unfolding decrease_allowance_def set_allowance_def slots_of_cells
  by (intro gives_rules cell_rules [OF assms(1-3), where self = self] assms(5,6))
    (use assms(4) in \<open>auto simp: tk_spend_def Let_def tok_touch [OF assms(1)] unlimited_iff\<close>)

lemma gives_burn_balance:
  assumes "token_env C A V K" "SupplyCell \<in> K" "\<not> adapter_total A \<Longrightarrow> E"
    "\<And>s'. tk_destroy C g a (unat n) (tok C V self K s) = Some (tok C V self K s') \<Longrightarrow> Q () s'"
    "tk_destroy C g a (unat n) (tok C V self K s) = None \<Longrightarrow> E"
  shows "gives (burn_balance C A self a n g) s Q E"
  unfolding burn_balance_def get_total_supply_def set_total_supply_def slots_of_cells check_defs
  by (intro gives_rules tok_rules [OF assms(1,3), where self = self]
      cell_rules [OF assms(1-3), where self = self] assms(4,5))
    (auto simp: tk_destroy_def tk_debit_def tk_set_def tok_touch [OF assms(1)] tk_codeless_def
      word_less_nat_alt)

lemma gives_allowance:
  assumes "token_env C A V K" "AllowanceCell a b \<in> K" "\<not> adapter_total A \<Longrightarrow> E"
    "\<And>x s'. tok C V self K s' = tok C V self K s \<Longrightarrow>
      unat x = tk_cell (tok C V self K s) (AllowanceCell a b) \<Longrightarrow> Q x s'"
  shows "gives (get_allowance C A self a b) s Q E"
  unfolding get_allowance_def slots_of_cells by (intro gives_sload [OF assms(1-3)] assms(4))

lemma handle_mint_ok:
  assumes "token_env C A V K" "SupplyCell \<in> K"
  shows "gives (handle_mint C A self caller a n) s
    (\<lambda>_ s'. tk_mint self caller a n (tok C V self K s) = Some (tok C V self K s'))
    (adapter_total A \<longrightarrow> tk_mint self caller a n (tok C V self K s) = None)"
  unfolding handle_mint_def check_defs get_total_supply_def set_total_supply_def slots_of_cells
  by (intro gives_rules tok_rules [OF assms(1), where self = self]
      cell_rules [OF assms, where self = self])
    (auto simp: tk_mint_def tk_credit_def tk_set_def Let_def event_defs tok_log [OF assms(1)]
      tok_touch [OF assms(1)])

lemma minting_module_nonzero: "MINTING_MODULE_ADDRESS \<noteq> 0"
  by (simp add: MINTING_MODULE_ADDRESS_def)

lemma handle_burn_ok:
  assumes "token_env C A V K" "SupplyCell \<in> K"
  shows "gives (handle_burn C A self caller n g) s
    (\<lambda>_ s'. tk_burn C self g caller n (tok C V self K s) = Some (tok C V self K s'))
    (adapter_total A \<longrightarrow> tk_burn C self g caller n (tok C V self K s) = None)"
  unfolding handle_burn_def check_whitelist_def
  by (intro gives_rules gives_burn_balance [OF assms, where self = self])
    (use minting_module_nonzero in \<open>auto simp: tk_burn_def event_defs tok_log [OF assms(1)]\<close>)

lemma tk_move_cell: "tk_move C g a b n t = Some t' \<Longrightarrow> tk_cell t' = tk_cell t"
  by (auto simp: tk_move_def tk_debit_def tk_credit_def bind_eq_Some_conv split: if_splits)

lemma tk_destroy_allowance:
  "tk_destroy C g a n t = Some t' \<Longrightarrow> tk_cell t' (AllowanceCell b c) = tk_cell t (AllowanceCell b c)"
  by (auto simp: tk_destroy_def tk_debit_def tk_set_def split: if_splits)

text \<open>The allowance is spent after the balances change; the two do not meet.\<close>

definition left_after :: "nat \<Rightarrow> nat \<Rightarrow> nat option" where
  "left_after w n = (if w = 2 ^ 256 - 1 then Some w else if w < n then None else Some (w - n))"

lemma tk_set_same: "tk_set k (tk_cell t k) t = t"
  by (simp add: tk_set_def)

lemma tk_spend_left:
  "tk_spend a b n t = map_option (\<lambda>w. tk_set (AllowanceCell a b) w t)
    (left_after (tk_cell t (AllowanceCell a b)) n)"
  using tk_set_same [of "AllowanceCell a b" t] by (auto simp: tk_spend_def left_after_def Let_def)

lemma tk_debit_set: "tk_debit C g a n (tk_set k w t) = map_option (tk_set k w) (tk_debit C g a n t)"
  by (simp add: tk_debit_def tk_set_def tk_codeless_def)

lemma tk_credit_set: "tk_credit a n (tk_set k w t) = map_option (tk_set k w) (tk_credit a n t)"
  by (simp add: tk_credit_def tk_set_def)

lemma tk_move_set: "tk_move C g a b n (tk_set k w t) = map_option (tk_set k w) (tk_move C g a b n t)"
  by (cases "tk_debit C g a n t") (simp_all add: tk_move_def tk_debit_set tk_credit_set)

lemma tk_set_twist: "k \<noteq> k' \<Longrightarrow> tk_set k w (tk_set k' w' t) = tk_set k' w' (tk_set k w t)"
  by (simp add: tk_set_def fun_upd_twist)

lemma tk_cell_set: "tk_cell (tk_set k w t) k' = (if k' = k then w else tk_cell t k')"
  by (simp add: tk_set_def)

lemma tk_destroy_set:
  "k \<noteq> SupplyCell \<Longrightarrow>
    tk_destroy C g a n (tk_set k w t) = map_option (tk_set k w) (tk_destroy C g a n t)"
  by (simp add: tk_destroy_def tk_cell_set tk_set_twist [of SupplyCell k] tk_debit_set)

lemma tk_spend_move:
  "tk_move C g a b n t = Some t1 \<Longrightarrow> tk_spend c d m t1 = Some t2 \<Longrightarrow>
    Option.bind (tk_spend c d m t) (tk_move C g a b n) = Some t2"
  using tk_move_cell [of C g a b n t t1] by (auto simp: tk_spend_left tk_move_set)

lemma tk_spend_destroy:
  "tk_destroy C g a n t = Some t1 \<Longrightarrow> tk_spend c d m t1 = Some t2 \<Longrightarrow>
    Option.bind (tk_spend c d m t) (tk_destroy C g a n) = Some t2"
  using tk_destroy_allowance [of C g a n t t1 c d] by (auto simp: tk_spend_left tk_destroy_set)

lemma tk_spend_check:
  "tk_spend a b n t = None \<longleftrightarrow>
    tk_cell t (AllowanceCell a b) \<noteq> 2 ^ 256 - 1 \<and> tk_cell t (AllowanceCell a b) < n"
  by (auto simp: tk_spend_def Let_def)

lemma tk_spend_first:
  "tk_move C g a b n t = Some t1 \<Longrightarrow> tk_spend c d m t1 = None \<Longrightarrow> tk_spend c d m t = None"
  "tk_destroy C g a n t = Some t1 \<Longrightarrow> tk_spend c d m t1 = None \<Longrightarrow> tk_spend c d m t = None"
  by (drule tk_move_cell, simp add: tk_spend_check)
    (drule tk_destroy_allowance [of _ _ _ _ _ _ c d], simp add: tk_spend_check)

lemma tk_spend_then_None:
  "tk_move C g a b n t = None \<Longrightarrow> Option.bind (tk_spend c d m t) (tk_move C g a b n) = None"
  "tk_destroy C g a n t = None \<Longrightarrow> Option.bind (tk_spend c d m t) (tk_destroy C g a n) = None"
  by (cases "tk_spend c d m t"; auto simp: tk_spend_left tk_move_set tk_destroy_set)+

lemmas tk_spend_rules = tk_spend_move tk_spend_destroy tk_spend_first tk_spend_then_None
  tk_spend_check [THEN iffD2, OF conjI]

lemma handle_transfer_from_ok:
  assumes "token_env C A V K" "AllowanceCell a caller \<in> K"
  shows "gives (handle_transfer_from C A self caller a b n g) s
    (\<lambda>_ s'. tk_transfer_from C self g caller a b n (tok C V self K s) = Some (tok C V self K s'))
    (adapter_total A \<longrightarrow> tk_transfer_from C self g caller a b n (tok C V self K s) = None)"
  unfolding handle_transfer_from_def check_defs Let_def
  by (intro gives_rules gives_allowance [OF assms, where self = self]
      gives_decrease_allowance [OF assms, where self = self]
      gives_transfer_balance [OF assms(1), where self = self])
    (auto simp: tk_transfer_from_def event_defs tok_log [OF assms(1)] tk_spend_rules unlimited_iff
      word_less_nat_alt dest: tk_move_cell)

lemma handle_burn_from_ok:
  assumes "token_env C A V K" "SupplyCell \<in> K" "AllowanceCell a caller \<in> K"
  shows "gives (handle_burn_from C A self caller a n g) s
    (\<lambda>_ s'. tk_burn_from C self g caller a n (tok C V self K s) = Some (tok C V self K s'))
    (adapter_total A \<longrightarrow> tk_burn_from C self g caller a n (tok C V self K s) = None)"
  unfolding handle_burn_from_def check_whitelist_def check_allowance_def Let_def
  by (intro gives_rules gives_allowance [OF assms(1,3), where self = self]
      gives_decrease_allowance [OF assms(1,3), where self = self]
      gives_burn_balance [OF assms(1,2), where self = self])
    (auto simp: tk_burn_from_def event_defs tok_log [OF assms(1)] tk_spend_rules
      tk_destroy_allowance unlimited_iff word_less_nat_alt)

lemma gives_nonce_used:
  assumes "token_env C A V K" "NonceCell a n \<in> K" "\<not> adapter_total A \<Longrightarrow> E"
    "\<And>u s'. tok C V self K s' = tok C V self K s \<Longrightarrow>
      u \<longleftrightarrow> tk_cell (tok C V self K s) (NonceCell a n) \<noteq> 0 \<Longrightarrow> Q u s'"
  shows "gives (is_authorization_nonce_used C A self a n) s Q E"
  unfolding is_authorization_nonce_used_def slots_of_cells
  by (intro gives_rules gives_sload [OF assms(1-3), where self = self] assms(4))
    (auto simp: unat_eq_zero [symmetric])

lemma gives_mark_nonce:
  assumes "token_env C A V K" "NonceCell a n \<in> K" "\<not> adapter_total A \<Longrightarrow> E"
    "\<And>s'. tok C V self K s' = tk_set (NonceCell a n) 1 (tok C V self K s) \<Longrightarrow> Q () s'"
  shows "gives (mark_nonce_used C A self a n) s Q E"
  unfolding mark_nonce_used_def slots_of_cells
  by (intro gives_rules gives_sstore [OF assms(1-3), where self = self] assms(4))
    (simp_all add: tok_touch [OF assms(1)])

lemma gives_time:
  "token_env C A V K \<Longrightarrow> (\<And>now. unat now = tk_time (tok C V self K s) \<Longrightarrow> Q now s) \<Longrightarrow>
    gives (\<lambda>st. (st, Inr (get_block_timestamp A st))) s Q E"
  using adapter_okD(7) [of A V s] by (simp add: gives_def token_env_def tok_def token_of_def)

lemma gives_transfer:
  assumes "token_env C A V K" "\<not> adapter_total A \<Longrightarrow> E"
    "\<And>out s'. tk_transfer C self g a b n (tok C V self K s) = Some (tok C V self K s') \<Longrightarrow> Q out s'"
    "tk_transfer C self g a b n (tok C V self K s) = None \<Longrightarrow> E"
  shows "gives (handle_transfer C A self a b n g) s Q E"
  by (rule gives_weaken [OF handle_transfer_ok [OF assms(1)]]) (use assms(2-4) in blast)+

lemmas auth_rules = gives_time gives_transfer

lemma handle_transfer_with_authorization_ok:
  assumes "token_env C A V K" "NonceCell a nonce \<in> K"
  shows "gives (handle_transfer_with_authorization C A self a b n after before nonce v r sg g) s
    (\<lambda>_ s'. tk_authorized C self g a b n after before nonce v r sg (tok C V self K s) =
      Some (tok C V self K s'))
    (adapter_total A \<longrightarrow>
      tk_authorized C self g a b n after before nonce v r sg (tok C V self K s) = None)"
  unfolding handle_transfer_with_authorization_def
  by (intro gives_rules auth_rules [OF assms(1), where self = self]
      gives_nonce_used [OF assms, where self = self] gives_mark_nonce [OF assms, where self = self])
    (auto simp: tk_authorized_def tk_use_nonce_def event_defs tok_log [OF assms(1)]
      word_le_nat_alt word_less_nat_alt)

lemma handle_receive_with_authorization_ok:
  assumes "token_env C A V K" "NonceCell a nonce \<in> K"
  shows "gives (handle_receive_with_authorization C A self caller a b n after before nonce v r sg g) s
    (\<lambda>_ s'. caller = b \<and> tk_authorized C self g a b n after before nonce v r sg (tok C V self K s) =
      Some (tok C V self K s'))
    (adapter_total A \<longrightarrow> caller \<noteq> b \<or>
      tk_authorized C self g a b n after before nonce v r sg (tok C V self K s) = None)"
  unfolding handle_receive_with_authorization_def
  by (intro gives_rules auth_rules [OF assms(1), where self = self]
      gives_nonce_used [OF assms, where self = self] gives_mark_nonce [OF assms, where self = self])
    (auto simp: tk_authorized_def tk_use_nonce_def event_defs tok_log [OF assms(1)]
      word_le_nat_alt word_less_nat_alt)

lemma handle_cancel_authorization_ok:
  assumes "token_env C A V K" "NonceCell a nonce \<in> K"
  shows "gives (handle_cancel_authorization C A self a nonce v r sg) s
    (\<lambda>_ s'. tk_cancel C self a nonce v r sg (tok C V self K s) = Some (tok C V self K s'))
    (adapter_total A \<longrightarrow> tk_cancel C self a nonce v r sg (tok C V self K s) = None)"
  unfolding handle_cancel_authorization_def
  by (intro gives_rules gives_nonce_used [OF assms, where self = self]
      gives_mark_nonce [OF assms, where self = self])
    (auto simp: tk_cancel_def tk_use_nonce_def event_defs tok_log [OF assms(1)])

end
