(* ===== verification/Hardforks.thy ===== *)
theory Hardforks
  imports Axyl_Prelude
begin

text \<open>
  The hardfork schedule of \<open>crates/execution/evm/src/chainspec\<close>: the forks and their version bytes
  (\<open>fork.rs\<close>), the schedule of each network (\<open>schedule.rs\<close>), the sorted table that is searched by
  bisection and the queries on it (\<open>hardforks.rs\<close>). A schedule uses the conditions \<open>Block\<close> and
  \<open>Never\<close> of \<open>ForkCondition\<close> only, so the datatype has these two; block numbers are numbers.
\<close>

datatype rayls_hard_fork =
  Eip1559 | BatchDigestV2 | AdminTransfer | PrecompileGasFix | RlsStorage | Tokenomics | Uups
  | Erc20PrecompileBytecode | TransactionLoadBalancing | UsdrSupplyCorrection | EmptyOutputBlock
  | DynamicCommitteeSizing | HybridRewards | OutputSeqNormalization | SenderAffinityLoadBalancing
  | Eip161EmptyAccountGuard | EpochCloseSeedV2 | CertificateFetchEpochV2
  | Erc20PrecompileDirectCall

definition fork_variants :: "rayls_hard_fork list" where
  "fork_variants =
    [Eip1559, BatchDigestV2, AdminTransfer, PrecompileGasFix, RlsStorage, Tokenomics, Uups,
     Erc20PrecompileBytecode, TransactionLoadBalancing, UsdrSupplyCorrection, EmptyOutputBlock,
     DynamicCommitteeSizing, HybridRewards, OutputSeqNormalization, SenderAffinityLoadBalancing,
     Eip161EmptyAccountGuard, EpochCloseSeedV2, CertificateFetchEpochV2,
     Erc20PrecompileDirectCall]"

fun version_byte :: "rayls_hard_fork \<Rightarrow> nat" where
  "version_byte Eip1559 = 1"
| "version_byte BatchDigestV2 = 2"
| "version_byte AdminTransfer = 3"
| "version_byte PrecompileGasFix = 4"
| "version_byte RlsStorage = 5"
| "version_byte Tokenomics = 6"
| "version_byte Uups = 7"
| "version_byte Erc20PrecompileBytecode = 8"
| "version_byte TransactionLoadBalancing = 9"
| "version_byte UsdrSupplyCorrection = 10"
| "version_byte EmptyOutputBlock = 11"
| "version_byte DynamicCommitteeSizing = 12"
| "version_byte HybridRewards = 13"
| "version_byte OutputSeqNormalization = 14"
| "version_byte SenderAffinityLoadBalancing = 15"
| "version_byte Eip161EmptyAccountGuard = 16"
| "version_byte EpochCloseSeedV2 = 17"
| "version_byte CertificateFetchEpochV2 = 18"
| "version_byte Erc20PrecompileDirectCall = 19"

text \<open>
  The derived order of the enum is the order of declaration, which is the order of the version
  bytes; the instance gives the forks the library's sorting.
\<close>

lemma variants_versions: "map version_byte fork_variants = [1..<20]"
  by (simp add: fork_variants_def upt_rec del: upt_Suc)

lemma set_variants [simp]: "set fork_variants = UNIV"
proof -
  have "f \<in> set fork_variants" for f by (cases f) (simp_all add: fork_variants_def)
  then show ?thesis by blast
qed

lemma distinct_variants [simp]: "distinct fork_variants"
proof -
  have "distinct (map version_byte fork_variants)" by (simp add: variants_versions)
  then show ?thesis by (simp only: distinct_map)
qed

lemma version_byte_inj: "inj version_byte"
proof -
  have "distinct (map version_byte fork_variants)" by (simp add: variants_versions)
  then show ?thesis by (simp only: distinct_map set_variants)
qed

instantiation rayls_hard_fork :: linorder
begin
definition less_eq_rayls_hard_fork :: "rayls_hard_fork \<Rightarrow> rayls_hard_fork \<Rightarrow> bool" where
  "less_eq_rayls_hard_fork f g \<longleftrightarrow> version_byte f \<le> version_byte g"
definition less_rayls_hard_fork :: "rayls_hard_fork \<Rightarrow> rayls_hard_fork \<Rightarrow> bool" where
  "less_rayls_hard_fork f g \<longleftrightarrow> version_byte f < version_byte g"
instance
  by standard (auto simp: less_eq_rayls_hard_fork_def less_rayls_hard_fork_def
    dest: injD [OF version_byte_inj])
end

datatype fork_condition = Block nat | Never

record scheduled_fork =
  sf_fork :: rayls_hard_fork
  sf_condition :: fork_condition

fun active_at_block :: "fork_condition \<Rightarrow> nat \<Rightarrow> bool" where
  "active_at_block (Block b) n \<longleftrightarrow> b \<le> n"
| "active_at_block Never n \<longleftrightarrow> False"

definition sfork :: "rayls_hard_fork \<Rightarrow> fork_condition \<Rightarrow> scheduled_fork" where
  "sfork f c = \<lparr>sf_fork = f, sf_condition = c\<rparr>"

section \<open>The schedules of the networks\<close>

datatype rayls_network = Devnet | Testnet | Mainnet | Local

definition devnet :: "scheduled_fork list" where
  "devnet =
    [sfork Eip1559 (Block 0),
     sfork BatchDigestV2 (Block 0),
     sfork AdminTransfer (Block 0),
     sfork PrecompileGasFix (Block 0),
     sfork RlsStorage (Block 0),
     sfork Tokenomics (Block 0),
     sfork Uups (Block 0),
     sfork Erc20PrecompileBytecode (Block 1),
     sfork TransactionLoadBalancing (Block 0),
     sfork UsdrSupplyCorrection Never,
     sfork EmptyOutputBlock (Block 0),
     sfork DynamicCommitteeSizing (Block 0),
     sfork HybridRewards Never,
     sfork OutputSeqNormalization (Block 0),
     sfork SenderAffinityLoadBalancing (Block 0),
     sfork Eip161EmptyAccountGuard (Block 0),
     sfork EpochCloseSeedV2 Never,
     sfork CertificateFetchEpochV2 Never,
     sfork Erc20PrecompileDirectCall Never]"

definition testnet :: "scheduled_fork list" where
  "testnet =
    [sfork Eip1559 (Block 281800),
     sfork BatchDigestV2 (Block 560539),
     sfork AdminTransfer (Block 560539),
     sfork PrecompileGasFix (Block 900000),
     sfork RlsStorage (Block 900000),
     sfork Tokenomics (Block 1879000),
     sfork Uups (Block 2872000),
     sfork Erc20PrecompileBytecode Never,
     sfork TransactionLoadBalancing (Block 4386290),
     sfork UsdrSupplyCorrection Never,
     sfork EmptyOutputBlock (Block 6663630),
     sfork DynamicCommitteeSizing (Block 10934554),
     sfork HybridRewards Never,
     sfork OutputSeqNormalization (Block 17300000),
     sfork SenderAffinityLoadBalancing (Block 17300000),
     sfork Eip161EmptyAccountGuard (Block 22075500),
     sfork EpochCloseSeedV2 Never,
     sfork CertificateFetchEpochV2 Never,
     sfork Erc20PrecompileDirectCall Never]"

definition mainnet :: "scheduled_fork list" where
  "mainnet =
    [sfork Eip1559 (Block 0),
     sfork BatchDigestV2 (Block 0),
     sfork AdminTransfer Never,
     sfork PrecompileGasFix (Block 0),
     sfork RlsStorage Never,
     sfork Tokenomics Never,
     sfork Uups Never,
     sfork Erc20PrecompileBytecode (Block 893558),
     sfork TransactionLoadBalancing (Block 893558),
     sfork UsdrSupplyCorrection (Block 3569194),
     sfork EmptyOutputBlock (Block 3569194),
     sfork DynamicCommitteeSizing (Block 8291010),
     sfork HybridRewards Never,
     sfork OutputSeqNormalization (Block 12231705),
     sfork SenderAffinityLoadBalancing (Block 12231705),
     sfork Eip161EmptyAccountGuard (Block 13832605),
     sfork EpochCloseSeedV2 Never,
     sfork CertificateFetchEpochV2 Never,
     sfork Erc20PrecompileDirectCall Never]"

definition local_net :: "scheduled_fork list" where
  "local_net =
    [sfork Eip1559 (Block 0),
     sfork BatchDigestV2 (Block 0),
     sfork AdminTransfer (Block 0),
     sfork PrecompileGasFix (Block 0),
     sfork RlsStorage (Block 0),
     sfork Tokenomics (Block 0),
     sfork Uups (Block 0),
     sfork Erc20PrecompileBytecode (Block 1),
     sfork TransactionLoadBalancing (Block 0),
     sfork UsdrSupplyCorrection Never,
     sfork EmptyOutputBlock (Block 0),
     sfork DynamicCommitteeSizing (Block 0),
     sfork HybridRewards (Block 1),
     sfork OutputSeqNormalization (Block 0),
     sfork SenderAffinityLoadBalancing (Block 0),
     sfork Eip161EmptyAccountGuard (Block 0),
     sfork EpochCloseSeedV2 (Block 0),
     sfork CertificateFetchEpochV2 (Block 0),
     sfork Erc20PrecompileDirectCall (Block 0)]"

fun for_network :: "rayls_network \<Rightarrow> scheduled_fork list" where
  "for_network Devnet = devnet"
| "for_network Testnet = testnet"
| "for_network Mainnet = mainnet"
| "for_network Local = local_net"

section \<open>The sorted table and its search\<close>

text \<open>
  \<open>RaylsChainHardforks::new\<close> sorts the entries by fork; the condition never decides, since no
  schedule lists a fork twice. The lookup is the bisection of the standard library, which halves a
  window \<open>base ..< base + size\<close> until one entry is left and compares that one.
\<close>

definition chain_hardforks_new :: "scheduled_fork list \<Rightarrow> scheduled_fork list" where
  "chain_hardforks_new = sort_key sf_fork"

function bisect :: "scheduled_fork list \<Rightarrow> rayls_hard_fork \<Rightarrow> nat \<Rightarrow> nat \<Rightarrow> nat" where
  "bisect forks f base sz =
    (if 1 < sz
     then let half = sz div 2; mid = base + half
          in bisect forks f (if sf_fork (forks ! mid) > f then base else mid) (sz - half)
     else base)"
  by pat_completeness auto
termination by (relation "measure (\<lambda>(_, _, _, sz). sz)") auto

declare bisect.simps [simp del]

definition binary_search_by :: "scheduled_fork list \<Rightarrow> rayls_hard_fork \<Rightarrow> nat option" where
  "binary_search_by forks f =
    (if forks = [] then None
     else let base = bisect forks f 0 (length forks)
          in if sf_fork (forks ! base) = f then Some base else None)"

definition rayls_fork_activation :: "scheduled_fork list \<Rightarrow> rayls_hard_fork \<Rightarrow> fork_condition"
  where
  "rayls_fork_activation forks f =
    (case binary_search_by forks f of
       Some i \<Rightarrow> sf_condition (forks ! i)
     | None \<Rightarrow> Never)"

section \<open>Queries on a schedule\<close>

text \<open>
  The trait \<open>RaylsHardforks\<close> has one required method, the activation condition of a fork; every
  query is a function of it, here the parameter \<open>activation\<close>.
\<close>

definition is_rayls_fork_active_at_block ::
  "(rayls_hard_fork \<Rightarrow> fork_condition) \<Rightarrow> rayls_hard_fork \<Rightarrow> nat \<Rightarrow> bool" where
  "is_rayls_fork_active_at_block activation f n = active_at_block (activation f) n"

definition is_precompile_gas_fix_active_at_block ::
  "(rayls_hard_fork \<Rightarrow> fork_condition) \<Rightarrow> nat \<Rightarrow> bool" where
  "is_precompile_gas_fix_active_at_block activation n =
    is_rayls_fork_active_at_block activation PrecompileGasFix n"

definition is_eip161_empty_account_guard_active_at_block ::
  "(rayls_hard_fork \<Rightarrow> fork_condition) \<Rightarrow> nat \<Rightarrow> bool" where
  "is_eip161_empty_account_guard_active_at_block activation n =
    is_rayls_fork_active_at_block activation Eip161EmptyAccountGuard n"

definition is_erc20_precompile_direct_call_active_at_block ::
  "(rayls_hard_fork \<Rightarrow> fork_condition) \<Rightarrow> nat \<Rightarrow> bool" where
  "is_erc20_precompile_direct_call_active_at_block activation n =
    is_rayls_fork_active_at_block activation Erc20PrecompileDirectCall n"

definition rayls_fork_activation_block ::
  "(rayls_hard_fork \<Rightarrow> fork_condition) \<Rightarrow> rayls_hard_fork \<Rightarrow> nat option" where
  "rayls_fork_activation_block activation f =
    (case activation f of Block b \<Rightarrow> Some b | Never \<Rightarrow> None)"

definition version_byte_at_block ::
  "(rayls_hard_fork \<Rightarrow> fork_condition) \<Rightarrow> nat \<Rightarrow> nat option" where
  "version_byte_at_block activation n =
    (case map version_byte (filter (\<lambda>f. active_at_block (activation f) n) fork_variants) of
       [] \<Rightarrow> None
     | v # vs \<Rightarrow> Some (fold max vs v))"

definition newly_activated_forks ::
  "(rayls_hard_fork \<Rightarrow> fork_condition) \<Rightarrow> nat \<Rightarrow> nat \<Rightarrow> rayls_hard_fork list" where
  "newly_activated_forks activation prev_block n =
    filter (\<lambda>f. \<not> active_at_block (activation f) prev_block \<and> active_at_block (activation f) n)
      fork_variants"

section \<open>Lemmas\<close>

lemma active_mono: "active_at_block c m \<Longrightarrow> m \<le> n \<Longrightarrow> active_at_block c n"
  by (cases c) auto

lemma newly_activated_iff:
  "f \<in> set (newly_activated_forks act m n) \<longleftrightarrow>
    \<not> active_at_block (act f) m \<and> active_at_block (act f) n"
  by (simp add: newly_activated_forks_def)

lemma distinct_newly_activated: "distinct (newly_activated_forks act m n)"
  by (simp add: newly_activated_forks_def)

text \<open>
  The bisection keeps the index it looks for inside the window; it needs only that the forks of
  the table strictly increase.
\<close>

lemma bisect_finds:
  assumes "sorted_wrt (<) (map sf_fork forks)" "base \<le> p" "p < base + sz"
    "base + sz \<le> length forks"
  shows "bisect forks (sf_fork (forks ! p)) base sz = p"
  using assms
proof (induction forks "sf_fork (forks ! p)" base sz rule: bisect.induct)
  case (1 forks base sz)
  show ?case
  proof (cases "1 < sz")
    case False
    then have "bisect forks (sf_fork (forks ! p)) base sz = base" by (subst bisect.simps) simp
    then show ?thesis using False 1(3,4) by simp
  next
    case True
    define half where "half = sz div 2"
    define mid where "mid = base + half"
    have mid: "mid < length forks" "base < mid" "mid < base + sz"
      using True 1(5) by (auto simp: mid_def half_def)
    have above: "sf_fork (forks ! p) < sf_fork (forks ! mid) \<longleftrightarrow> p < mid"
      using sorted_wrt_nth_less [OF 1(2), of p mid] sorted_wrt_nth_less [OF 1(2), of mid p] mid 1(4,5)
      by (cases p mid rule: linorder_cases) auto
    have step: "bisect forks (sf_fork (forks ! p)) base sz =
      bisect forks (sf_fork (forks ! p)) (if p < mid then base else mid) (sz - half)"
      by (subst bisect.simps) (use True above in \<open>simp add: Let_def half_def mid_def\<close>)
    have "bisect forks (sf_fork (forks ! p)) (if p < mid then base else mid) (sz - half) = p"
      using 1(1) [OF True half_def mid_def] 1(2-5) True mid above
      by (auto simp: mid_def half_def split: if_splits)
    with step show ?thesis by simp
  qed
qed

text \<open>
  What the table answers: the entry of the schedule it was built from, whatever order that had.
\<close>

definition schedule_map :: "scheduled_fork list \<Rightarrow> rayls_hard_fork \<Rightarrow> fork_condition option" where
  "schedule_map sched = map_of (map (\<lambda>e. (sf_fork e, sf_condition e)) sched)"

lemma schedule_map_Some:
  "distinct (map sf_fork sched) \<Longrightarrow> e \<in> set sched \<Longrightarrow>
    schedule_map sched (sf_fork e) = Some (sf_condition e)"
  by (auto simp: schedule_map_def comp_def intro!: map_of_is_SomeI)

lemma schedule_map_None: "f \<notin> sf_fork ` set sched \<Longrightarrow> schedule_map sched f = None"
  by (force simp: schedule_map_def map_of_eq_None_iff)

lemma binary_search_Some:
  assumes "sorted_wrt (<) (map sf_fork forks)" "p < length forks"
  shows "binary_search_by forks (sf_fork (forks ! p)) = Some p"
  using bisect_finds [OF assms(1), of 0 p "length forks"] assms(2)
  by (auto simp: binary_search_by_def Let_def)

lemma bisect_bound: "0 < sz \<Longrightarrow> bisect forks f base sz < base + sz"
proof (induction forks f base sz rule: bisect.induct)
  case (1 forks f base sz)
  show ?case
  proof (cases "1 < sz")
    case True
    then have "bisect forks f (if sf_fork (forks ! (base + sz div 2)) > f then base else base + sz div 2)
        (sz - sz div 2) < (if sf_fork (forks ! (base + sz div 2)) > f then base else base + sz div 2) +
        (sz - sz div 2)"
      using 1(1) [OF True refl refl] by simp
    then show ?thesis using True by (subst bisect.simps) (auto simp: Let_def split: if_splits)
  qed (use 1(2) in \<open>subst bisect.simps, simp\<close>)
qed

lemma binary_search_None:
  assumes "f \<notin> sf_fork ` set forks"
  shows "binary_search_by forks f = None"
proof (cases "forks = []")
  case False
  then have "forks ! bisect forks f 0 (length forks) \<in> set forks"
    using bisect_bound [of "length forks" forks f 0] by simp
  then have "sf_fork (forks ! bisect forks f 0 (length forks)) \<noteq> f" using assms by (metis imageI)
  then show ?thesis by (simp add: binary_search_by_def Let_def)
qed (simp add: binary_search_by_def)

lemma chain_hardforks_sorted:
  assumes "distinct (map sf_fork sched)"
  shows "sorted_wrt (<) (map sf_fork (chain_hardforks_new sched))"
proof -
  have "distinct (map sf_fork (chain_hardforks_new sched))"
    using assms by (simp add: chain_hardforks_new_def distinct_map)
  then show ?thesis by (simp add: chain_hardforks_new_def strict_sorted_iff)
qed

lemma fork_activation_eq:
  assumes "distinct (map sf_fork sched)"
  shows "rayls_fork_activation (chain_hardforks_new sched) f =
    (case schedule_map sched f of Some c \<Rightarrow> c | None \<Rightarrow> Never)"
proof (cases "f \<in> sf_fork ` set sched")
  case True
  then obtain e where "e \<in> set (chain_hardforks_new sched)" "f = sf_fork e"
    by (auto simp: chain_hardforks_new_def)
  then obtain p where p: "p < length (chain_hardforks_new sched)"
      "chain_hardforks_new sched ! p = e" "f = sf_fork e"
    by (auto simp: in_set_conv_nth)
  have "e \<in> set sched" using p nth_mem [of p "chain_hardforks_new sched"]
    by (simp add: chain_hardforks_new_def)
  then show ?thesis
    using binary_search_Some [OF chain_hardforks_sorted [OF assms] p(1)] p(2,3)
      schedule_map_Some [OF assms]
    by (simp add: rayls_fork_activation_def)
next
  case False
  then have "binary_search_by (chain_hardforks_new sched) f = None"
    by (intro binary_search_None) (simp add: chain_hardforks_new_def)
  then show ?thesis using schedule_map_None [OF False] by (simp add: rayls_fork_activation_def)
qed

lemma network_variants: "map sf_fork (for_network n) = fork_variants"
  by (cases n) (simp_all add: devnet_def testnet_def mainnet_def local_net_def sfork_def
    fork_variants_def)

section \<open>Properties\<close>

text \<open>C35. The bisection over the sorted table ends and answers exactly the schedule entry of the
  fork, and \<open>Never\<close> for a fork the schedule does not list, whatever the order of the schedule, as
  long as no fork is listed twice; the schedule of each network lists every fork exactly once.
\<close>

theorem fork_lookup_exact:
  "distinct (map sf_fork sched) \<Longrightarrow>
    rayls_fork_activation (chain_hardforks_new sched) f =
      (case map_of (map (\<lambda>e. (sf_fork e, sf_condition e)) sched) f of Some c \<Rightarrow> c | None \<Rightarrow> Never)
    \<and> distinct (map sf_fork (for_network net)) \<and> set (map sf_fork (for_network net)) = UNIV"
  using fork_activation_eq [of sched f] network_variants [of net]
  by (simp add: schedule_map_def del: set_map)

theorem fork_lookup_exact_witness:
  "rayls_fork_activation (chain_hardforks_new mainnet) UsdrSupplyCorrection = Block 3569194
    \<and> rayls_fork_activation (chain_hardforks_new [sfork Uups (Block 7), sfork Eip1559 (Block 3)])
        Eip1559 = Block 3"
  using fork_lookup_exact [of mainnet UsdrSupplyCorrection Mainnet] network_variants [of Mainnet]
    fork_lookup_exact [of "[sfork Uups (Block 7), sfork Eip1559 (Block 3)]" Eip1559 Mainnet]
  by (simp add: mainnet_def sfork_def)

text \<open>C34. Along any chain whose block numbers do not decrease, numbers skipped included, a fork is
  reported as newly activated for at most one block, and it is reported for some block exactly when
  it was not active at the first block of the chain and is at the last one. The one-shot
  migrations, which run on that report, so run exactly once.
\<close>

theorem forks_activate_once:
  assumes "sorted (b # blocks)"
  shows "distinct (concat (map2 (newly_activated_forks act) (b # blocks) blocks))
    \<and> set (concat (map2 (newly_activated_forks act) (b # blocks) blocks)) =
        {f. \<not> is_rayls_fork_active_at_block act f b
          \<and> is_rayls_fork_active_at_block act f (List.last (b # blocks))}"
  using assms
proof (induction blocks arbitrary: b)
  case Nil
  then show ?case by (simp add: is_rayls_fork_active_at_block_def)
next
  case (Cons c blocks)
  have le: "b \<le> c" "c \<le> List.last (c # blocks)" using Cons.prems
    by (auto simp: sorted_last_ge)
  note IH = Cons.IH [of c]
  have "sorted (c # blocks)" using Cons.prems by simp
  then show ?case using IH le active_mono
    by (auto simp: newly_activated_iff distinct_newly_activated is_rayls_fork_active_at_block_def)
qed

theorem forks_activate_once_witness:
  "newly_activated_forks (rayls_fork_activation (chain_hardforks_new mainnet)) 893557 893558
      = [Erc20PrecompileBytecode, TransactionLoadBalancing]
    \<and> distinct (concat (map2 (newly_activated_forks (rayls_fork_activation
        (chain_hardforks_new mainnet))) [893557, 893558, 4000000] [893558, 4000000]))"
  using forks_activate_once [of 893557 "[893558, 4000000]"
    "rayls_fork_activation (chain_hardforks_new mainnet)"]
    fork_activation_eq [of mainnet] network_variants [of Mainnet]
  by (simp add: newly_activated_forks_def fork_variants_def schedule_map_def mainnet_def sfork_def)

end
