(* ===== verification/Erc20_Dispatch.thy ===== *)
theory Erc20_Dispatch
  imports Erc20_Token Hardforks
begin

text \<open>
  The two entries to the native ERC-20 precompile: the dynamic precompile that
  \<open>RaylsEvmFactory::erc20_dyn_precompile\<close> of \<open>crates/execution/evm/src/evm/factory.rs\<close> registers,
  and the inspector of \<open>native_erc20/inspector.rs\<close> that ran the handlers before the hardfork
  \<open>PrecompileGasFix\<close>. The decoders the \<open>sol!\<close> macro generates are the record \<open>abi\<close>, the text an
  error displays is the parameter \<open>display\<close>, and the hardfork schedule is the parameter
  \<open>activation\<close>.
\<close>

record abi =
  dec_balance_of :: "bytes \<Rightarrow> string + address"
  dec_allowance :: "bytes \<Rightarrow> string + address \<times> address"
  dec_transfer :: "bytes \<Rightarrow> string + address \<times> u256"
  dec_approve :: "bytes \<Rightarrow> string + address \<times> u256"
  dec_transfer_from :: "bytes \<Rightarrow> string + address \<times> address \<times> u256"
  dec_mint :: "bytes \<Rightarrow> string + address \<times> u256"
  dec_burn :: "bytes \<Rightarrow> string + u256"
  dec_burn_from :: "bytes \<Rightarrow> string + address \<times> u256"
  dec_transfer_auth :: "bytes \<Rightarrow>
    string + address \<times> address \<times> u256 \<times> u256 \<times> u256 \<times> b256 \<times> 8 word \<times> b256 \<times> b256"
  dec_receive_auth :: "bytes \<Rightarrow>
    string + address \<times> address \<times> u256 \<times> u256 \<times> u256 \<times> b256 \<times> 8 word \<times> b256 \<times> b256"
  dec_cancel_auth :: "bytes \<Rightarrow> string + address \<times> b256 \<times> 8 word \<times> b256 \<times> b256"

text \<open>A call with its decoded parameters.\<close>

datatype erc20_call =
  CName | CSymbol | CDecimals | CTotalSupply
| CBalanceOf address
| CAllowance address address
| CTransfer address u256
| CApprove address u256
| CTransferFrom address address u256
| CMint address u256
| CBurn u256
| CBurnFrom address u256
| CTransferAuth address address u256 u256 u256 b256 "8 word" u256 u256
| CReceiveAuth address address u256 u256 u256 b256 "8 word" u256 u256
| CCancelAuth address b256 "8 word" u256 u256

definition decode_map :: "('a \<Rightarrow> erc20_call) \<Rightarrow> string + 'a \<Rightarrow> string + erc20_call" where
  "decode_map f r = (case r of Inl e \<Rightarrow> Inl e | Inr x \<Rightarrow> Inr (f x))"

fun decode_input :: "abi \<Rightarrow> erc20_selector \<Rightarrow> bytes \<Rightarrow> string + erc20_call" where
  "decode_input D SelName data = Inr CName"
| "decode_input D SelSymbol data = Inr CSymbol"
| "decode_input D SelDecimals data = Inr CDecimals"
| "decode_input D SelTotalSupply data = Inr CTotalSupply"
| "decode_input D SelBalanceOf data = decode_map CBalanceOf (dec_balance_of D data)"
| "decode_input D SelAllowance data =
    decode_map (\<lambda>(owner, spender). CAllowance owner spender) (dec_allowance D data)"
| "decode_input D SelTransfer data =
    decode_map (\<lambda>(to, amount). CTransfer to amount) (dec_transfer D data)"
| "decode_input D SelApprove data =
    decode_map (\<lambda>(spender, amount). CApprove spender amount) (dec_approve D data)"
| "decode_input D SelTransferFrom data =
    decode_map (\<lambda>(from, to, amount). CTransferFrom from to amount) (dec_transfer_from D data)"
| "decode_input D SelMint data = decode_map (\<lambda>(to, amount). CMint to amount) (dec_mint D data)"
| "decode_input D SelBurn data = decode_map CBurn (dec_burn D data)"
| "decode_input D SelBurnFrom data =
    decode_map (\<lambda>(account, amount). CBurnFrom account amount) (dec_burn_from D data)"
| "decode_input D SelTransferWithAuthorization data =
    decode_map (\<lambda>(from, to, value, valid_after, valid_before, nonce, v, r, s).
      CTransferAuth from to value valid_after valid_before nonce v r s) (dec_transfer_auth D data)"
| "decode_input D SelReceiveWithAuthorization data =
    decode_map (\<lambda>(from, to, value, valid_after, valid_before, nonce, v, r, s).
      CReceiveAuth from to value valid_after valid_before nonce v r s) (dec_receive_auth D data)"
| "decode_input D SelCancelAuthorization data =
    decode_map (\<lambda>(authorizer, nonce, v, r, s). CCancelAuth authorizer nonce v r s)
      (dec_cancel_auth D data)"

fun run_handler ::
  "crypto \<Rightarrow> 's state_access \<Rightarrow> erc20_precompile \<Rightarrow> address \<Rightarrow> bool \<Rightarrow> erc20_call \<Rightarrow>
    ('s, precompile_output) act" where
  "run_handler C A self caller g CName = handle_name self"
| "run_handler C A self caller g CSymbol = handle_symbol self"
| "run_handler C A self caller g CDecimals = handle_decimals self"
| "run_handler C A self caller g CTotalSupply = handle_total_supply C A self"
| "run_handler C A self caller g (CBalanceOf account) = handle_balance_of A account"
| "run_handler C A self caller g (CAllowance owner spender) = handle_allowance C A self owner spender"
| "run_handler C A self caller g (CTransfer to amount) = handle_transfer C A self caller to amount g"
| "run_handler C A self caller g (CApprove spender amount) =
    handle_approve C A self caller spender amount"
| "run_handler C A self caller g (CTransferFrom from to amount) =
    handle_transfer_from C A self caller from to amount g"
| "run_handler C A self caller g (CMint to amount) = handle_mint C A self caller to amount"
| "run_handler C A self caller g (CBurn amount) = handle_burn C A self caller amount g"
| "run_handler C A self caller g (CBurnFrom account amount) =
    handle_burn_from C A self caller account amount g"
| "run_handler C A self caller g (CTransferAuth from to value valid_after valid_before nonce v r s) =
    handle_transfer_with_authorization C A self from to value valid_after valid_before nonce v r s g"
| "run_handler C A self caller g (CReceiveAuth from to value valid_after valid_before nonce v r s) =
    handle_receive_with_authorization C A self caller from to value valid_after valid_before nonce
      v r s g"
| "run_handler C A self caller g (CCancelAuth authorizer nonce v r s) =
    handle_cancel_authorization C A self authorizer nonce v r s"

section \<open>The dynamic precompile\<close>

record precompile_input =
  in_caller :: address
  in_value :: u256
  in_data :: bytes
  in_gas :: nat
  in_static :: bool
  in_direct :: bool
  in_block :: u256

datatype precompile_error = PrecompileOther string | OutOfGas

record precompile_result =
  res_gas :: nat
  res_bytes :: bytes
  res_reverted :: bool

definition BASE_ERROR_GAS :: nat where "BASE_ERROR_GAS = 2100"

definition saturating_to_u64 :: "u256 \<Rightarrow> nat" where
  "saturating_to_u64 w = min (unat w) (2 ^ 64 - 1)"

definition finish_call ::
  "(erc20_error \<Rightarrow> bytes) \<Rightarrow> nat \<Rightarrow> erc20_error + precompile_output \<Rightarrow>
    precompile_error + precompile_result" where
  "finish_call display gas result =
    (case result of
       Inr out \<Rightarrow> if gas < gas_used out then Inl OutOfGas
         else Inr \<lparr>res_gas = gas_used out, res_bytes = out_bytes out, res_reverted = False\<rparr>
     | Inl err \<Rightarrow> Inr \<lparr>res_gas = min BASE_ERROR_GAS gas,
         res_bytes = encode_revert_reason (display err), res_reverted = True\<rparr>)"

definition erc20_dyn_precompile ::
  "crypto \<Rightarrow> 's state_access \<Rightarrow> abi \<Rightarrow> (erc20_error \<Rightarrow> bytes) \<Rightarrow>
    (rayls_hard_fork \<Rightarrow> fork_condition) \<Rightarrow> erc20_precompile option \<Rightarrow> precompile_input \<Rightarrow> 's \<Rightarrow>
    's \<times> (precompile_error + precompile_result)" where
  "erc20_dyn_precompile C A D display activation inst inp s =
    (if \<not> in_direct inp \<and>
        is_erc20_precompile_direct_call_active_at_block activation (saturating_to_u64 (in_block inp))
     then (s, Inl (PrecompileOther
       ''ERC-20 precompile must be called directly, not via DELEGATECALL or CALLCODE''))
     else if in_value inp \<noteq> 0
     then (s, Inl (PrecompileOther ''ERC-20 precompile rejects native value transfer''))
     else case inst of
       None \<Rightarrow> (s, Inl (PrecompileOther ''ERC-20 precompile not initialized''))
     | Some self \<Rightarrow>
       (if length (in_data inp) < 4 then (s, Inl (PrecompileOther ''Invalid input: too short''))
        else case from_calldata C (in_data inp) of
          None \<Rightarrow> (s, Inl (PrecompileOther ''Unknown function selector''))
        | Some selector \<Rightarrow>
          (if in_static inp \<and> is_state_mutating selector
           then (s, Inl (PrecompileOther ''ERC-20 state mutation forbidden under static call''))
           else
             let g = is_eip161_empty_account_guard_active_at_block activation
               (saturating_to_u64 (in_block inp))
             in case decode_input D selector (in_data inp) of
                  Inl e \<Rightarrow> (s, Inl (PrecompileOther (''ABI decode failed: '' @ e)))
                | Inr call \<Rightarrow>
                    (case run_handler C A self (in_caller inp) g call s of (s', result) \<Rightarrow>
                       (s', finish_call display (in_gas inp) result)))))"

section \<open>The contract of a call\<close>

text \<open>What a decoded call of \<open>caller\<close> does to the token, and the cells of the storage it concerns.\<close>

fun token_call ::
  "crypto \<Rightarrow> erc20_precompile \<Rightarrow> bool \<Rightarrow> address \<Rightarrow> erc20_call \<Rightarrow> token \<Rightarrow> token option" where
  "token_call C self g caller (CTransfer to n) t = tk_transfer C self g caller to n t"
| "token_call C self g caller (CApprove spender n) t = tk_approve self caller spender n t"
| "token_call C self g caller (CTransferFrom from to n) t =
    tk_transfer_from C self g caller from to n t"
| "token_call C self g caller (CMint to n) t = tk_mint self caller to n t"
| "token_call C self g caller (CBurn n) t = tk_burn C self g caller n t"
| "token_call C self g caller (CBurnFrom account n) t = tk_burn_from C self g caller account n t"
| "token_call C self g caller (CTransferAuth from to n valid_after valid_before nonce v r s) t =
    tk_authorized C self g from to n valid_after valid_before nonce v r s t"
| "token_call C self g caller (CReceiveAuth from to n valid_after valid_before nonce v r s) t =
    (if caller = to then tk_authorized C self g from to n valid_after valid_before nonce v r s t
     else None)"
| "token_call C self g caller (CCancelAuth authorizer nonce v r s) t =
    tk_cancel C self authorizer nonce v r s t"
| "token_call C self g caller call t = Some t"

fun cells_of :: "address \<Rightarrow> erc20_call \<Rightarrow> cell set" where
  "cells_of caller CTotalSupply = {SupplyCell}"
| "cells_of caller (CAllowance owner spender) = {AllowanceCell owner spender}"
| "cells_of caller (CApprove spender n) = {AllowanceCell caller spender}"
| "cells_of caller (CTransferFrom from to n) = {AllowanceCell from caller}"
| "cells_of caller (CMint to n) = {SupplyCell}"
| "cells_of caller (CBurn n) = {SupplyCell}"
| "cells_of caller (CBurnFrom account n) = {SupplyCell, AllowanceCell account caller}"
| "cells_of caller (CTransferAuth from to n valid_after valid_before nonce v r s) =
    {NonceCell from nonce}"
| "cells_of caller (CReceiveAuth from to n valid_after valid_before nonce v r s) =
    {NonceCell from nonce}"
| "cells_of caller (CCancelAuth authorizer nonce v r s) = {NonceCell authorizer nonce}"
| "cells_of caller call = {}"

lemma handle_query_ok:
  assumes "token_env C A V K"
  shows "gives (handle_balance_of A a) s (\<lambda>_ s'. tok C V self K s' = tok C V self K s)
      (\<not> adapter_total A)"
    "SupplyCell \<in> K \<Longrightarrow> gives (handle_total_supply C A self) s
      (\<lambda>_ s'. tok C V self K s' = tok C V self K s) (\<not> adapter_total A)"
    "AllowanceCell a b \<in> K \<Longrightarrow> gives (handle_allowance C A self a b) s
      (\<lambda>_ s'. tok C V self K s' = tok C V self K s) (\<not> adapter_total A)"
  unfolding handle_balance_of_def handle_total_supply_def handle_allowance_def slots_of_cells
  by (intro gives_rules gives_balance [OF assms, where self = self]
      gives_sload [OF assms, where self = self] gives_allowance [OF assms, where self = self];
      simp)+

lemma run_handler_ok:
  assumes "token_env C A V K" "cells_of caller call \<subseteq> K"
  shows "gives (run_handler C A self caller g call) s
    (\<lambda>_ s'. token_call C self g caller call (tok C V self K s) = Some (tok C V self K s'))
    (adapter_total A \<longrightarrow> token_call C self g caller call (tok C V self K s) = None)"
proof (cases call)
  case (CBalanceOf a)
  then show ?thesis using gives_weaken [OF handle_query_ok(1) [OF assms(1), where self = self]] by simp
next
  case CTotalSupply
  then show ?thesis using gives_weaken [OF handle_query_ok(2) [OF assms(1), where self = self]] assms(2) by simp
next
  case (CAllowance a b)
  then show ?thesis using gives_weaken [OF handle_query_ok(3) [OF assms(1), where self = self]] assms(2)
    by simp
next
  case (CReceiveAuth a b n va vb nonce v r sg)
  then show ?thesis
    using gives_weaken [OF handle_receive_with_authorization_ok [OF assms(1), where self = self]]
      assms(2) by auto
qed (use assms(2) handle_transfer_ok [OF assms(1)] handle_approve_ok [OF assms(1)]
  handle_transfer_from_ok [OF assms(1)] handle_mint_ok [OF assms(1)] handle_burn_ok [OF assms(1)]
  handle_burn_from_ok [OF assms(1)] handle_transfer_with_authorization_ok [OF assms(1)]
  handle_cancel_authorization_ok [OF assms(1)] in
  \<open>simp_all add: handle_name_def handle_symbol_def handle_decimals_def gives_ret\<close>)

section \<open>Committed calls\<close>

text \<open>
  A call commits when the precompile answers without an error and without a revert; revm undoes the
  writes of any other call at the checkpoint of its frame.
\<close>

definition committed ::
  "crypto \<Rightarrow> 's state_access \<Rightarrow> abi \<Rightarrow> (erc20_error \<Rightarrow> bytes) \<Rightarrow>
    (rayls_hard_fork \<Rightarrow> fork_condition) \<Rightarrow> erc20_precompile \<Rightarrow> erc20_call \<Rightarrow> precompile_input \<Rightarrow> 's \<Rightarrow>
    's \<Rightarrow> bool" where
  "committed C A D display activation self call inp s s' \<longleftrightarrow>
    (\<exists>sel. from_calldata C (in_data inp) = Some sel \<and> decode_input D sel (in_data inp) = Inr call) \<and>
    (\<exists>res. erc20_dyn_precompile C A D display activation (Some self) inp s = (s', Inr res) \<and>
      \<not> res_reverted res)"

lemma finish_call_cases:
  "finish_call display gas result = Inr res \<Longrightarrow>
    res_gas res \<le> gas \<and> (case result of
      Inr out \<Rightarrow> \<not> res_reverted res \<and> res_bytes res = out_bytes out \<and> res_gas res = gas_used out
    | Inl err \<Rightarrow> res_reverted res)"
  by (auto simp: finish_call_def split: sum.splits if_splits)

lemma dyn_precompile_Inr:
  assumes "erc20_dyn_precompile C A D display act inst inp s = (s', Inr res)"
  obtains self sel call result where "inst = Some self" "in_value inp = 0"
    "from_calldata C (in_data inp) = Some sel" "decode_input D sel (in_data inp) = Inr call"
    "in_static inp \<longrightarrow> \<not> is_state_mutating sel"
    "run_handler C A self (in_caller inp) (is_eip161_empty_account_guard_active_at_block act
      (saturating_to_u64 (in_block inp))) call s = (s', result)"
    "finish_call display (in_gas inp) result = Inr res"
  using assms unfolding erc20_dyn_precompile_def Let_def
  by (auto split: if_splits option.splits sum.splits prod.splits)

lemma committed_run:
  assumes "committed C A D display act self call inp s s'"
  obtains out where "run_handler C A self (in_caller inp)
    (is_eip161_empty_account_guard_active_at_block act (saturating_to_u64 (in_block inp))) call s =
    (s', Inr out)"
proof -
  obtain sel res where sel: "from_calldata C (in_data inp) = Some sel"
      "decode_input D sel (in_data inp) = Inr call"
    and run: "erc20_dyn_precompile C A D display act (Some self) inp s = (s', Inr res)"
      "\<not> res_reverted res"
    using assms unfolding committed_def by blast
  from run(1) show ?thesis
  proof (rule dyn_precompile_Inr)
    fix self' sel' call' result
    assume "Some self = Some self'" "from_calldata C (in_data inp) = Some sel'"
      "decode_input D sel' (in_data inp) = Inr call'"
      "run_handler C A self' (in_caller inp) (is_eip161_empty_account_guard_active_at_block act
        (saturating_to_u64 (in_block inp))) call' s = (s', result)"
      "finish_call display (in_gas inp) result = Inr res"
    then show ?thesis using sel run(2) that finish_call_cases [of display "in_gas inp" result res]
      by (auto split: sum.splits)
  qed
qed

lemma committed_token:
  assumes "token_env C A V K" "cells_of (in_caller inp) call \<subseteq> K"
    "committed C A D display act self call inp s s'"
  shows "token_call C self (is_eip161_empty_account_guard_active_at_block act
      (saturating_to_u64 (in_block inp))) (in_caller inp) call (tok C V self K s) =
    Some (tok C V self K s')"
  using assms(3) by (rule committed_run) (rule givesD(1) [OF run_handler_ok [OF assms(1,2)]])

section \<open>The token under a call\<close>

definition tk_total :: "token \<Rightarrow> int" where
  "tk_total t = (\<Sum>a\<in>UNIV. int (tk_bal t a))"

lemma sum_update:
  "(\<Sum>a\<in>(UNIV :: address set). int ((f(b := y)) a)) = (\<Sum>a\<in>UNIV. int (f a)) - int (f b) + int y"
  by (simp add: sum.remove [of UNIV b] cong: sum.cong_simp)

lemma tk_total_simps [simp]:
  "tk_total (tk_set k w t) = tk_total t" "tk_total (tk_event self e t) = tk_total t"
  "tk_total (t\<lparr>tk_bal := (tk_bal t)(b := y)\<rparr>) = tk_total t - int (tk_bal t b) + int y"
  using sum_update [of "tk_bal t" b y] by (simp_all add: tk_total_def tk_set_def tk_event_def)

lemma tk_event_fields [simp]:
  "tk_bal (tk_event self e t) = tk_bal t" "tk_cell (tk_event self e t) = tk_cell t"
  "tk_ident (tk_event self e t) = tk_ident t" "tk_time (tk_event self e t) = tk_time t"
  by (simp_all add: tk_event_def)

lemma tk_set_fields [simp]:
  "tk_bal (tk_set k w t) = tk_bal t" "tk_cell (tk_set k w t) = (tk_cell t)(k := w)"
  "tk_ident (tk_set k w t) = tk_ident t" "tk_time (tk_set k w t) = tk_time t"
  by (simp_all add: tk_set_def)

lemma tk_debit_Some:
  "tk_debit C g a n t = Some t' \<Longrightarrow> n \<le> tk_bal t a \<and>
    t' = t\<lparr>tk_bal := (tk_bal t)(a := tk_bal t a - n)\<rparr> \<and>
    \<not> (g \<and> tk_bal t a = n \<and> tk_codeless C t a)"
  by (auto simp: tk_debit_def split: if_splits)

lemma tk_credit_Some:
  "tk_credit a n t = Some t' \<Longrightarrow> t' = t\<lparr>tk_bal := (tk_bal t)(a := tk_bal t a + n)\<rparr>"
  by (auto simp: tk_credit_def split: if_splits)

lemma tk_spend_Some:
  assumes "tk_spend a b n t = Some t'"
  shows "tk_bal t' = tk_bal t" "tk_ident t' = tk_ident t" "tk_total t' = tk_total t"
    "k \<noteq> AllowanceCell a b \<Longrightarrow> tk_cell t' k = tk_cell t k"
    "tk_cell t (AllowanceCell a b) = 2 ^ 256 - 1 \<or> n \<le> tk_cell t (AllowanceCell a b) \<and>
      tk_cell t' (AllowanceCell a b) = tk_cell t (AllowanceCell a b) - n"
  using assms by (auto simp: tk_spend_left left_after_def split: if_splits)

definition tk_gap :: "token \<Rightarrow> int" where
  "tk_gap t = tk_total t - int (tk_cell t SupplyCell)"

lemma tk_gap_event [simp]: "tk_gap (tk_event self e t) = tk_gap t"
  by (simp add: tk_gap_def)

lemma tk_gap_debit: "tk_debit C g a n t = Some t' \<Longrightarrow> tk_gap t' = tk_gap t - int n"
  using tk_debit_Some [of C g a n t t'] by (simp add: tk_gap_def)

lemma tk_gap_credit: "tk_credit a n t = Some t' \<Longrightarrow> tk_gap t' = tk_gap t + int n"
  using tk_credit_Some [of a n t t'] by (simp add: tk_gap_def)

lemma tk_gap_set [simp]:
  "tk_gap (tk_set k w t) =
    (if k = SupplyCell then tk_gap t + int (tk_cell t SupplyCell) - int w else tk_gap t)"
  by (simp add: tk_gap_def)

lemma tk_gap_move:
  assumes "tk_move C g a b n t = Some t'"
  shows "tk_gap t' = tk_gap t"
proof -
  from assms obtain t1 where "tk_debit C g a n t = Some t1" "tk_credit b n t1 = Some t'"
    by (auto simp: tk_move_def bind_eq_Some_conv)
  then show ?thesis by (auto dest!: tk_gap_debit tk_gap_credit)
qed

lemma tk_gap_transfer: "tk_transfer C self g a b n t = Some t' \<Longrightarrow> tk_gap t' = tk_gap t"
  by (auto simp: tk_transfer_def split: if_splits dest: tk_gap_move)

lemma tk_gap_spend: "tk_spend a b n t = Some t' \<Longrightarrow> tk_gap t' = tk_gap t"
  using tk_spend_Some(3) [of a b n t t'] tk_spend_Some(4) [of a b n t t' SupplyCell]
  by (simp add: tk_gap_def)

lemma tk_gap_destroy: "tk_destroy C g a n t = Some t' \<Longrightarrow> tk_gap t' = tk_gap t"
  by (auto simp: tk_destroy_def split: if_splits dest!: tk_gap_debit)

lemma tk_gap_mint: "tk_mint self caller a n t = Some t' \<Longrightarrow> tk_gap t' = tk_gap t"
  by (auto simp: tk_mint_def Let_def split: if_splits dest!: tk_gap_credit)

lemma tk_gap_use: "tk_use_nonce a nonce t = Some t' \<Longrightarrow> tk_gap t' = tk_gap t"
  by (auto simp: tk_use_nonce_def tk_gap_def split: if_splits)

lemma tk_gap_authorized:
  "tk_authorized C self g a b n va vb nonce v r s t = Some t' \<Longrightarrow> tk_gap t' = tk_gap t"
  by (auto simp: tk_authorized_def bind_eq_Some_conv split: if_splits
    dest!: tk_gap_use tk_gap_transfer)

lemma tk_gap_call: "token_call C self g caller call t = Some t' \<Longrightarrow> tk_gap t' = tk_gap t"
  by (cases call) (auto simp: tk_approve_def tk_transfer_from_def tk_burn_def tk_burn_from_def
    tk_cancel_def bind_eq_Some_conv split: if_splits dest!: tk_gap_transfer tk_gap_move
    tk_gap_spend tk_gap_destroy tk_gap_mint tk_gap_use tk_gap_authorized)

text \<open>Who may be debited, by how much, and what the call uses up for it.\<close>

definition tk_paid :: "address \<Rightarrow> nat \<Rightarrow> token \<Rightarrow> token \<Rightarrow> bool" where
  "tk_paid a n t t' \<longleftrightarrow> (\<forall>x. tk_bal t' x < tk_bal t x \<longrightarrow> x = a \<and> tk_bal t' x + n = tk_bal t x)"

lemma tk_paid_refl: "tk_bal t' = tk_bal t \<Longrightarrow> tk_paid a n t t'"
  by (simp add: tk_paid_def)

lemma tk_paid_debit: "tk_debit C g a n t = Some t' \<Longrightarrow> tk_paid a n t t'"
  using tk_debit_Some [of C g a n t t'] by (auto simp: tk_paid_def)

lemma tk_paid_move: "a \<noteq> b \<Longrightarrow> tk_move C g a b n t = Some t' \<Longrightarrow> tk_paid a n t t'"
  by (auto simp: tk_move_def bind_eq_Some_conv tk_paid_def dest!: tk_debit_Some tk_credit_Some
    split: if_splits)

lemma tk_paid_event [simp]: "tk_paid a n t (tk_event self e t') = tk_paid a n t t'"
  by (simp add: tk_paid_def)

lemma tk_paid_set [simp]: "tk_paid a n (tk_set k w t) t' = tk_paid a n t t'"
  by (simp add: tk_paid_def)

lemma tk_paid_transfer: "tk_transfer C self g a b n t = Some t' \<Longrightarrow> tk_paid a (unat n) t t'"
  by (auto simp: tk_transfer_def tk_paid_refl split: if_splits intro: tk_paid_move)

lemma tk_paid_destroy: "tk_destroy C g a n t = Some t' \<Longrightarrow> tk_paid a n t t'"
  by (auto simp: tk_destroy_def split: if_splits dest!: tk_paid_debit)

lemma tk_cells_transfer: "tk_transfer C self g a b n t = Some t' \<Longrightarrow> tk_cell t' = tk_cell t"
  by (auto simp: tk_transfer_def split: if_splits dest: tk_move_cell)

lemma tk_transfer_from_Some:
  assumes "tk_transfer_from C self g c a b n t = Some t'" "n \<noteq> 0"
  shows "tk_paid a (unat n) t t'"
    "tk_cell t (AllowanceCell a c) = 2 ^ 256 - 1 \<or> unat n \<le> tk_cell t (AllowanceCell a c) \<and>
      tk_cell t' (AllowanceCell a c) = tk_cell t (AllowanceCell a c) - unat n"
proof -
  from assms obtain t1 t2 where t1: "tk_spend a c (unat n) t = Some t1"
    and t2: "(if a = b then Some t1 else tk_move C g a b (unat n) t1) = Some t2"
    and t': "t' = tk_event self (TransferEvent a b n) t2"
    by (auto simp: tk_transfer_from_def bind_eq_Some_conv split: if_splits)
  show "tk_paid a (unat n) t t'"
    using t2 t' tk_spend_Some(1) [OF t1] tk_paid_move [of a b C g "unat n" t1 t2]
    by (auto simp: tk_paid_def split: if_splits)
  show "tk_cell t (AllowanceCell a c) = 2 ^ 256 - 1 \<or> unat n \<le> tk_cell t (AllowanceCell a c) \<and>
      tk_cell t' (AllowanceCell a c) = tk_cell t (AllowanceCell a c) - unat n"
    using t2 t' tk_spend_Some(5) [OF t1] tk_move_cell [of C g a b "unat n" t1 t2]
    by (auto split: if_splits)
qed

lemma tk_burn_from_Some:
  assumes "tk_burn_from C self g c a n t = Some t'"
  shows "tk_paid a (unat n) t t'"
    "tk_cell t (AllowanceCell a c) = 2 ^ 256 - 1 \<or> unat n \<le> tk_cell t (AllowanceCell a c) \<and>
      tk_cell t' (AllowanceCell a c) = tk_cell t (AllowanceCell a c) - unat n"
proof -
  from assms obtain t1 t2 where t1: "tk_spend a c (unat n) t = Some t1"
    and t2: "tk_destroy C g a (unat n) t1 = Some t2"
    and t': "t' = tk_event self (TransferEvent a 0 n) (tk_event self (BurnEvent a n) t2)"
    by (auto simp: tk_burn_from_def bind_eq_Some_conv split: if_splits)
  show "tk_paid a (unat n) t t'"
    using t' tk_spend_Some(1) [OF t1] tk_paid_destroy [OF t2] by (simp add: tk_paid_def)
  show "tk_cell t (AllowanceCell a c) = 2 ^ 256 - 1 \<or> unat n \<le> tk_cell t (AllowanceCell a c) \<and>
      tk_cell t' (AllowanceCell a c) = tk_cell t (AllowanceCell a c) - unat n"
    using t' tk_spend_Some(5) [OF t1] tk_destroy_allowance [OF t2] by simp
qed

lemma tk_authorized_Some:
  assumes "tk_authorized C self g a b n va vb nonce v r s t = Some t'"
  shows "tk_paid a (unat n) t t'"
    "verify_transfer_authorization C (domain self) a b n va vb nonce v r s = Inr a"
    "tk_cell t (NonceCell a nonce) = 0" "tk_cell t' = (tk_cell t)(NonceCell a nonce := 1)"
proof -
  from assms obtain t1 t2 where
    v: "verify_transfer_authorization C (domain self) a b n va vb nonce v r s = Inr a"
    and t1: "tk_cell t (NonceCell a nonce) = 0" "t1 = tk_set (NonceCell a nonce) 1 t"
    and t2: "tk_transfer C self g a b n t1 = Some t2"
    and t': "t' = tk_event self (AuthorizationUsed a nonce) t2"
    by (auto simp: tk_authorized_def tk_use_nonce_def bind_eq_Some_conv split: if_splits)
  show "tk_paid a (unat n) t t'" using t' t1(2) tk_paid_transfer [OF t2] by (simp add: tk_paid_def)
  show "tk_cell t' = (tk_cell t)(NonceCell a nonce := 1)"
    using t' t1(2) tk_cells_transfer [OF t2] by simp
  show "verify_transfer_authorization C (domain self) a b n va vb nonce v r s = Inr a"
    "tk_cell t (NonceCell a nonce) = 0" by fact+
qed

definition allowance_used :: "address \<Rightarrow> address \<Rightarrow> u256 \<Rightarrow> token \<Rightarrow> token \<Rightarrow> bool" where
  "allowance_used a caller n t t' \<longleftrightarrow>
    tk_cell t (AllowanceCell a caller) = 2 ^ 256 - 1 \<or>
    unat n \<le> tk_cell t (AllowanceCell a caller) \<and>
      tk_cell t' (AllowanceCell a caller) = tk_cell t (AllowanceCell a caller) - unat n"

fun debit_allowed ::
  "crypto \<Rightarrow> erc20_precompile \<Rightarrow> address \<Rightarrow> erc20_call \<Rightarrow> token \<Rightarrow> token \<Rightarrow> address \<Rightarrow> nat \<Rightarrow> bool"
  where
  "debit_allowed C self caller (CTransfer to n) t t' a d \<longleftrightarrow> a = caller \<and> d = unat n"
| "debit_allowed C self caller (CBurn n) t t' a d \<longleftrightarrow>
    a = caller \<and> caller = MINTING_MODULE_ADDRESS \<and> d = unat n"
| "debit_allowed C self caller (CTransferFrom from to n) t t' a d \<longleftrightarrow>
    a = from \<and> d = unat n \<and> allowance_used a caller n t t'"
| "debit_allowed C self caller (CBurnFrom from n) t t' a d \<longleftrightarrow>
    a = from \<and> caller = MINTING_MODULE_ADDRESS \<and> d = unat n \<and> allowance_used a caller n t t'"
| "debit_allowed C self caller (CTransferAuth from to n va vb nonce v r s) t t' a d \<longleftrightarrow>
    a = from \<and> d = unat n \<and>
    verify_transfer_authorization C (domain self) a to n va vb nonce v r s = Inr a \<and>
    tk_cell t (NonceCell a nonce) = 0 \<and> tk_cell t' (NonceCell a nonce) = 1"
| "debit_allowed C self caller (CReceiveAuth from to n va vb nonce v r s) t t' a d \<longleftrightarrow>
    a = from \<and> caller = to \<and> d = unat n \<and>
    verify_transfer_authorization C (domain self) a to n va vb nonce v r s = Inr a \<and>
    tk_cell t (NonceCell a nonce) = 0 \<and> tk_cell t' (NonceCell a nonce) = 1"
| "debit_allowed C self caller call t t' a d \<longleftrightarrow> False"

lemma tk_paidD: "tk_paid a n t t' \<Longrightarrow> tk_bal t' x < tk_bal t x \<Longrightarrow> x = a \<and> tk_bal t x - tk_bal t' x = n"
  by (fastforce simp: tk_paid_def)

lemma token_call_debit:
  assumes "token_call C self g caller call t = Some t'" "tk_bal t' a < tk_bal t a"
  shows "debit_allowed C self caller call t t' a (tk_bal t a - tk_bal t' a)"
proof (cases call)
  case (CTransfer b n)
  then show ?thesis using assms tk_paidD [OF tk_paid_transfer, of C self g caller b n t t' a]
    by auto
next
  case (CTransferFrom c b n)
  then have n: "n \<noteq> 0" using assms by (auto simp: tk_transfer_from_def split: if_splits)
  show ?thesis using CTransferFrom assms tk_transfer_from_Some [OF _ n, of C self g caller c b t t']
      tk_paidD [of c "unat n" t t' a]
    by (auto simp: allowance_used_def)
next
  case (CBurn n)
  then obtain t1 where "caller = MINTING_MODULE_ADDRESS" "tk_destroy C g caller (unat n) t = Some t1"
      "tk_bal t' = tk_bal t1"
    using assms by (auto simp: tk_burn_def split: if_splits)
  then show ?thesis using CBurn assms(2) tk_paidD [OF tk_paid_destroy, of C g caller "unat n" t t1 a]
    by auto
next
  case (CBurnFrom c n)
  then have "caller = MINTING_MODULE_ADDRESS"
    using assms by (auto simp: tk_burn_from_def split: if_splits)
  then show ?thesis using CBurnFrom assms tk_burn_from_Some [of C self g caller c n t t']
      tk_paidD [of c "unat n" t t' a]
    by (auto simp: allowance_used_def)
next
  case (CTransferAuth c b n va vb nonce v r s)
  then show ?thesis using assms tk_authorized_Some [of C self g c b n va vb nonce v r s t t']
      tk_paidD [of c "unat n" t t' a] by auto
next
  case (CReceiveAuth c b n va vb nonce v r s)
  then show ?thesis using assms tk_authorized_Some [of C self g c b n va vb nonce v r s t t']
      tk_paidD [of c "unat n" t t' a] by (auto split: if_splits)
qed (use assms in \<open>auto simp: tk_approve_def tk_mint_def tk_cancel_def tk_use_nonce_def Let_def
  split: if_splits dest!: tk_credit_Some\<close>)

text \<open>With the guard of EIP-161 on, no call leaves an account empty that was not.\<close>

definition tk_empty :: "crypto \<Rightarrow> token \<Rightarrow> address \<Rightarrow> bool" where
  "tk_empty C t a \<longleftrightarrow> tk_bal t a = 0 \<and> tk_codeless C t a"

lemma tk_empty_cong:
  "tk_bal t' = tk_bal t \<Longrightarrow> tk_ident t' = tk_ident t \<Longrightarrow> tk_empty C t' = tk_empty C t"
  by (simp add: tk_empty_def tk_codeless_def fun_eq_iff)

lemma tk_empty_simps [simp]:
  "tk_empty C (tk_event self e t) = tk_empty C t" "tk_empty C (tk_set k w t) = tk_empty C t"
  by (rule tk_empty_cong; simp)+

lemma tk_empty_debit: "tk_debit C True a n t = Some t' \<Longrightarrow> tk_empty C t' x \<Longrightarrow> tk_empty C t x"
  using tk_debit_Some [of C True a n t t'] by (auto simp: tk_empty_def tk_codeless_def split: if_splits)

lemma tk_empty_credit: "tk_credit a n t = Some t' \<Longrightarrow> tk_empty C t' x \<Longrightarrow> tk_empty C t x"
  using tk_credit_Some [of a n t t'] by (auto simp: tk_empty_def tk_codeless_def split: if_splits)

lemma tk_empty_move: "tk_move C True a b n t = Some t' \<Longrightarrow> tk_empty C t' x \<Longrightarrow> tk_empty C t x"
  by (auto simp: tk_move_def bind_eq_Some_conv dest: tk_empty_debit tk_empty_credit)

lemma tk_empty_transfer: "tk_transfer C self True a b n t = Some t' \<Longrightarrow> tk_empty C t' x \<Longrightarrow> tk_empty C t x"
  by (auto simp: tk_transfer_def split: if_splits dest: tk_empty_move)

lemma tk_empty_spend: "tk_spend a b n t = Some t' \<Longrightarrow> tk_empty C t' x \<Longrightarrow> tk_empty C t x"
  using tk_empty_cong [OF tk_spend_Some(1,2) [of a b n t t'], where C = C] by simp

lemma tk_empty_destroy: "tk_destroy C True a n t = Some t' \<Longrightarrow> tk_empty C t' x \<Longrightarrow> tk_empty C t x"
  by (auto simp: tk_destroy_def split: if_splits dest: tk_empty_debit)

lemma tk_empty_authorized:
  "tk_authorized C self True a b n va vb nonce v r s t = Some t' \<Longrightarrow> tk_empty C t' x \<Longrightarrow> tk_empty C t x"
  by (auto simp: tk_authorized_def tk_use_nonce_def bind_eq_Some_conv split: if_splits
    dest: tk_empty_transfer)

lemma token_call_empty:
  "token_call C self True caller call t = Some t' \<Longrightarrow> tk_empty C t' x \<Longrightarrow> tk_empty C t x"
  by (cases call) (auto simp: tk_approve_def tk_mint_def tk_burn_def tk_burn_from_def
    tk_transfer_from_def tk_cancel_def tk_use_nonce_def bind_eq_Some_conv Let_def split: if_splits
    dest: tk_empty_transfer tk_empty_move tk_empty_credit tk_empty_destroy tk_empty_authorized
      tk_empty_spend)

text \<open>A used nonce stays used, and an authorisation uses its nonce.\<close>

fun auth_key :: "erc20_call \<Rightarrow> (address \<times> b256) option" where
  "auth_key (CTransferAuth from to n va vb nonce v r s) = Some (from, nonce)"
| "auth_key (CReceiveAuth from to n va vb nonce v r s) = Some (from, nonce)"
| "auth_key (CCancelAuth authorizer nonce v r s) = Some (authorizer, nonce)"
| "auth_key call = None"

definition nonce_at :: "token \<Rightarrow> address \<times> b256 \<Rightarrow> nat" where
  "nonce_at t k = tk_cell t (NonceCell (fst k) (snd k))"

lemma tk_cells_destroy:
  "tk_destroy C g a n t = Some t' \<Longrightarrow> k \<noteq> SupplyCell \<Longrightarrow> tk_cell t' k = tk_cell t k"
  by (auto simp: tk_destroy_def split: if_splits dest!: tk_debit_Some)

lemma token_call_nonce:
  assumes "token_call C self g caller call t = Some t'"
  shows "nonce_at t' k = (if auth_key call = Some k then 1 else nonce_at t k)"
    "auth_key call = Some k \<Longrightarrow> nonce_at t k = 0"
proof -
  obtain a m where k: "k = (a, m)" by (cases k)
  have "nonce_at t' k = (if auth_key call = Some k then 1 else nonce_at t k) \<and>
    (auth_key call = Some k \<longrightarrow> nonce_at t k = 0)"
  proof (cases call)
    case (CTransferAuth c b n va vb nonce v r s)
    then show ?thesis using assms tk_authorized_Some(3,4) [of C self g c b n va vb nonce v r s t t']
      by (auto simp: nonce_at_def k)
  next
    case (CReceiveAuth c b n va vb nonce v r s)
    then show ?thesis using assms tk_authorized_Some(3,4) [of C self g c b n va vb nonce v r s t t']
      by (auto simp: nonce_at_def k split: if_splits)
  next
    case (CTransferFrom c b n)
    then show ?thesis using assms
      by (auto simp: nonce_at_def tk_transfer_from_def bind_eq_Some_conv split: if_splits
        dest!: tk_move_cell dest: tk_spend_Some(4))
  next
    case (CBurnFrom c n)
    then show ?thesis using assms
      by (auto simp: nonce_at_def tk_burn_from_def bind_eq_Some_conv tk_cells_destroy
        split: if_splits dest: tk_spend_Some(4))
  qed (use assms in \<open>auto simp: nonce_at_def k tk_approve_def tk_mint_def tk_burn_def tk_cancel_def
    tk_use_nonce_def tk_cells_transfer tk_cells_destroy Let_def split: if_splits
    dest!: tk_credit_Some\<close>)
  then show "nonce_at t' k = (if auth_key call = Some k then 1 else nonce_at t k)"
    "auth_key call = Some k \<Longrightarrow> nonce_at t k = 0" by simp_all
qed

end
