(* ===== verification/Erc20_Safety.thy ===== *)
theory Erc20_Safety
  imports Erc20_Dispatch
begin

text \<open>
  The properties of the native ERC-20 precompile as its callers see it: the dynamic precompile
  refines the contract of the token, conserves the supply, debits nobody without authority, uses an
  authorisation once, leaves no account empty under the guard of EIP-161, and answers within its
  gas. The journal is any \<open>state_access\<close> that keeps the laws \<open>adapter_ok\<close>; the journal in memory at
  the end is the instance of the witnesses.
\<close>

section \<open>Lemmas\<close>

lemma token_call_supply:
  assumes "token_call C self g caller call t = Some t'" "tk_cell t' SupplyCell \<noteq> tk_cell t SupplyCell"
  shows "caller = MINTING_MODULE_ADDRESS"
proof (cases call)
  case (CTransferAuth c b n va vb nonce v r s)
  then show ?thesis using assms tk_authorized_Some(4) [of C self g c b n va vb nonce v r s t t'] by auto
next
  case (CReceiveAuth c b n va vb nonce v r s)
  then show ?thesis using assms tk_authorized_Some(4) [of C self g c b n va vb nonce v r s t t']
    by (auto split: if_splits)
next
  case (CTransferFrom c b n)
  then show ?thesis using assms
    by (auto simp: tk_transfer_from_def bind_eq_Some_conv split: if_splits
      dest!: tk_move_cell dest: tk_spend_Some(4))
qed (use assms in \<open>auto simp: tk_approve_def tk_mint_def tk_burn_def tk_burn_from_def tk_cancel_def
  tk_use_nonce_def tk_cells_transfer Let_def split: if_splits\<close>)

lemma query_call:
  "decode_input D sel data = Inr call \<Longrightarrow> \<not> is_state_mutating sel \<Longrightarrow>
    call \<in> {CName, CSymbol, CDecimals, CTotalSupply} \<or> (\<exists>a. call = CBalanceOf a) \<or>
    (\<exists>a b. call = CAllowance a b)"
  by (cases sel) (auto simp: decode_map_def split: sum.splits)

lemma query_run:
  assumes "adapter_ok A V" "run_handler C A self caller g call s = (s', Inr out)"
    "decode_input D sel data = Inr call" "\<not> is_state_mutating sel"
  shows "V s' = V s"
  using query_call [OF assms(3,4)] assms(2)
  by (auto simp: handle_name_def handle_symbol_def handle_decimals_def handle_total_supply_def
    handle_balance_of_def handle_allowance_def get_allowance_def get_balance_def
    perform_get_balance_def andthen_Inr map_err_Inr split: prod.splits sum.splits
    dest: adapter_okD(1) [OF assms(1)] adapter_okD(3) [OF assms(1)])

text \<open>
  A run of the chain as the token sees it: committed calls, and in between anything that leaves the
  storage of the precompile alone, which only its handlers write.
\<close>

inductive frames ::
  "crypto \<Rightarrow> 's state_access \<Rightarrow> abi \<Rightarrow> (erc20_error \<Rightarrow> bytes) \<Rightarrow>
    (rayls_hard_fork \<Rightarrow> fork_condition) \<Rightarrow> erc20_precompile \<Rightarrow> ('s \<Rightarrow> evm_view) \<Rightarrow> cell set \<Rightarrow>
    erc20_call list \<Rightarrow> 's \<Rightarrow> 's \<Rightarrow> bool"
  for C A D display act self V K where
  start: "frames C A D display act self V K [] s s"
| call: "frames C A D display act self V K cs s0 s \<Longrightarrow>
    committed C A D display act self c inp s s' \<Longrightarrow> cells_of (in_caller inp) c \<subseteq> K \<Longrightarrow>
    frames C A D display act self V K (cs @ [c]) s0 s'"
| other: "frames C A D display act self V K cs s0 s \<Longrightarrow>
    storage (V s') (contract_address self) = storage (V s) (contract_address self) \<Longrightarrow>
    frames C A D display act self V K cs s0 s'"

lemma frames_nonces:
  assumes "token_env C A V K" "frames C A D display act self V K cs s0 s"
  shows "distinct (List.map_filter auth_key cs) \<and>
    (\<forall>k \<in> set (List.map_filter auth_key cs). nonce_at (tok C V self K s) k \<noteq> 0)"
  using assms(2)
proof induction
  case (call cs s0 s c inp s')
  note eff = token_call_nonce [OF committed_token [OF assms(1) call(3,2)]]
  show ?case
  proof (cases "auth_key c")
    case None
    then show ?thesis using call(4) eff(1) by (auto simp: List.map_filter_def)
  next
    case (Some k)
    then have "k \<notin> set (List.map_filter auth_key cs)" using call(4) eff(2) by auto
    then show ?thesis using Some call(4) eff(1)
      by (auto simp: List.map_filter_def)
  qed
next
  case (other cs s0 s s')
  have "nonce_at (tok C V self K s') k = nonce_at (tok C V self K s) k" for k
    using other(2) by (simp add: nonce_at_def tok_def token_of_def)
  then show ?case using other(3) by simp
qed (simp add: List.map_filter_def)

section \<open>Properties\<close>

text \<open>C8. The dynamic precompile refines the contract of the token. A call that commits takes the token
  read off the journal exactly where the contract takes it: balances, supply, allowances, used
  nonces and events. A call that is reverted is one the contract refuses, as long as the accesses
  to the database do not fail. Needed of the environment: a journal whose reads answer its writes,
  and no collision of Keccak-256 among the buffers hashed for the cells in use.
\<close>

theorem precompile_refines_token:
  assumes "adapter_ok A V" "keccak_free C K" "cells_of (in_caller inp) call \<subseteq> K"
    "from_calldata C (in_data inp) = Some sel" "decode_input D sel (in_data inp) = Inr call"
    "erc20_dyn_precompile C A D display act (Some self) inp s = (s', Inr res)"
    "g = is_eip161_empty_account_guard_active_at_block act (saturating_to_u64 (in_block inp))"
  shows "if res_reverted res
    then adapter_total A \<longrightarrow>
      token_call C self g (in_caller inp) call (token_of C self K (V s)) = None
    else token_call C self g (in_caller inp) call (token_of C self K (V s)) =
      Some (token_of C self K (V s'))"
proof -
  have env: "token_env C A V K" using assms(1,2) by (simp add: token_env_def)
  from assms(6) obtain result where
    run: "run_handler C A self (in_caller inp) g call s = (s', result)"
    and fin: "finish_call display (in_gas inp) result = Inr res"
    by (rule dyn_precompile_Inr) (use assms(4,5,7) in auto)
  show ?thesis
    using givesD [OF run_handler_ok [OF env assms(3), of self g s]] run finish_call_cases [OF fin]
    by (cases result) (auto simp: tok_def)
qed

text \<open>C9. A committed call keeps the difference between the sum of all balances and the recorded total
  supply, and changes the total supply only when its caller is the minting module. So a supply that
  once equals the sum of the balances equals it after every call.
\<close>

theorem supply_conserved:
  assumes "adapter_ok A V" "keccak_free C K" "SupplyCell \<in> K" "cells_of (in_caller inp) call \<subseteq> K"
    "committed C A D display act self call inp s s'"
  shows "(\<Sum>a\<in>UNIV. int (unat (balance (accounts (V s') a)))) -
      int (unat (storage (V s') (contract_address self) (total_supply_slot C))) =
    (\<Sum>a\<in>UNIV. int (unat (balance (accounts (V s) a)))) -
      int (unat (storage (V s) (contract_address self) (total_supply_slot C))) \<and>
    (storage (V s') (contract_address self) (total_supply_slot C) =
      storage (V s) (contract_address self) (total_supply_slot C) \<or>
     in_caller inp = MINTING_MODULE_ADDRESS)"
proof -
  note step = committed_token [OF _ assms(4,5), of V, unfolded token_env_def, OF conjI [OF assms(1,2)]]
  have "tk_gap (tok C V self K s') = tk_gap (tok C V self K s)" by (rule tk_gap_call [OF step])
  then show ?thesis using token_call_supply [OF step] assms(3)
    by (auto simp: tk_gap_def tk_total_def tok_def token_of_def word_unat_eq_iff)
qed

text \<open>C10. A committed call lowers the balance of an account only with authority, and by exactly the
  amount of the call: the account is the caller, or it gave the caller an allowance that covers the
  amount and is lowered by it unless unlimited, or it signed the order of an authorisation whose
  nonce was unused and is used afterwards. Burning is open to the minting module only.
\<close>

theorem debits_authorized:
  assumes "adapter_ok A V" "keccak_free C K" "cells_of (in_caller inp) call \<subseteq> K"
    "committed C A D display act self call inp s s'"
    "balance (accounts (V s') a) < balance (accounts (V s) a)"
  shows "debit_allowed C self (in_caller inp) call (token_of C self K (V s)) (token_of C self K (V s'))
    a (unat (balance (accounts (V s) a)) - unat (balance (accounts (V s') a)))"
proof -
  have "token_env C A V K" using assms(1,2) by (simp add: token_env_def)
  from token_call_debit [OF committed_token [OF this assms(3,4)], of a] show ?thesis
    using assms(5) by (simp add: tok_def token_of_def word_less_nat_alt)
qed

text \<open>C11. Along any run of committed calls, with anything in between that leaves the storage of the
  precompile alone, each pair of an authorizer and a nonce is used or cancelled at most once: a
  signed authorisation cannot be replayed, and cannot be used once cancelled.
\<close>

theorem authorizations_once:
  assumes "adapter_ok A V" "keccak_free C K" "frames C A D display act self V K cs s0 s"
  shows "distinct (List.map_filter auth_key cs)"
  using frames_nonces [OF _ assms(3)] assms(1,2) by (simp add: token_env_def)

text \<open>C32. With the hardfork \<open>Eip161EmptyAccountGuard\<close> active, no committed call leaves an account empty
  in the sense of EIP-161 that was not empty before.
\<close>

theorem guard_keeps_accounts:
  assumes "adapter_ok A V" "keccak_free C K" "cells_of (in_caller inp) call \<subseteq> K"
    "committed C A D display act self call inp s s'"
    "is_eip161_empty_account_guard_active_at_block act (saturating_to_u64 (in_block inp))"
    "is_empty C (accounts (V s') a)"
  shows "is_empty C (accounts (V s) a)"
proof -
  have "token_env C A V K" using assms(1,2) by (simp add: token_env_def)
  from token_call_empty [OF committed_token [OF this assms(3,4), unfolded eqTrueI [OF assms(5)]], of a]
  show ?thesis using assms(6)
    by (simp add: tok_def token_of_def tk_empty_def tk_codeless_def is_empty_def unat_eq_zero)
qed

text \<open>C33. Whatever the precompile answers, a revert included, costs at most the gas of the call, and a
  static call changes neither accounts nor storage nor logs when it is answered.
\<close>

theorem answers_within_gas:
  assumes "adapter_ok A V" "erc20_dyn_precompile C A D display act inst inp s = (s', Inr res)"
  shows "res_gas res \<le> in_gas inp \<and> (in_static inp \<and> \<not> res_reverted res \<longrightarrow> V s' = V s)"
  using assms(2)
proof (rule dyn_precompile_Inr)
  fix self sel call result
  assume *: "decode_input D sel (in_data inp) = Inr call" "in_static inp \<longrightarrow> \<not> is_state_mutating sel"
    "run_handler C A self (in_caller inp) (is_eip161_empty_account_guard_active_at_block act
      (saturating_to_u64 (in_block inp))) call s = (s', result)"
    "finish_call display (in_gas inp) result = Inr res"
  show ?thesis using finish_call_cases [OF *(4)] *(1-3) query_run [OF assms(1)]
    by (cases result) auto
qed

text \<open>C37. An authorisation made for \<open>receiveWithAuthorization\<close> is an authorisation for
  \<open>transferWithAuthorization\<close>: both check a signature over the same struct, so what the receiver
  may submit anybody may, with the same effect.
\<close>

theorem receive_is_transfer:
  "handle_receive_with_authorization C A self receiver sender receiver amount valid_after
      valid_before nonce v r sg g =
    handle_transfer_with_authorization C A self sender receiver amount valid_after valid_before
      nonce v r sg g"
  unfolding handle_receive_with_authorization_def handle_transfer_with_authorization_def
    GAS_RECEIVE_WITH_AUTHORIZATION_def GAS_TRANSFER_WITH_AUTHORIZATION_def by simp

section \<open>A journal in memory\<close>

text \<open>
  An instance of the parameters for the witnesses: a journal that holds its accounts and slots in
  functions and never fails, decoders with fixed answers, and an authorised transfer of 30 of the
  100 tokens of account 1 to account 2, submitted by account 9.
\<close>

definition mem_access :: "evm_view state_access" where
  "mem_access = \<lparr>
    perform_load_account = (\<lambda>a v. (v, Inr (accounts v a))),
    perform_set_balance = (\<lambda>a b v.
      (v\<lparr>accounts := (accounts v)(a := (accounts v a)\<lparr>balance := b\<rparr>)\<rparr>, Inr ())),
    perform_sload = (\<lambda>a k v. (v, Inr (storage v a k))),
    perform_sstore = (\<lambda>a k x v. (v\<lparr>storage := (storage v)(a := (storage v a)(k := x))\<rparr>, Inr ())),
    perform_touch_account = (\<lambda>a v. v),
    perform_log = (\<lambda>l v. v\<lparr>logs := logs v @ [l]\<rparr>),
    get_block_timestamp = timestamp\<rparr>"

lemma mem_access_ok: "adapter_ok mem_access id" "adapter_total mem_access"
  by (auto simp: adapter_ok_def adapter_total_def mem_access_def)

definition ex_abi :: abi where
  "ex_abi = \<lparr>dec_balance_of = (\<lambda>_. Inr 1), dec_allowance = (\<lambda>_. Inr (1, 2)),
    dec_transfer = (\<lambda>_. Inr (2, 30)), dec_approve = (\<lambda>_. Inr (2, 30)),
    dec_transfer_from = (\<lambda>_. Inr (1, 2, 30)), dec_mint = (\<lambda>_. Inr (1, 30)),
    dec_burn = (\<lambda>_. Inr 30), dec_burn_from = (\<lambda>_. Inr (1, 30)),
    dec_transfer_auth = (\<lambda>_. Inr (1, 2, 30, 0, 100, 7, 27, 1, 1)),
    dec_receive_auth = (\<lambda>_. Inr (1, 2, 30, 0, 100, 7, 27, 1, 1)),
    dec_cancel_auth = (\<lambda>_. Inr (1, 7, 27, 1, 1))\<rparr>"

definition ex_token :: erc20_precompile where
  "ex_token = default_native ERC20_PRECOMPILE_ADDRESS 1"

definition ex_journal :: evm_view where
  "ex_journal = \<lparr>
    accounts = (\<lambda>a. \<lparr>balance = (if a = 1 then 100 else 0), acc_nonce = 0, code_hash = 0\<rparr>),
    storage = (\<lambda>_ k. if k = 0 then 100 else 0), logs = [], timestamp = 50\<rparr>"

definition ex_input :: "erc20_selector \<Rightarrow> bool \<Rightarrow> precompile_input" where
  "ex_input sel static = \<lparr>in_caller = 9, in_value = 0, in_data = ex_selector sel, in_gas = 50000,
    in_static = static, in_direct = True, in_block = 5\<rparr>"

definition ex_order :: erc20_call where
  "ex_order = CTransferAuth 1 2 30 0 100 7 27 1 1"

definition ex_run :: "erc20_selector \<Rightarrow> bool \<Rightarrow> evm_view \<times> (precompile_error + precompile_result)" where
  "ex_run sel static = erc20_dyn_precompile ex_crypto mem_access ex_abi (\<lambda>_. []) (\<lambda>_. Block 0)
    (Some ex_token) (ex_input sel static) ex_journal"

definition ex_cells :: "cell set" where
  "ex_cells = {SupplyCell, NonceCell 1 7}"

lemma ex_selectors: "from_calldata ex_crypto (ex_selector sel) = Some sel"
  by (cases sel) (simp_all add: from_calldata_def selector_table_def ex_crypto_def)

lemma ex_selector_length: "length (ex_selector sel) = 4"
  by (cases sel) simp_all

declare ex_selector.simps [simp del]

lemma ex_nonce_slot:
  "mapping_slot_address ex_crypto 1 AUTHORIZATION_NONCES_BASE_SLOT = 156655"
  "authorization_nonce_slot ex_crypto 1 7 = 253196"
  by (simp_all add: slot_defs ex_keccak_buffer AUTHORIZATION_NONCES_BASE_SLOT_def
    from_be_bytes_be_bytes)

lemma ex_cells_free: "keccak_free ex_crypto ex_cells"
proof -
  have "ex_keccak (mapping_buffer (padded_address 1) 5) = 156655"
    "ex_keccak (mapping_buffer (be_bytes 32 7) 156655) = 253196"
    by (simp_all add: ex_keccak_buffer from_be_bytes_be_bytes)
  then show ?thesis using ex_nonce_slot(1)
    by (auto simp: keccak_free_def ex_cells_def AUTHORIZATION_NONCES_BASE_SLOT_def)
qed

lemmas act_evals = andthen_def ret_def fail_def effect_def map_err_def of_result_def ok_or_def
  checked_add_def checked_sub_def

lemmas access_evals = mem_access_def get_balance_def set_balance_def perform_get_balance_def
  reject_empty_def check_not_left_empty_def is_authorization_nonce_used_def mark_nonce_used_def

lemma ex_order_verified:
  "verify_transfer_authorization ex_crypto d 1 2 30 0 100 7 27 1 1 = Inr 1"
  by (simp add: verify_transfer_authorization_def verify_authorization_def parity_of_def half_eq
    ex_crypto_def)

definition ex_after :: evm_view where
  "ex_after = fst (run_handler ex_crypto mem_access ex_token 9 True ex_order ex_journal)"

lemmas order_evals = ex_order_def handle_transfer_with_authorization_def handle_transfer_def
  transfer_balance_def act_evals access_evals check_defs ex_order_verified ex_nonce_slot
  ex_journal_def

lemma ex_order_handled:
  "run_handler ex_crypto mem_access ex_token 9 True ex_order ex_journal =
    (ex_after, Inr (output_new 35000 (encode_bool True)))"
  by (simp add: ex_after_def order_evals output_new_def GAS_TRANSFER_WITH_AUTHORIZATION_def)

lemma ex_after_balances:
  "balance (accounts ex_after 1) = 70" "balance (accounts ex_after 2) = 30"
  "balance (accounts ex_journal 1) = 100" "is_empty ex_crypto (accounts ex_after 5)"
  by (simp_all add: ex_after_def order_evals is_empty_def)

lemma ex_dyn:
  "erc20_dyn_precompile ex_crypto mem_access ex_abi display (\<lambda>_. Block 0) (Some ex_token)
    (ex_input SelTransferWithAuthorization False) ex_journal =
    (ex_after, Inr \<lparr>res_gas = 35000, res_bytes = encode_bool True, res_reverted = False\<rparr>)"
  using ex_order_handled
  by (simp add: erc20_dyn_precompile_def ex_input_def ex_selectors ex_selector_length ex_abi_def
    decode_map_def
    is_erc20_precompile_direct_call_active_at_block_def ex_order_def finish_call_def output_new_def
    is_eip161_empty_account_guard_active_at_block_def is_rayls_fork_active_at_block_def)

lemma ex_committed:
  "committed ex_crypto mem_access ex_abi display (\<lambda>_. Block 0) ex_token ex_order
    (ex_input SelTransferWithAuthorization False) ex_journal ex_after"
  using ex_dyn [of display]
  by (simp add: committed_def ex_selectors ex_abi_def decode_map_def ex_order_def ex_input_def)

lemma ex_order_cells: "cells_of c ex_order \<subseteq> ex_cells"
  by (simp add: ex_order_def ex_cells_def)

theorem precompile_refines_token_witness:
  "token_call ex_crypto ex_token True 9 ex_order (token_of ex_crypto ex_token ex_cells ex_journal) =
    Some (token_of ex_crypto ex_token ex_cells ex_after)"
  using precompile_refines_token [OF mem_access_ok(1) ex_cells_free, where call = ex_order
    and inp = "ex_input SelTransferWithAuthorization False" and D = ex_abi, OF ex_order_cells _ _
    ex_dyn, of SelTransferWithAuthorization True]
  by (simp add: ex_input_def ex_selectors ex_abi_def decode_map_def ex_order_def
    is_eip161_empty_account_guard_active_at_block_def is_rayls_fork_active_at_block_def)

theorem supply_conserved_witness:
  "(\<Sum>a\<in>UNIV. int (unat (balance (accounts ex_after a)))) -
      int (unat (storage ex_after (contract_address ex_token) (total_supply_slot ex_crypto))) =
    (\<Sum>a\<in>UNIV. int (unat (balance (accounts ex_journal a)))) -
      int (unat (storage ex_journal (contract_address ex_token) (total_supply_slot ex_crypto)))"
  using supply_conserved [OF mem_access_ok(1) ex_cells_free _ ex_order_cells ex_committed]
  by (simp add: ex_cells_def)

theorem debits_authorized_witness:
  "debit_allowed ex_crypto ex_token 9 ex_order (token_of ex_crypto ex_token ex_cells ex_journal)
    (token_of ex_crypto ex_token ex_cells ex_after) 1 30"
  using debits_authorized [OF mem_access_ok(1) ex_cells_free ex_order_cells ex_committed, of 1]
    ex_after_balances by (simp add: ex_input_def)

theorem authorizations_once_witness:
  "frames ex_crypto mem_access ex_abi (\<lambda>_. []) (\<lambda>_. Block 0) ex_token id ex_cells [ex_order]
      ex_journal ex_after
    \<and> distinct (List.map_filter auth_key [ex_order])"
proof -
  have run: "frames ex_crypto mem_access ex_abi (\<lambda>_. []) (\<lambda>_. Block 0) ex_token id ex_cells
      ([] @ [ex_order]) ex_journal ex_after"
    by (rule frames.call [OF frames.start ex_committed ex_order_cells])
  then show ?thesis using authorizations_once [OF mem_access_ok(1) ex_cells_free run] by simp
qed

theorem guard_keeps_accounts_witness:
  "is_empty ex_crypto (accounts ex_after 5) \<and> is_empty ex_crypto (accounts ex_journal 5)"
  using guard_keeps_accounts [OF mem_access_ok(1) ex_cells_free ex_order_cells ex_committed, of 5]
    ex_after_balances(4)
  by (simp add: is_eip161_empty_account_guard_active_at_block_def is_rayls_fork_active_at_block_def)

theorem answers_within_gas_witness:
  "\<exists>v res. ex_run SelBalanceOf True = (v, Inr res) \<and> res_gas res \<le> 50000 \<and> v = ex_journal"
proof -
  have "\<exists>v res. ex_run SelBalanceOf True = (v, Inr res) \<and> \<not> res_reverted res"
    by (simp add: ex_run_def erc20_dyn_precompile_def ex_input_def ex_selectors ex_selector_length
      ex_abi_def decode_map_def is_erc20_precompile_direct_call_active_at_block_def finish_call_def
      is_rayls_fork_active_at_block_def handle_balance_of_def act_evals access_evals
      output_new_def GAS_BALANCE_QUERY_def)
  then obtain v res where run: "ex_run SelBalanceOf True = (v, Inr res)" "\<not> res_reverted res" by blast
  with answers_within_gas [OF mem_access_ok(1) run(1) [unfolded ex_run_def]] show ?thesis
    by (simp add: ex_input_def)
qed

end
