(* ===== verification/Mem_Db.thy ===== *)
theory Mem_Db
  imports Axyl_Prelude "HOL-Library.Word" "HOL-Library.Product_Lexorder"
begin

text \<open>
  The in-memory store of the storage crate (\<open>storage/src/mem_db.rs\<close>): cached rows with their packed
  tombstone flag and count of queued writer operations, the shared row mutations behind the
  database and transaction methods, the settling of an operation once the writer has applied it,
  and the eviction of settled rows. Keys are the encoded keys with their byte order, any linear
  order. The buffer of a row is \<open>Some v\<close> for \<open>encode v\<close>, and \<open>None\<close> for the empty buffer of a
  tombstone that was created for a key without a cached row, which \<open>decode\<close> rejects. The clock
  \<open>now_nanos\<close> is an argument of the operations that read it.
\<close>

unbundle bit_operations_syntax

section \<open>Rows\<close>

type_synonym tname = nat

text \<open>The failures the background writer of the layered database can latch, and the errors of a call.\<close>

datatype writer_failure =
    StartTxnWhileOpen
  | CommitWithoutTxn
  | WriteTxnFailed
  | CommitFailed
  | InsertFailed
  | RemoveFailed
  | ClearFailed

datatype db_error = InvalidTable tname | Poisoned writer_failure | ThreadGone

record 'v store_entry =
  entry_value :: "'v option"
  packed :: "32 word"
  last_used :: nat

definition TOMBSTONE_BIT :: "32 word" where
  "TOMBSTONE_BIT = 1"

definition IN_FLIGHT_UNIT :: "32 word" where
  "IN_FLIGHT_UNIT = push_bit (unat TOMBSTONE_BIT) 1"

definition RECENCY_BUMP_THRESHOLD :: nat where
  "RECENCY_BUMP_THRESHOLD = 100 * 1000000"

definition StoreEntry_new :: "nat \<Rightarrow> 'v option \<Rightarrow> 'v store_entry" where
  "StoreEntry_new now v = \<lparr>entry_value = v, packed = 0, last_used = now\<rparr>"

definition tombstoned :: "'v store_entry \<Rightarrow> bool" where
  "tombstoned e \<longleftrightarrow> packed e AND TOMBSTONE_BIT \<noteq> 0"

definition in_flight :: "'v store_entry \<Rightarrow> 32 word" where
  "in_flight e = drop_bit (unat TOMBSTONE_BIT) (packed e)"

definition mark_tombstone :: "'v store_entry \<Rightarrow> 'v store_entry" where
  "mark_tombstone e = e\<lparr>packed := packed e OR TOMBSTONE_BIT\<rparr>"

definition clear_tombstone :: "'v store_entry \<Rightarrow> 'v store_entry" where
  "clear_tombstone e = e\<lparr>packed := packed e AND NOT TOMBSTONE_BIT\<rparr>"

text \<open>An addition that wraps and a subtraction below zero panic.\<close>

definition add_in_flight :: "'v store_entry \<Rightarrow> 'v store_entry option" where
  "add_in_flight e =
    (if packed e \<le> packed e + IN_FLIGHT_UNIT
     then Some (e\<lparr>packed := packed e + IN_FLIGHT_UNIT\<rparr>) else None)"

definition dec_in_flight :: "'v store_entry \<Rightarrow> 'v store_entry option" where
  "dec_in_flight e =
    (if IN_FLIGHT_UNIT \<le> packed e then Some (e\<lparr>packed := packed e - IN_FLIGHT_UNIT\<rparr>) else None)"

definition touch :: "nat \<Rightarrow> 'v store_entry \<Rightarrow> 'v store_entry" where
  "touch now e = e\<lparr>last_used := now\<rparr>"

definition touch_approximately :: "nat \<Rightarrow> 'v store_entry \<Rightarrow> 'v store_entry" where
  "touch_approximately now e =
    (if now - last_used e \<ge> RECENCY_BUMP_THRESHOLD then e\<lparr>last_used := now\<rparr> else e)"

subsection \<open>The packed word\<close>

text \<open>
  The flag and the count share one word: bit 0 is the flag, the rest is the count. The operations
  on one never disturb the other, and the count is exact as long as it stays below \<open>2 ^ 31\<close>.
\<close>

lemma unit_eq [simp]: "IN_FLIGHT_UNIT = 2"
  by (simp add: IN_FLIGHT_UNIT_def TOMBSTONE_BIT_def)

lemma tombstoned_odd: "tombstoned e \<longleftrightarrow> odd (packed e)"
  by (simp add: tombstoned_def TOMBSTONE_BIT_def and_one_eq odd_iff_mod_2_eq_one)

lemma in_flight_div: "unat (in_flight e) = unat (packed e) div 2"
  by (simp add: in_flight_def TOMBSTONE_BIT_def drop_bit_eq_div unat_div)

lemma unat_odd: "odd (w :: 32 word) \<longleftrightarrow> odd (unat w)"
  by transfer (simp add: even_take_bit_eq even_nat_iff)

lemma packed_split: "unat (packed e) = 2 * unat (in_flight e) + of_bool (tombstoned e)"
  by (simp add: in_flight_div tombstoned_odd unat_odd)

lemma tombstoned_mark [simp]: "tombstoned (mark_tombstone e)"
  by (simp add: tombstoned_odd mark_tombstone_def TOMBSTONE_BIT_def even_or_iff)

lemma tombstoned_clear [simp]: "\<not> tombstoned (clear_tombstone e)"
  by (simp add: tombstoned_odd clear_tombstone_def TOMBSTONE_BIT_def even_and_iff)

lemma in_flight_mark [simp]: "in_flight (mark_tombstone e) = in_flight e"
  by (rule bit_word_eqI) (auto simp: in_flight_def mark_tombstone_def TOMBSTONE_BIT_def bit_simps)

lemma in_flight_clear [simp]: "in_flight (clear_tombstone e) = in_flight e"
proof -
  have "drop_bit 1 (NOT 1) = (mask 31 :: 32 word)"
    by (simp add: drop_bit_eq_div mask_eq_exp_minus_1)
  then have "drop_bit 1 (packed e AND NOT 1) = take_bit 31 (drop_bit 1 (packed e))"
    by (simp only: drop_bit_and take_bit_eq_mask)
  also have "\<dots> = drop_bit 1 (take_bit 32 (packed e))"
    by (simp only: take_bit_drop_bit) simp
  also have "take_bit 32 (packed e) = packed e"
    using take_bit_length_eq [of "packed e"] by simp
  finally show ?thesis by (simp add: in_flight_def clear_tombstone_def TOMBSTONE_BIT_def)
qed

lemma add_in_flight_Some:
  assumes "add_in_flight e = Some e'"
  shows "unat (in_flight e') = Suc (unat (in_flight e))" and "tombstoned e' = tombstoned e"
    and "entry_value e' = entry_value e" and "last_used e' = last_used e"
proof -
  from assms have e': "e' = e\<lparr>packed := packed e + 2\<rparr>" and le: "packed e \<le> packed e + 2"
    by (auto simp: add_in_flight_def split: if_splits)
  have "unat (packed e + 2) = unat (packed e) + 2"
    using le unat_plus_simple [of "packed e" 2] by simp
  then show "unat (in_flight e') = Suc (unat (in_flight e))" "tombstoned e' = tombstoned e"
    by (simp_all add: e' in_flight_div tombstoned_odd unat_odd)
  show "entry_value e' = entry_value e" "last_used e' = last_used e" by (simp_all add: e')
qed

lemma dec_in_flight_Some:
  assumes "dec_in_flight e = Some e'"
  shows "unat (in_flight e) = Suc (unat (in_flight e'))" and "tombstoned e' = tombstoned e"
    and "entry_value e' = entry_value e" and "last_used e' = last_used e"
proof -
  from assms have e': "e' = e\<lparr>packed := packed e - 2\<rparr>" and le: "2 \<le> packed e"
    by (auto simp: dec_in_flight_def split: if_splits)
  have n: "2 \<le> unat (packed e)" using le by (simp add: word_le_nat_alt)
  have "unat (packed e - 2) = unat (packed e) - 2"
    using le by (simp add: unat_sub_if' word_le_nat_alt)
  then show "unat (in_flight e) = Suc (unat (in_flight e'))" "tombstoned e' = tombstoned e"
    using n by (simp_all add: e' in_flight_div tombstoned_odd unat_odd)
  show "entry_value e' = entry_value e" "last_used e' = last_used e" by (simp_all add: e')
qed

lemma dec_in_flight_total: "in_flight e \<noteq> 0 \<Longrightarrow> dec_in_flight e \<noteq> None"
proof -
  assume "in_flight e \<noteq> 0"
  then have "unat (in_flight e) \<noteq> 0" by (simp add: unat_eq_zero)
  then have "2 \<le> unat (packed e)" using packed_split [of e] by linarith
  then show ?thesis by (simp add: dec_in_flight_def word_le_nat_alt)
qed

lemma add_in_flight_total: "unat (in_flight e) < 2 ^ 31 - 1 \<Longrightarrow> add_in_flight e \<noteq> None"
  using packed_split [of e] by (simp add: add_in_flight_def unat_plus_simple unat_word_ariths)

lemma entry_new [simp]:
  "in_flight (StoreEntry_new now v) = 0" "\<not> tombstoned (StoreEntry_new now v)"
  "entry_value (StoreEntry_new now v) = v"
  by (simp_all add: StoreEntry_new_def in_flight_def tombstoned_def)

lemma entry_updates [simp]:
  "in_flight (touch now e) = in_flight e" "tombstoned (touch now e) = tombstoned e"
  "entry_value (touch now e) = entry_value e"
  "in_flight (touch_approximately now e) = in_flight e"
  "tombstoned (touch_approximately now e) = tombstoned e"
  "entry_value (touch_approximately now e) = entry_value e"
  "in_flight (e\<lparr>entry_value := v\<rparr>) = in_flight e"
  "tombstoned (e\<lparr>entry_value := v\<rparr>) = tombstoned e"
  "entry_value (mark_tombstone e) = entry_value e"
  "entry_value (clear_tombstone e) = entry_value e"
  by (simp_all add: touch_def touch_approximately_def in_flight_def tombstoned_def
      mark_tombstone_def clear_tombstone_def)

section \<open>Tables\<close>

record ('k, 'v) store_table =
  rows :: "('k, 'v store_entry) btree"
  clearing :: bool

type_synonym ('k, 'v) store = "(tname, ('k, 'v) store_table) btree"

definition StoreTable_new :: "('k, 'v) store_table" where
  "StoreTable_new = \<lparr>rows = [], clearing = False\<rparr>"

definition open_table :: "tname \<Rightarrow> ('k, 'v) store \<Rightarrow> ('k, 'v) store" where
  "open_table t s = bt_insert t StoreTable_new s"

definition row_of :: "('k, 'v) store \<Rightarrow> tname \<Rightarrow> 'k \<Rightarrow> 'v store_entry option" where
  "row_of s t k = (case bt_get s t of None \<Rightarrow> None | Some tb \<Rightarrow> bt_get (rows tb) k)"

definition put_row ::
  "tname \<Rightarrow> 'k::linorder \<Rightarrow> 'v store_entry \<Rightarrow> ('k, 'v) store \<Rightarrow> ('k, 'v) store" where
  "put_row t k e s = bt_update t (\<lambda>tb. tb\<lparr>rows := bt_insert k e (rows tb)\<rparr>) s"

definition delete_row :: "tname \<Rightarrow> 'k \<Rightarrow> ('k, 'v) store \<Rightarrow> ('k, 'v) store" where
  "delete_row t k s = bt_update t (\<lambda>tb. tb\<lparr>rows := bt_remove k (rows tb)\<rparr>) s"

subsection \<open>Mutations\<close>

definition insert_impl ::
  "nat \<Rightarrow> ('k::linorder, 'v) store \<Rightarrow> tname \<Rightarrow> 'k \<Rightarrow> 'v \<Rightarrow> (db_error, ('k, 'v) store) result" where
  "insert_impl now s t k v =
    (case bt_get s t of
       None \<Rightarrow> Inl (Err (InvalidTable t))
     | Some tb \<Rightarrow>
        (case (case bt_get (rows tb) k of
                 Some e \<Rightarrow>
                   map_option (touch now) (add_in_flight (clear_tombstone (e\<lparr>entry_value := Some v\<rparr>)))
               | None \<Rightarrow> add_in_flight (StoreEntry_new now (Some v))) of
           None \<Rightarrow> Inl Panic
         | Some e \<Rightarrow> Inr (put_row t k e s)))"

definition remove_impl ::
  "nat \<Rightarrow> ('k::linorder, 'v) store \<Rightarrow> tname \<Rightarrow> 'k \<Rightarrow> (db_error, ('k, 'v) store) result" where
  "remove_impl now s t k =
    (case bt_get s t of
       None \<Rightarrow> Inl (Err (InvalidTable t))
     | Some tb \<Rightarrow>
        (case (case bt_get (rows tb) k of
                 Some e \<Rightarrow> map_option (touch now) (add_in_flight (mark_tombstone e))
               | None \<Rightarrow> add_in_flight (mark_tombstone (StoreEntry_new now None))) of
           None \<Rightarrow> Inl Panic
         | Some e \<Rightarrow> Inr (put_row t k e s)))"

fun tombstone_all :: "('k, 'v store_entry) btree \<Rightarrow> ('k, 'v store_entry) btree option" where
  "tombstone_all [] = Some []"
| "tombstone_all ((k, e) # m) =
    (case add_in_flight (mark_tombstone e) of
       None \<Rightarrow> None
     | Some e' \<Rightarrow> map_option (\<lambda>m'. (k, e') # m') (tombstone_all m))"

definition raw_keys :: "('k, 'v) store \<Rightarrow> tname \<Rightarrow> 'k list" where
  "raw_keys s t = (case bt_get s t of None \<Rightarrow> [] | Some tb \<Rightarrow> bt_keys (rows tb))"

definition clear_table_impl ::
  "('k, 'v) store \<Rightarrow> tname \<Rightarrow> (db_error, ('k, 'v) store \<times> 'k list) result" where
  "clear_table_impl s t =
    (case bt_get s t of
       None \<Rightarrow> Inl (Err (InvalidTable t))
     | Some tb \<Rightarrow>
        (case tombstone_all (rows tb) of
           None \<Rightarrow> Inl Panic
         | Some rs \<Rightarrow>
             Inr (bt_update t (\<lambda>tb. tb\<lparr>rows := rs, clearing := True\<rparr>) s, bt_keys (rows tb))))"

definition hard_delete :: "('k, 'v) store \<Rightarrow> tname \<Rightarrow> 'k \<Rightarrow> ('k, 'v) store" where
  "hard_delete s t k = delete_row t k s"

subsection \<open>Reads\<close>

definition decode :: "'v option \<Rightarrow> (db_error, 'v) result" where
  "decode b = (case b of None \<Rightarrow> Inl Panic | Some v \<Rightarrow> Inr v)"

definition get_no_marked_check ::
  "('k, 'v) store \<Rightarrow> tname \<Rightarrow> 'k \<Rightarrow> (db_error, (bool \<times> 'v) option) result" where
  "get_no_marked_check s t k =
    (case row_of s t k of
       None \<Rightarrow> Inr None
     | Some e \<Rightarrow>
        (case decode (entry_value e) of Inl f \<Rightarrow> Inl f | Inr v \<Rightarrow> Inr (Some (tombstoned e, v))))"

definition touch_read :: "nat \<Rightarrow> ('k::linorder, 'v) store \<Rightarrow> tname \<Rightarrow> 'k \<Rightarrow> ('k, 'v) store" where
  "touch_read now s t k =
    (case row_of s t k of
       None \<Rightarrow> s
     | Some e \<Rightarrow> if tombstoned e then s else put_row t k (touch_approximately now e) s)"

definition is_tombstoned :: "('k, 'v) store \<Rightarrow> tname \<Rightarrow> 'k \<Rightarrow> bool" where
  "is_tombstoned s t k \<longleftrightarrow> (case row_of s t k of None \<Rightarrow> False | Some e \<Rightarrow> tombstoned e)"

definition is_clearing :: "('k, 'v) store \<Rightarrow> tname \<Rightarrow> bool" where
  "is_clearing s t \<longleftrightarrow> (case bt_get s t of None \<Rightarrow> False | Some tb \<Rightarrow> clearing tb)"

definition get_with_marked_check ::
  "('k, 'v) store \<Rightarrow> tname \<Rightarrow> 'k \<Rightarrow> (db_error, 'v option) result" where
  "get_with_marked_check s t k =
    (case row_of s t k of
       None \<Rightarrow> Inr None
     | Some e \<Rightarrow>
        if tombstoned e then Inr None
        else (case decode (entry_value e) of Inl f \<Rightarrow> Inl f | Inr v \<Rightarrow> Inr (Some v)))"

definition contains_key_impl :: "('k, 'v) store \<Rightarrow> tname \<Rightarrow> 'k \<Rightarrow> bool" where
  "contains_key_impl s t k \<longleftrightarrow> (case row_of s t k of None \<Rightarrow> False | Some e \<Rightarrow> \<not> tombstoned e)"

fun collect_typed :: "('k, 'v store_entry) btree \<Rightarrow> (db_error, ('k \<times> 'v) list) result" where
  "collect_typed [] = Inr []"
| "collect_typed ((k, e) # m) =
    (if tombstoned e then collect_typed m
     else (case decode (entry_value e) of
             Inl f \<Rightarrow> Inl f
           | Inr v \<Rightarrow> (case collect_typed m of Inl f \<Rightarrow> Inl f | Inr l \<Rightarrow> Inr ((k, v) # l))))"

definition iter_impl :: "('k, 'v) store \<Rightarrow> tname \<Rightarrow> (db_error, ('k \<times> 'v) list) result option" where
  "iter_impl s t = (case bt_get s t of None \<Rightarrow> None | Some tb \<Rightarrow> Some (collect_typed (rows tb)))"

definition skip_to_impl ::
  "('k::linorder, 'v) store \<Rightarrow> tname \<Rightarrow> 'k \<Rightarrow> (db_error, ('k \<times> 'v) list) result option" where
  "skip_to_impl s t k =
    (case bt_get s t of
       None \<Rightarrow> None
     | Some tb \<Rightarrow> Some (collect_typed (filter (\<lambda>(j, _). k \<le> j) (rows tb))))"

definition reverse_iter_impl ::
  "('k, 'v) store \<Rightarrow> tname \<Rightarrow> (db_error, ('k \<times> 'v) list) result option" where
  "reverse_iter_impl s t =
    (case bt_get s t of None \<Rightarrow> None | Some tb \<Rightarrow> Some (collect_typed (rev (rows tb))))"

fun find_live :: "('k, 'v store_entry) btree \<Rightarrow> (db_error, ('k \<times> 'v) option) result" where
  "find_live [] = Inr None"
| "find_live ((k, e) # m) =
    (if tombstoned e then find_live m
     else (case decode (entry_value e) of Inl f \<Rightarrow> Inl f | Inr v \<Rightarrow> Inr (Some (k, v))))"

definition last_record_impl :: "('k, 'v) store \<Rightarrow> tname \<Rightarrow> (db_error, ('k \<times> 'v) option) result" where
  "last_record_impl s t =
    (case bt_get s t of None \<Rightarrow> Inr None | Some tb \<Rightarrow> find_live (rev (rows tb)))"

definition record_prior_to_impl ::
  "('k::linorder, 'v) store \<Rightarrow> tname \<Rightarrow> 'k \<Rightarrow> (db_error, ('k \<times> 'v) option) result" where
  "record_prior_to_impl s t k =
    (case bt_get s t of
       None \<Rightarrow> Inr None
     | Some tb \<Rightarrow> find_live (rev (filter (\<lambda>(j, _). j < k) (rows tb))))"

section \<open>Settling and eviction\<close>

text \<open>
  The eviction heap holds \<open>Reverse (last_used, table, key)\<close>, so it pops the least entry: here a list
  sorted in the lexicographic order of the tuples.
\<close>

type_synonym 'k eviction_heap = "(nat \<times> tname \<times> 'k) list"

definition heap_push :: "nat \<times> tname \<times> 'k::linorder \<Rightarrow> 'k eviction_heap \<Rightarrow> 'k eviction_heap" where
  "heap_push x h = insort x h"

text \<open>\<open>None\<close> is the panic of the subtraction below zero.\<close>

definition on_op_applied ::
  "tname \<Rightarrow> 'k::linorder \<Rightarrow> ('k, 'v) store \<times> 'k eviction_heap \<Rightarrow> (('k, 'v) store \<times> 'k eviction_heap) option" where
  "on_op_applied t k = (\<lambda>(s, h).
    case row_of s t k of
      None \<Rightarrow> Some (s, h)
    | Some e \<Rightarrow>
       (case dec_in_flight e of
          None \<Rightarrow> None
        | Some e' \<Rightarrow> Some (put_row t k e' s,
            if in_flight e' = 0 then heap_push (last_used e', t, k) h else h)))"

fun release_keys ::
  "tname \<Rightarrow> 'k::linorder list \<Rightarrow> ('k, 'v) store \<times> 'k eviction_heap \<Rightarrow> (('k, 'v) store \<times> 'k eviction_heap) option" where
  "release_keys t [] sh = Some sh"
| "release_keys t (k # ks) sh =
    (case on_op_applied t k sh of None \<Rightarrow> None | Some sh' \<Rightarrow> release_keys t ks sh')"

definition on_clear_applied ::
  "tname \<Rightarrow> 'k::linorder list \<Rightarrow> ('k, 'v) store \<times> 'k eviction_heap \<Rightarrow> (('k, 'v) store \<times> 'k eviction_heap) option" where
  "on_clear_applied t ks = (\<lambda>(s, h).
    case bt_get s t of
      None \<Rightarrow> Some (s, h)
    | Some _ \<Rightarrow> release_keys t ks (bt_update t (\<lambda>tb. tb\<lparr>clearing := False\<rparr>) s, h))"

definition mem_size :: "('k, 'v) store \<Rightarrow> nat" where
  "mem_size s = sum_list (map (\<lambda>(_, tb). length (rows tb)) s)"

subsection \<open>The rows after an update\<close>

lemma bt_get_update_Some:
  "bt_get m k = Some v \<Longrightarrow> bt_get (bt_update k f m) j = (if j = k then Some (f v) else bt_get m j)"
  by (simp add: bt_get_update)

lemma row_delete: "row_of (delete_row t k s) t' k' = (if t' = t \<and> k' = k then None else row_of s t' k')"
  by (simp add: row_of_def delete_row_def bt_get_update bt_get_remove split: option.split)

text \<open>
  The representation invariant of a store: tables and rows are ordered maps, and the buffer of
  every live row decodes.
\<close>

definition table_ok :: "('k::linorder, 'v) store_table \<Rightarrow> bool" where
  "table_ok tb \<longleftrightarrow> bt_inv (rows tb) \<and>
    list_all (\<lambda>(k, e). \<not> tombstoned e \<longrightarrow> entry_value e \<noteq> None) (rows tb)"

definition mem_ok :: "('k::linorder, 'v) store \<Rightarrow> bool" where
  "mem_ok s \<longleftrightarrow> bt_inv s \<and> list_all (\<lambda>(t, tb). table_ok tb) s"

lemma mem_ok_table: "mem_ok s \<Longrightarrow> bt_get s t = Some tb \<Longrightarrow> table_ok tb"
  by (auto simp: mem_ok_def list_all_iff dest: bt_get_set)

lemma mem_ok_rows: "mem_ok s \<Longrightarrow> bt_get s t = Some tb \<Longrightarrow> bt_inv (rows tb)"
  by (auto simp: table_ok_def dest: mem_ok_table)

lemma mem_ok_live:
  assumes "mem_ok s" "row_of s t k = Some e" "\<not> tombstoned e"
  shows "entry_value e \<noteq> None"
proof -
  from assms(2) obtain tb where tb: "bt_get s t = Some tb" and e: "bt_get (rows tb) k = Some e"
    by (auto simp: row_of_def split: option.splits)
  from mem_ok_table [OF assms(1) tb] bt_get_set [OF e] assms(3) show ?thesis
    by (auto simp: table_ok_def list_all_iff)
qed

lemma row_put:
  assumes "mem_ok s" "bt_get s t = Some tb"
  shows "row_of (put_row t k e s) t' k' = (if t' = t \<and> k' = k then Some e else row_of s t' k')"
  using assms mem_ok_rows [OF assms]
  by (simp add: row_of_def put_row_def bt_get_update bt_get_insert)

lemma row_Some_table: "row_of s t k = Some e \<Longrightarrow> \<exists>tb. bt_get s t = Some tb"
  by (auto simp: row_of_def split: option.splits)

lemma set_bt_update:
  "(a, b) \<in> set (bt_update k f m) \<Longrightarrow> \<exists>b'. (a, b') \<in> set m \<and> b = (if a = k then f b' else b')"
  by (auto simp: bt_update_def split: if_splits)

lemma mem_ok_update:
  assumes "mem_ok s" "\<And>tb. bt_get s t = Some tb \<Longrightarrow> table_ok tb \<Longrightarrow> table_ok (f tb)"
  shows "mem_ok (bt_update t f s)"
proof -
  have "table_ok b" if "(a, b) \<in> set (bt_update t f s)" for a b
  proof -
    from set_bt_update [OF that] obtain b' where mem: "(a, b') \<in> set s"
      and b: "b = (if a = t then f b' else b')" by blast
    from mem assms(1) have "bt_get s a = Some b'" by (simp add: mem_ok_def bt_get_iff)
    with assms(2) mem_ok_table [OF assms(1) this] show ?thesis by (cases "a = t") (simp_all add: b)
  qed
  with assms(1) show ?thesis by (auto simp: mem_ok_def list_all_iff)
qed

lemma table_ok_put:
  assumes "table_ok tb" "\<not> tombstoned e \<Longrightarrow> entry_value e \<noteq> None"
  shows "table_ok (tb\<lparr>rows := bt_insert k e (rows tb)\<rparr>)"
proof -
  have "\<not> tombstoned e' \<longrightarrow> entry_value e' \<noteq> None" if "(j, e') \<in> set (bt_insert k e (rows tb))" for j e'
    using subsetD [OF set_bt_insert that] assms by (auto simp: table_ok_def list_all_iff)
  with assms(1) show ?thesis by (auto simp: table_ok_def list_all_iff)
qed

lemma mem_ok_put:
  "mem_ok s \<Longrightarrow> (\<not> tombstoned e \<Longrightarrow> entry_value e \<noteq> None) \<Longrightarrow> mem_ok (put_row t k e s)"
  unfolding put_row_def by (rule mem_ok_update) (auto intro: table_ok_put)

lemma mem_ok_delete: "mem_ok s \<Longrightarrow> mem_ok (delete_row t k s)"
  unfolding delete_row_def
  by (rule mem_ok_update) (auto simp: table_ok_def list_all_iff bt_remove_def bt_inv_filter)

lemma clearing_put [simp]: "is_clearing (put_row t k e s) t' = is_clearing s t'"
  by (simp add: is_clearing_def put_row_def bt_get_update split: option.split)

lemma clearing_delete [simp]: "is_clearing (delete_row t k s) t' = is_clearing s t'"
  by (simp add: is_clearing_def delete_row_def bt_get_update split: option.split)

lemma tables_kept [simp]:
  "map fst (put_row t k e s) = map fst s" "map fst (delete_row t k s) = map fst s"
  by (simp_all add: put_row_def delete_row_def)

subsection \<open>What each mutation does to the rows\<close>

definition in_flight_of :: "('k, 'v) store \<Rightarrow> tname \<Rightarrow> 'k \<Rightarrow> nat" where
  "in_flight_of s t k = (case row_of s t k of None \<Rightarrow> 0 | Some e \<Rightarrow> unat (in_flight e))"

lemma insert_impl_effect:
  assumes "insert_impl now s t k v = Inr s'"
  obtains tb e where "bt_get s t = Some tb" "s' = put_row t k e s" "entry_value e = Some v"
    "\<not> tombstoned e" "unat (in_flight e) = Suc (in_flight_of s t k)"
proof -
  from assms obtain tb where tb: "bt_get s t = Some tb"
    by (auto simp: insert_impl_def split: option.splits)
  show thesis
  proof (cases "bt_get (rows tb) k")
    case None
    with assms tb obtain e where "add_in_flight (StoreEntry_new now (Some v)) = Some e"
      "s' = put_row t k e s"
      by (auto simp: insert_impl_def split: option.splits)
    with add_in_flight_Some [OF this(1)] tb None that show thesis
      by (simp add: in_flight_of_def row_of_def)
  next
    case (Some e0)
    with assms tb obtain e where
      "add_in_flight (clear_tombstone (e0\<lparr>entry_value := Some v\<rparr>)) = Some e"
      "s' = put_row t k (touch now e) s"
      by (auto simp: insert_impl_def split: option.splits)
    with add_in_flight_Some [OF this(1)] tb Some that [of tb "touch now e"] show thesis
      by (simp add: in_flight_of_def row_of_def)
  qed
qed

lemma remove_impl_effect:
  assumes "remove_impl now s t k = Inr s'"
  obtains tb e where "bt_get s t = Some tb" "s' = put_row t k e s" "tombstoned e"
    "unat (in_flight e) = Suc (in_flight_of s t k)"
proof -
  from assms obtain tb where tb: "bt_get s t = Some tb"
    by (auto simp: remove_impl_def split: option.splits)
  show thesis
  proof (cases "bt_get (rows tb) k")
    case None
    with assms tb obtain e where
      "add_in_flight (mark_tombstone (StoreEntry_new now None :: 'b store_entry)) = Some e"
      "s' = put_row t k e s"
      by (auto simp: remove_impl_def split: option.splits)
    with add_in_flight_Some [OF this(1)] tb None that show thesis
      by (simp add: in_flight_of_def row_of_def)
  next
    case (Some e0)
    with assms tb obtain e where "add_in_flight (mark_tombstone e0) = Some e"
      "s' = put_row t k (touch now e) s"
      by (auto simp: remove_impl_def split: option.splits)
    with add_in_flight_Some [OF this(1)] tb Some that [of tb "touch now e"] show thesis
      by (simp add: in_flight_of_def row_of_def)
  qed
qed

lemma tombstone_all_effect:
  assumes "tombstone_all m = Some m'"
  shows "map fst m' = map fst m" and "list_all (\<lambda>(k, e). tombstoned e) m'"
    and "bt_get m' k = None \<longleftrightarrow> bt_get m k = None"
    and "bt_get m k = Some e \<Longrightarrow> \<exists>e'. bt_get m' k = Some e' \<and> tombstoned e' \<and>
      unat (in_flight e') = Suc (unat (in_flight e))"
  using assms
proof (atomize (full), induction m arbitrary: m')
  case Nil
  then show ?case by simp
next
  case (Cons x m)
  obtain a b where x: "x = (a, b)" by (cases x)
  from Cons.prems obtain e' m'' where e': "add_in_flight (mark_tombstone b) = Some e'"
    and m'': "tombstone_all m = Some m''" and m': "m' = (a, e') # m''"
    by (auto simp: x split: option.splits)
  note IH = Cons.IH [OF m'']
  from add_in_flight_Some [OF e'] IH show ?case
    by (auto simp: x m' bt_get_def)
qed

lemma clear_table_impl_effect:
  assumes "mem_ok s" "clear_table_impl s t = Inr (s', ks)"
  obtains tb where "bt_get s t = Some tb" "ks = raw_keys s t" "mem_ok s'" "map fst s' = map fst s"
    "\<And>t'. is_clearing s' t' = (t' = t \<or> is_clearing s t')"
    "\<And>t' k. t' \<noteq> t \<Longrightarrow> row_of s' t' k = row_of s t' k"
    "\<And>k. row_of s' t k = None \<longleftrightarrow> row_of s t k = None"
    "\<And>k e. row_of s t k = Some e \<Longrightarrow> \<exists>e'. row_of s' t k = Some e' \<and> tombstoned e' \<and>
      unat (in_flight e') = Suc (unat (in_flight e))"
proof -
  from assms(2) obtain tb rs where tb: "bt_get s t = Some tb" and rs: "tombstone_all (rows tb) = Some rs"
    and s': "s' = bt_update t (\<lambda>tb. tb\<lparr>rows := rs, clearing := True\<rparr>) s" and ks: "ks = bt_keys (rows tb)"
    by (auto simp: clear_table_impl_def split: option.splits)
  note eff = tombstone_all_effect [OF rs]
  have "bt_inv (rows tb)" by (rule mem_ok_rows [OF assms(1) tb])
  then have "bt_inv rs" using eff(1) by (simp add: bt_inv_def)
  with eff(2) have "table_ok (tb'\<lparr>rows := rs, clearing := True\<rparr>)" for tb'
    by (auto simp: table_ok_def list_all_iff)
  then have ok: "mem_ok s'" unfolding s' by (intro mem_ok_update [OF assms(1)])
  show thesis
    by (rule that [OF tb _ ok])
      (use eff tb in \<open>auto simp: s' ks raw_keys_def is_clearing_def row_of_def bt_get_update\<close>)
qed

lemma raw_keys_row: "k \<in> set (raw_keys s t) \<longleftrightarrow> row_of s t k \<noteq> None"
proof (cases "bt_get s t")
  case None
  then show ?thesis by (simp add: raw_keys_def row_of_def)
next
  case (Some tb)
  then show ?thesis
    using bt_get_None_iff [of "rows tb" k] by (simp add: raw_keys_def row_of_def bt_keys_def)
qed

lemma distinct_raw_keys: "mem_ok s \<Longrightarrow> distinct (raw_keys s t)"
  by (auto simp: raw_keys_def bt_keys_def split: option.splits intro: bt_inv_distinct mem_ok_rows)

lemma on_op_applied_effect:
  assumes "mem_ok s" "row_of s t k = Some e" "in_flight e \<noteq> 0"
  obtains e' s' h' where "on_op_applied t k (s, h) = Some (s', h')" "s' = put_row t k e' s"
    "mem_ok s'" "tombstoned e' = tombstoned e" "entry_value e' = entry_value e"
    "unat (in_flight e) = Suc (unat (in_flight e'))"
proof -
  from dec_in_flight_total [OF assms(3)] obtain e' where e': "dec_in_flight e = Some e'" by auto
  note d = dec_in_flight_Some [OF e']
  have ok: "mem_ok (put_row t k e' s)"
    using mem_ok_live [OF assms(1,2)] d by (intro mem_ok_put [OF assms(1)]) simp
  show thesis
    by (rule that [OF _ refl ok d(2) d(3) d(1)])
      (simp add: on_op_applied_def assms(2) e')
qed

lemma release_keys_effect:
  assumes "mem_ok s" "distinct ks"
    and "\<And>k. k \<in> set ks \<Longrightarrow> \<exists>e. row_of s t k = Some e \<and> in_flight e \<noteq> 0"
  shows "\<exists>s' h'. release_keys t ks (s, h) = Some (s', h') \<and> mem_ok s' \<and> map fst s' = map fst s \<and>
    (\<forall>t'. is_clearing s' t' = is_clearing s t') \<and>
    (\<forall>t' k. (t' \<noteq> t \<or> k \<notin> set ks) \<longrightarrow> row_of s' t' k = row_of s t' k) \<and>
    (\<forall>k\<in>set ks. \<forall>e. row_of s t k = Some e \<longrightarrow> (\<exists>e'. row_of s' t k = Some e' \<and> tombstoned e' = tombstoned e \<and>
      entry_value e' = entry_value e \<and> unat (in_flight e) = Suc (unat (in_flight e'))))"
  using assms
proof (induction ks arbitrary: s h)
  case Nil
  then show ?case by simp
next
  case (Cons k ks)
  from Cons.prems(3) [of k] obtain e where e: "row_of s t k = Some e" "in_flight e \<noteq> 0" by auto
  obtain e' s1 h1 where s1: "on_op_applied t k (s, h) = Some (s1, h1)" "s1 = put_row t k e' s"
    and ok1: "mem_ok s1" and e': "tombstoned e' = tombstoned e" "entry_value e' = entry_value e"
      "unat (in_flight e) = Suc (unat (in_flight e'))"
    by (rule on_op_applied_effect [OF Cons.prems(1) e, of h])
  from row_Some_table [OF e(1)] obtain tb where tb: "bt_get s t = Some tb" by blast
  have r1: "row_of s1 t' k' = (if t' = t \<and> k' = k then Some e' else row_of s t' k')" for t' k'
    unfolding s1(2) by (rule row_put [OF Cons.prems(1) tb])
  have kept: "map fst s1 = map fst s" "\<And>t'. is_clearing s1 t' = is_clearing s t'"
    by (simp_all add: s1(2))
  have "\<exists>e. row_of s1 t j = Some e \<and> in_flight e \<noteq> 0" if "j \<in> set ks" for j
    using Cons.prems(2) Cons.prems(3) [of j] that by (auto simp: r1)
  with Cons.IH [OF ok1, of h1] Cons.prems(2) obtain s' h' where
    s': "release_keys t ks (s1, h1) = Some (s', h')" "mem_ok s'" "map fst s' = map fst s1"
      "\<forall>t'. is_clearing s' t' = is_clearing s1 t'"
    and other: "\<forall>t' k. (t' \<noteq> t \<or> k \<notin> set ks) \<longrightarrow> row_of s' t' k = row_of s1 t' k"
    and those: "\<forall>k\<in>set ks. \<forall>e. row_of s1 t k = Some e \<longrightarrow> (\<exists>e'. row_of s' t k = Some e' \<and>
      tombstoned e' = tombstoned e \<and> entry_value e' = entry_value e \<and>
      unat (in_flight e) = Suc (unat (in_flight e')))"
    by auto
  have "row_of s' t k = Some e'" using other Cons.prems(2) by (simp add: r1)
  moreover have "row_of s1 t j = row_of s t j" if "j \<in> set ks" for j
    using that Cons.prems(2) by (auto simp: r1)
  ultimately show ?case
    using s' other those e e' s1(1) kept by (auto simp: r1)
qed

subsection \<open>Eviction\<close>

text \<open>
  Not every turn of the loop shortens the heap: an entry whose row was touched after it settled is
  pushed again with the fresh clock. The weight of the heap still falls, since a stale entry of a
  row weighs 2 and every other entry 1.
\<close>

definition heap_weight :: "('k, 'v) store \<Rightarrow> 'k eviction_heap \<Rightarrow> nat" where
  "heap_weight s h =
    (\<Sum>(u, t, k)\<leftarrow>h. case row_of s t k of None \<Rightarrow> 1 | Some e \<Rightarrow> if last_used e \<noteq> u then 2 else 1)"

lemma heap_weight_push:
  "heap_weight s (heap_push x h) = heap_weight s (x # h)"
proof -
  have "mset (heap_push x h) = mset (x # h)" by (simp add: heap_push_def)
  then have "mset (map f (heap_push x h)) = mset (map f (x # h))" for f :: "_ \<Rightarrow> nat" by simp
  then show ?thesis unfolding heap_weight_def by (metis sum_mset_sum_list)
qed

lemma heap_weight_delete: "heap_weight (delete_row t k s) h \<le> heap_weight s h"
  unfolding heap_weight_def
  by (rule sum_list_mono) (auto simp: row_delete split: option.splits)

function evict_loop ::
  "nat \<Rightarrow> nat \<Rightarrow> nat \<Rightarrow> ('k::linorder, 'v) store \<Rightarrow> 'k eviction_heap \<Rightarrow>
    ('k, 'v) store \<times> 'k eviction_heap \<times> nat \<times> nat" where
  "evict_loop evict_until tot evicted s [] = (s, [], tot, evicted)"
| "evict_loop evict_until tot evicted s ((u, t, k) # h) =
    (if tot > evict_until
     then (case row_of s t k of
             None \<Rightarrow> evict_loop evict_until tot evicted s h
           | Some e \<Rightarrow>
              if in_flight e \<noteq> 0 then evict_loop evict_until tot evicted s h
              else if last_used e \<noteq> u
              then evict_loop evict_until tot evicted s (heap_push (last_used e, t, k) h)
              else evict_loop evict_until (tot - 1) (evicted + 1) (delete_row t k s) h)
     else (s, (u, t, k) # h, tot, evicted))"
  by pat_completeness auto
termination
proof (relation "measure (\<lambda>(_, _, _, s, h). heap_weight s h)", goal_cases)
  case 1
  show ?case by simp
next
  case (2 evict_until tot evicted s u t k h)
  then show ?case by (simp add: heap_weight_def)
next
  case (3 evict_until tot evicted s u t k h e)
  then show ?case by (simp add: heap_weight_def)
next
  case (4 evict_until tot evicted s u t k h e)
  then show ?case by (simp add: heap_weight_push) (simp add: heap_weight_def)
next
  case (5 evict_until tot evicted s u t k h e)
  have "heap_weight (delete_row t k s) h \<le> heap_weight s h" by (rule heap_weight_delete)
  also have "\<dots> < heap_weight s ((u, t, k) # h)" by (simp add: heap_weight_def split: option.split)
  finally show ?case by simp
qed

record eviction_stats =
  stats_before :: nat
  stats_after :: nat
  stats_evicted :: nat

definition evict_if_needed ::
  "nat \<Rightarrow> ('k::linorder, 'v) store \<times> 'k eviction_heap \<Rightarrow>
    (('k, 'v) store \<times> 'k eviction_heap) \<times> eviction_stats" where
  "evict_if_needed max_size = (\<lambda>(s, h).
    if length h < max_size div 2
    then ((s, h), \<lparr>stats_before = 0, stats_after = 0, stats_evicted = 0\<rparr>)
    else (let tot = mem_size s in
      if tot \<le> max_size
      then ((s, h), \<lparr>stats_before = tot, stats_after = tot, stats_evicted = 0\<rparr>)
      else (case evict_loop (max_size div 8) tot 0 s h of (s', h', tot', evicted) \<Rightarrow>
        ((s', h'), \<lparr>stats_before = tot' + evicted, stats_after = tot', stats_evicted = evicted\<rparr>))))"

text \<open>A pass drops settled rows and nothing else.\<close>

definition evicts :: "('k::linorder, 'v) store \<Rightarrow> ('k, 'v) store \<Rightarrow> bool" where
  "evicts s s' \<longleftrightarrow> (mem_ok s \<longrightarrow> mem_ok s') \<and> map fst s' = map fst s \<and>
    (\<forall>t. is_clearing s' t = is_clearing s t) \<and>
    (\<forall>t k. row_of s' t k = row_of s t k \<or>
      (row_of s' t k = None \<and> (\<exists>e. row_of s t k = Some e \<and> in_flight e = 0)))"

lemma evicts_refl: "evicts s s"
  by (simp add: evicts_def)

lemma evicts_row:
  "evicts s s' \<Longrightarrow> row_of s' t k = row_of s t k \<or> (row_of s' t k = None \<and> (\<exists>e. row_of s t k = Some e \<and> in_flight e = 0))"
  by (simp add: evicts_def)

lemma evicts_delete:
  assumes "row_of s t k = Some e" "in_flight e = 0" "evicts (delete_row t k s) s'"
  shows "evicts s s'"
proof -
  have "row_of s' t' k' = row_of s t' k' \<or> (row_of s' t' k' = None \<and> (\<exists>e. row_of s t' k' = Some e \<and> in_flight e = 0))"
    for t' k'
    using evicts_row [OF assms(3), of t' k'] assms(1,2) by (auto simp: row_delete split: if_splits)
  with assms(3) mem_ok_delete [of s t k] show ?thesis by (simp add: evicts_def)
qed

lemma evict_loop_evicts:
  "evict_loop evict_until tot evicted s h = (s', h', tot', evicted') \<Longrightarrow> evicts s s'"
proof (induction evict_until tot evicted s h rule: evict_loop.induct)
  case (1 evict_until tot evicted s)
  then show ?case by (simp add: evicts_refl)
next
  case (2 evict_until tot evicted s u t k h)
  then show ?case
    by (auto simp: evicts_refl split: if_splits option.splits intro: evicts_delete)
qed

lemma evict_if_needed_evicts: "evict_if_needed max_size (s, h) = ((s', h'), st) \<Longrightarrow> evicts s s'"
  by (auto simp: evict_if_needed_def Let_def evicts_refl split: if_splits prod.splits
      dest: evict_loop_evicts)

lemma length_bt_remove_eq:
  assumes "bt_inv m" "bt_get m k = Some v"
  shows "Suc (length (bt_remove k m)) = length m"
proof -
  have "length m = length (filter (\<lambda>(a, _). a = k) m) + length (bt_remove k m)"
    by (simp add: bt_remove_def case_prod_unfold sum_length_filter_compl)
  moreover have "length (filter (\<lambda>(a, _). a = k) m) = count (mset (map fst m)) k"
    by (induction m) auto
  moreover have "count (mset (map fst m)) k = 1"
    using bt_inv_distinct [OF assms(1)] bt_get_set [OF assms(2)]
    by (simp add: distinct_count_atmost_1 rev_image_eqI)
  ultimately show ?thesis by simp
qed

lemma mem_size_update:
  assumes "distinct (map fst s)" "bt_get s t = Some tb" "Suc (length (rows (f tb))) = length (rows tb)"
  shows "Suc (mem_size (bt_update t f s)) = mem_size s"
  using assms
proof (induction s)
  case Nil
  then show ?case by simp
next
  case (Cons x s)
  obtain a b where x: "x = (a, b)" by (cases x)
  show ?case
  proof (cases "a = t")
    case True
    with Cons.prems(1) have "bt_update t f s = s"
      by (force simp: x bt_update_def intro!: map_idI)
    with True Cons.prems show ?thesis by (auto simp: x mem_size_def bt_update_def bt_get_def)
  next
    case False
    then have "bt_update t f (x # s) = x # bt_update t f s" by (simp add: x bt_update_def)
    with False Cons show ?thesis by (simp add: x mem_size_def bt_get_def)
  qed
qed

lemma mem_size_delete:
  assumes "mem_ok s" "row_of s t k = Some e"
  shows "Suc (mem_size (delete_row t k s)) = mem_size s"
proof -
  from assms(2) obtain tb where tb: "bt_get s t = Some tb" and e: "bt_get (rows tb) k = Some e"
    by (auto simp: row_of_def split: option.splits)
  have "bt_inv s" using assms(1) by (simp add: mem_ok_def)
  then show ?thesis unfolding delete_row_def
    using length_bt_remove_eq [OF mem_ok_rows [OF assms(1) tb] e]
    by (intro mem_size_update [OF bt_inv_distinct tb]) simp_all
qed

lemma evict_loop_size:
  assumes "mem_ok s" "tot = mem_size s" "evict_loop evict_until tot evicted s h = (s', h', tot', evicted')"
  shows "tot' = mem_size s' \<and> tot' + evicted' = tot + evicted \<and> (tot' \<le> evict_until \<or> h' = [])"
  using assms
proof (induction evict_until tot evicted s h rule: evict_loop.induct)
  case (1 evict_until tot evicted s)
  then show ?case by auto
next
  case (2 evict_until tot evicted s u t k h)
  show ?case
  proof (cases "tot > evict_until")
    case False
    with 2 show ?thesis by auto
  next
    case big: True
    show ?thesis
    proof (cases "row_of s t k")
      case None
      with 2 big show ?thesis by auto
    next
      case (Some e)
      note ok = \<open>mem_ok s\<close> and tot = \<open>tot = mem_size s\<close>
      consider "in_flight e \<noteq> 0" | "in_flight e = 0" "last_used e \<noteq> u" | "in_flight e = 0" "last_used e = u"
        by blast
      then show ?thesis
      proof cases
        case 1
        with big Some "2.prems"(3) show ?thesis by (intro "2.IH"(2) [OF big Some 1 ok tot]) simp
      next
        case 2
        with big Some "2.prems"(3) show ?thesis
          by (intro "2.IH"(3) [OF big Some _ 2(2) ok tot]) simp_all
      next
        case 3
        have "tot - 1 = mem_size (delete_row t k s)"
          using mem_size_delete [OF ok Some] tot by simp
        with big Some "2.prems"(3) 3 have "tot' = mem_size s' \<and> tot' + evicted' = tot - 1 + (evicted + 1) \<and>
            (tot' \<le> evict_until \<or> h' = [])"
          by (intro "2.IH"(4) [OF big Some _ _ mem_ok_delete [OF ok]]) simp_all
        with big show ?thesis by auto
      qed
    qed
  qed
qed

text \<open>C31. An eviction pass ends, whatever entries the heap holds (an entry of a row that was read
  since is pushed back, so a turn of the loop need not shorten the heap). It keeps the store
  well-formed, drops only rows without a queued writer operation, and changes no other row. Unless
  the pass is skipped, because fewer than half the cap are candidates or the cache is within its cap,
  it trims the cache to an eighth of the cap or runs out of candidates.\<close>

theorem eviction_pass:
  assumes "mem_ok s"
  shows "\<exists>s' h' st. evict_if_needed max_size (s, h) = ((s', h'), st) \<and> mem_ok s' \<and>
    (\<forall>t k. row_of s' t k = row_of s t k \<or> (row_of s' t k = None \<and> in_flight_of s t k = 0)) \<and>
    ((s' = s \<and> (length h < max_size div 2 \<or> mem_size s \<le> max_size)) \<or>
     (mem_size s' + stats_evicted st = mem_size s \<and> (mem_size s' \<le> max_size div 8 \<or> h' = [])))"
proof -
  obtain s' h' st where r: "evict_if_needed max_size (s, h) = ((s', h'), st)"
    by (metis prod.exhaust)
  note ev = evict_if_needed_evicts [OF r]
  have "row_of s' t k = row_of s t k \<or> (row_of s' t k = None \<and> in_flight_of s t k = 0)" for t k
    using evicts_row [OF ev, of t k] by (auto simp: in_flight_of_def)
  moreover have "mem_ok s'" using ev assms by (simp add: evicts_def)
  moreover have "(s' = s \<and> (length h < max_size div 2 \<or> mem_size s \<le> max_size)) \<or>
     (mem_size s' + stats_evicted st = mem_size s \<and> (mem_size s' \<le> max_size div 8 \<or> h' = []))"
    using r evict_loop_size [OF assms refl, of "max_size div 8" 0 h]
    by (auto simp: evict_if_needed_def Let_def split: if_splits prod.splits)
  ultimately show ?thesis using r by blast
qed

end
