(* ===== verification/Layered_Db.thy ===== *)
theory Layered_Db
  imports Mem_Db
begin

text \<open>
  The layered database (\<open>storage/src/layered_db.rs\<close>): an in-memory cache in front of a persistent
  tier that a background thread writes to. A producer mutates the cache and enqueues a message in
  one critical section; the writer (\<open>db_run\<close>) takes the messages in order, applies them to the
  persistent tier, directly or in a write transaction, releases the count of queued operations of
  the keys they touch, and evicts settled rows. A failure of the persistent tier poisons the
  database.

  The state holds the cache, the persistent tier as readers see it, the channel, the poison latch,
  whether a producer's write transaction is alive (it holds the cache's write lock), and the locals
  of the writer thread. The writer moves in steps between which producers and readers may run: the
  check of the cache before a removal, the write to the persistent tier, the release of each
  applied operation, and the eviction pass are separate steps. The persistent tier is the trait
  \<open>Database\<close>: tables as ordered maps, with calls that may fail; the argument \<open>ok\<close> of a step says
  which of its calls to the tier succeed.
\<close>

section \<open>Messages and state\<close>

datatype ('k, 'v) write_op =
    KeyValueInsert tname 'k 'v
  | KeyRemove tname 'k
  | KeyRemoveBatch tname "'k list"
  | ClearTable tname "'k list"

datatype ('k, 'v) db_message =
    StartTxn
  | CommitTxn
  | WriteOp "('k, 'v) write_op"
  | CaughtUp nat
  | Shutdown

type_synonym ('k, 'v) tier = "tname \<Rightarrow> ('k, 'v) btree"

record ('k, 'v) layered =
  mem_db :: "('k, 'v) store"
  db :: "('k, 'v) tier"
  chan :: "('k, 'v) db_message list"
  fatal :: "writer_failure option"
  write_guard :: bool
  txn :: "('k, 'v) tier option"
  committed_ops :: "('k, 'v) write_op list"
  removing :: "bool option"
  unsettled :: "('k, 'v) write_op list"
  evict_due :: bool
  eviction_heap :: "'k eviction_heap"
  replies :: "(nat \<times> (writer_failure + unit)) list"
  stopped :: bool

definition open_layered :: "tname list \<Rightarrow> ('k, 'v) tier \<Rightarrow> ('k, 'v) layered" where
  "open_layered ts d =
    \<lparr>mem_db = fold open_table ts [], db = d, chan = [], fatal = None, write_guard = False,
     txn = None, committed_ops = [], removing = None, unsettled = [], evict_due = False,
     eviction_heap = [], replies = [], stopped = False\<rparr>"

section \<open>The writer\<close>

subsection \<open>Operations on the persistent tier\<close>

definition tier_insert :: "tname \<Rightarrow> 'k::linorder \<Rightarrow> 'v \<Rightarrow> ('k, 'v) tier \<Rightarrow> ('k, 'v) tier" where
  "tier_insert t k v d = d(t := bt_insert k v (d t))"

definition tier_remove :: "tname \<Rightarrow> 'k \<Rightarrow> ('k, 'v) tier \<Rightarrow> ('k, 'v) tier" where
  "tier_remove t k d = d(t := bt_remove k (d t))"

definition tier_clear :: "tname \<Rightarrow> ('k, 'v) tier \<Rightarrow> ('k, 'v) tier" where
  "tier_clear t d = d(t := [])"

text \<open>The keys of a batch are removed one by one; the first call that fails ends the loop.\<close>

fun remove_batch ::
  "(nat \<Rightarrow> bool) \<Rightarrow> ('k \<Rightarrow> bool) \<Rightarrow> tname \<Rightarrow> nat \<Rightarrow> 'k list \<Rightarrow> ('k, 'v) tier \<Rightarrow>
    ('k, 'v) tier \<times> writer_failure option" where
  "remove_batch ok live t i [] d = (d, None)"
| "remove_batch ok live t i (k # ks) d =
    (if live k then remove_batch ok live t i ks d
     else if ok i then remove_batch ok live t (Suc i) ks (tier_remove t k d)
     else (d, Some RemoveFailed))"

text \<open>\<open>insert\<close>, \<open>remove\<close> and \<open>clear_table\<close> of the three operation traits: outside a transaction a
  removal skips a key that is live in the cache again.\<close>

definition apply_direct ::
  "(nat \<Rightarrow> bool) \<Rightarrow> ('k::linorder, 'v) store \<Rightarrow> bool \<Rightarrow> ('k, 'v) write_op \<Rightarrow> ('k, 'v) tier \<Rightarrow>
    ('k, 'v) tier \<times> writer_failure option" where
  "apply_direct ok mem live op d =
    (case op of
       KeyValueInsert t k v \<Rightarrow> if ok 0 then (tier_insert t k v d, None) else (d, Some InsertFailed)
     | KeyRemove t k \<Rightarrow>
         if live then (d, None)
         else if ok 0 then (tier_remove t k d, None) else (d, Some RemoveFailed)
     | KeyRemoveBatch t ks \<Rightarrow> remove_batch ok (contains_key_impl mem t) t 0 ks d
     | ClearTable t _ \<Rightarrow> if ok 0 then (tier_clear t d, None) else (d, Some ClearFailed))"

text \<open>\<open>insert_txn\<close>, \<open>remove_txn\<close> and \<open>clear_table_txn\<close>.\<close>

definition apply_txn ::
  "(nat \<Rightarrow> bool) \<Rightarrow> ('k::linorder, 'v) write_op \<Rightarrow> ('k, 'v) tier \<Rightarrow>
    ('k, 'v) tier \<times> writer_failure option" where
  "apply_txn ok op d =
    (case op of
       KeyValueInsert t k v \<Rightarrow> if ok 0 then (tier_insert t k v d, None) else (d, Some InsertFailed)
     | KeyRemove t k \<Rightarrow> if ok 0 then (tier_remove t k d, None) else (d, Some RemoveFailed)
     | KeyRemoveBatch t ks \<Rightarrow> remove_batch ok (\<lambda>_. False) t 0 ks d
     | ClearTable t _ \<Rightarrow> if ok 0 then (tier_clear t d, None) else (d, Some ClearFailed))"

definition on_applied ::
  "('k::linorder, 'v) write_op \<Rightarrow> ('k, 'v) store \<times> 'k eviction_heap \<Rightarrow>
    (('k, 'v) store \<times> 'k eviction_heap) option" where
  "on_applied op =
    (case op of
       KeyValueInsert t k _ \<Rightarrow> on_op_applied t k
     | KeyRemove t k \<Rightarrow> on_op_applied t k
     | KeyRemoveBatch t ks \<Rightarrow> release_keys t ks
     | ClearTable t ks \<Rightarrow> on_clear_applied t ks)"

subsection \<open>The loop\<close>

definition trip :: "writer_failure \<Rightarrow> ('k, 'v) layered \<Rightarrow> ('k, 'v) layered" where
  "trip f st = st\<lparr>fatal := (case fatal st of None \<Rightarrow> Some f | Some g \<Rightarrow> Some g)\<rparr>"

definition evict_and_log ::
  "nat \<Rightarrow> bool \<Rightarrow> ('k::linorder, 'v) layered \<Rightarrow> ('k, 'v) layered" where
  "evict_and_log max_size has_open_txn st =
    (if has_open_txn then st
     else (case evict_if_needed max_size (mem_db st, eviction_heap st) of ((m, h), _) \<Rightarrow>
       st\<lparr>mem_db := m, eviction_heap := h\<rparr>))"

definition poisoned_message ::
  "writer_failure \<Rightarrow> ('k, 'v) db_message \<Rightarrow> ('k, 'v) layered \<Rightarrow> ('k, 'v) layered" where
  "poisoned_message err msg st =
    (case msg of
       CaughtUp i \<Rightarrow> st\<lparr>replies := replies st @ [(i, Inl err)]\<rparr>
     | Shutdown \<Rightarrow> st\<lparr>stopped := True\<rparr>
     | _ \<Rightarrow> st)"

definition apply_op ::
  "(nat \<Rightarrow> bool) \<Rightarrow> ('k::linorder, 'v) write_op \<Rightarrow> ('k, 'v) layered \<Rightarrow> ('k, 'v) layered" where
  "apply_op ok op st =
    (case txn st of
       Some d \<Rightarrow>
        (case apply_txn ok op d of
           (d', None) \<Rightarrow> st\<lparr>txn := Some d', committed_ops := committed_ops st @ [op]\<rparr>
         | (d', Some f) \<Rightarrow> trip f (st\<lparr>txn := Some d'\<rparr>))
     | None \<Rightarrow>
        (case apply_direct ok (mem_db st) (removing st = Some True) op (db st) of
           (d', None) \<Rightarrow> st\<lparr>db := d', removing := None, unsettled := [op], evict_due := True\<rparr>
         | (d', Some f) \<Rightarrow> trip f (st\<lparr>db := d', removing := None\<rparr>)))"

definition handle_message ::
  "nat \<Rightarrow> (nat \<Rightarrow> bool) \<Rightarrow> ('k::linorder, 'v) db_message \<Rightarrow> ('k, 'v) layered \<Rightarrow> ('k, 'v) layered" where
  "handle_message max_size ok msg st =
    (case msg of
       StartTxn \<Rightarrow>
        (case txn st of
           Some _ \<Rightarrow> trip StartTxnWhileOpen (st\<lparr>txn := None, committed_ops := []\<rparr>)
         | None \<Rightarrow> if ok 0 then st\<lparr>txn := Some (db st)\<rparr> else trip WriteTxnFailed st)
     | CommitTxn \<Rightarrow>
        (case txn st of
           Some d \<Rightarrow>
             if ok 0
             then st\<lparr>txn := None, db := d, unsettled := committed_ops st, committed_ops := [],
                     evict_due := True\<rparr>
             else trip CommitFailed (st\<lparr>txn := None, committed_ops := []\<rparr>)
         | None \<Rightarrow> trip CommitWithoutTxn st)
     | WriteOp op \<Rightarrow> apply_op ok op st
     | CaughtUp i \<Rightarrow>
        (let st' = evict_and_log max_size (\<not> Option.is_none (txn st)) st
         in st'\<lparr>replies := replies st' @ [(i, Inr ())]\<rparr>)
     | Shutdown \<Rightarrow> st\<lparr>stopped := True\<rparr>)"

definition checks_cache :: "('k, 'v) db_message \<Rightarrow> ('k, 'v) layered \<Rightarrow> (tname \<times> 'k) option" where
  "checks_cache msg st =
    (case msg of
       WriteOp (KeyRemove t k) \<Rightarrow>
        (case (txn st, removing st) of (None, None) \<Rightarrow> Some (t, k) | _ \<Rightarrow> None)
     | _ \<Rightarrow> None)"

text \<open>One step of \<open>db_run\<close>; \<open>None\<close> is a panic. A writer that is gone, or that waits on an empty
  channel, stays as it is.\<close>

definition db_run_step ::
  "nat \<Rightarrow> (nat \<Rightarrow> bool) \<Rightarrow> ('k::linorder, 'v) layered \<Rightarrow> ('k, 'v) layered option" where
  "db_run_step max_size ok st =
    (if stopped st then Some st
     else (case unsettled st of
       op # ops \<Rightarrow>
        (case on_applied op (mem_db st, eviction_heap st) of
           None \<Rightarrow> None
         | Some (m, h) \<Rightarrow> Some (st\<lparr>mem_db := m, eviction_heap := h, unsettled := ops\<rparr>))
     | [] \<Rightarrow>
        if evict_due st then Some ((evict_and_log max_size False st)\<lparr>evict_due := False\<rparr>)
        else (case chan st of
          [] \<Rightarrow> Some st
        | msg # q \<Rightarrow>
           (case fatal st of
              Some err \<Rightarrow> Some (poisoned_message err msg (st\<lparr>chan := q\<rparr>))
            | None \<Rightarrow>
               (case checks_cache msg st of
                  Some (t, k) \<Rightarrow> Some (st\<lparr>removing := Some (contains_key_impl (mem_db st) t k)\<rparr>)
                | None \<Rightarrow> Some (handle_message max_size ok msg (st\<lparr>chan := q\<rparr>)))))))"

section \<open>Producers\<close>

text \<open>
  Every write path reads the poison latch first, before it takes the cache's lock, so the value it
  saw, \<open>seen\<close>, may be older than the state it then changes.
\<close>

definition send ::
  "('k, 'v) db_message \<Rightarrow> ('k, 'v) layered \<Rightarrow> (db_error, unit) result \<times> ('k, 'v) layered" where
  "send msg st =
    (if stopped st then (Inl (Err ThreadGone), st) else (Inr (), st\<lparr>chan := chan st @ [msg]\<rparr>))"

definition poisoned_error :: "writer_failure option \<Rightarrow> db_error option" where
  "poisoned_error f = map_option Poisoned f"

definition layered_insert ::
  "writer_failure option \<Rightarrow> nat \<Rightarrow> tname \<Rightarrow> 'k::linorder \<Rightarrow> 'v \<Rightarrow> ('k, 'v) layered \<Rightarrow>
    (db_error, unit) result \<times> ('k, 'v) layered" where
  "layered_insert seen now t k v st =
    (case poisoned_error seen of
       Some e \<Rightarrow> (Inl (Err e), st)
     | None \<Rightarrow>
        (case insert_impl now (mem_db st) t k v of
           Inl f \<Rightarrow> (Inl f, st)
         | Inr m \<Rightarrow> send (WriteOp (KeyValueInsert t k v)) (st\<lparr>mem_db := m\<rparr>)))"

definition layered_remove ::
  "writer_failure option \<Rightarrow> nat \<Rightarrow> tname \<Rightarrow> 'k::linorder \<Rightarrow> ('k, 'v) layered \<Rightarrow>
    (db_error, unit) result \<times> ('k, 'v) layered" where
  "layered_remove seen now t k st =
    (case poisoned_error seen of
       Some e \<Rightarrow> (Inl (Err e), st)
     | None \<Rightarrow>
        (case remove_impl now (mem_db st) t k of
           Inl f \<Rightarrow> (Inl f, st)
         | Inr m \<Rightarrow> send (WriteOp (KeyRemove t k)) (st\<lparr>mem_db := m\<rparr>)))"

definition layered_clear_table ::
  "writer_failure option \<Rightarrow> tname \<Rightarrow> ('k::linorder, 'v) layered \<Rightarrow>
    (db_error, unit) result \<times> ('k, 'v) layered" where
  "layered_clear_table seen t st =
    (case poisoned_error seen of
       Some e \<Rightarrow> (Inl (Err e), st)
     | None \<Rightarrow>
        (case clear_table_impl (mem_db st) t of
           Inl f \<Rightarrow> (Inl f, st)
         | Inr (m, ks) \<Rightarrow> send (WriteOp (ClearTable t ks)) (st\<lparr>mem_db := m\<rparr>)))"

subsection \<open>Write transactions\<close>

text \<open>
  A transaction holds the cache's write lock from before \<open>StartTxn\<close> is enqueued until it is
  committed or dropped.
\<close>

definition layered_write_txn ::
  "writer_failure option \<Rightarrow> ('k, 'v) layered \<Rightarrow> (db_error, unit) result \<times> ('k, 'v) layered" where
  "layered_write_txn seen st =
    (case poisoned_error seen of
       Some e \<Rightarrow> (Inl (Err e), st)
     | None \<Rightarrow>
        (case send StartTxn st of
           (Inl f, st') \<Rightarrow> (Inl f, st')
         | (Inr (), st') \<Rightarrow> (Inr (), st'\<lparr>write_guard := True\<rparr>)))"

definition tx_insert ::
  "writer_failure option \<Rightarrow> nat \<Rightarrow> tname \<Rightarrow> 'k::linorder \<Rightarrow> 'v \<Rightarrow> ('k, 'v) layered \<Rightarrow>
    (db_error, unit) result \<times> ('k, 'v) layered" where
  "tx_insert seen now t k v st =
    (case poisoned_error seen of
       Some e \<Rightarrow> (Inl (Err e), st)
     | None \<Rightarrow>
        (case insert_impl now (mem_db st) t k v of
           Inl f \<Rightarrow> (Inl f, st)
         | Inr m \<Rightarrow> send (WriteOp (KeyValueInsert t k v)) (st\<lparr>mem_db := m\<rparr>)))"

definition tx_remove ::
  "writer_failure option \<Rightarrow> nat \<Rightarrow> tname \<Rightarrow> 'k::linorder \<Rightarrow> ('k, 'v) layered \<Rightarrow>
    (db_error, unit) result \<times> ('k, 'v) layered" where
  "tx_remove seen now t k st =
    (case poisoned_error seen of
       Some e \<Rightarrow> (Inl (Err e), st)
     | None \<Rightarrow>
        (case remove_impl now (mem_db st) t k of
           Inl f \<Rightarrow> (Inl f, st)
         | Inr m \<Rightarrow> send (WriteOp (KeyRemove t k)) (st\<lparr>mem_db := m\<rparr>)))"

definition tx_clear_table ::
  "writer_failure option \<Rightarrow> tname \<Rightarrow> ('k::linorder, 'v) layered \<Rightarrow>
    (db_error, unit) result \<times> ('k, 'v) layered" where
  "tx_clear_table seen t st =
    (case poisoned_error seen of
       Some e \<Rightarrow> (Inl (Err e), st)
     | None \<Rightarrow>
        (let ks = raw_keys (mem_db st) t in
         case clear_table_impl (mem_db st) t of
           Inl f \<Rightarrow> (Inl f, st)
         | Inr (m, _) \<Rightarrow> send (WriteOp (ClearTable t ks)) (st\<lparr>mem_db := m\<rparr>)))"

definition evict_persistent_batch ::
  "writer_failure option \<Rightarrow> tname \<Rightarrow> 'k::linorder list \<Rightarrow> ('k, 'v) layered \<Rightarrow>
    (db_error, unit) result \<times> ('k, 'v) layered" where
  "evict_persistent_batch seen t ks st =
    (case poisoned_error seen of
       Some e \<Rightarrow> (Inl (Err e), st)
     | None \<Rightarrow>
        if ks = [] then (Inr (), st)
        else send (WriteOp (KeyRemoveBatch t ks))
               (st\<lparr>mem_db := fold (\<lambda>k m. hard_delete m t k) ks (mem_db st)\<rparr>))"

definition tx_commit ::
  "writer_failure option \<Rightarrow> ('k, 'v) layered \<Rightarrow> (db_error, unit) result \<times> ('k, 'v) layered" where
  "tx_commit seen st =
    (case poisoned_error seen of
       Some e \<Rightarrow> (Inl (Err e), st\<lparr>write_guard := False\<rparr>)
     | None \<Rightarrow> (case send CommitTxn st of (r, st') \<Rightarrow> (r, st'\<lparr>write_guard := False\<rparr>)))"

definition tx_drop :: "('k, 'v) layered \<Rightarrow> ('k, 'v) layered" where
  "tx_drop st = st\<lparr>write_guard := False\<rparr>"

text \<open>The barrier of \<open>persist\<close> and \<open>sync_persist\<close>; the caller then waits for reply \<open>i\<close>.\<close>

definition layered_persist ::
  "writer_failure option \<Rightarrow> nat \<Rightarrow> ('k, 'v) layered \<Rightarrow> (db_error, unit) result \<times> ('k, 'v) layered" where
  "layered_persist seen i st =
    (case poisoned_error seen of
       Some e \<Rightarrow> (Inl (Err e), st)
     | None \<Rightarrow> send (CaughtUp i) st)"

section \<open>Point reads\<close>

text \<open>
  A read transaction holds the cache's read lock, so its reads of the cache see one state. The
  argument \<open>cold\<close> answers for the cold tier (the constant \<open>None\<close> when none is attached).
\<close>

definition tx_get ::
  "(tname \<Rightarrow> 'k \<Rightarrow> 'v option) \<Rightarrow> ('k, 'v) layered \<Rightarrow> tname \<Rightarrow> 'k \<Rightarrow> (db_error, 'v option) result" where
  "tx_get cold st t k =
    (case (if is_tombstoned (mem_db st) t k then Inr None
           else (case get_no_marked_check (mem_db st) t k of
                   Inl f \<Rightarrow> Inl f
                 | Inr (Some (_, v)) \<Rightarrow> Inr (Some v)
                 | Inr None \<Rightarrow>
                     if is_clearing (mem_db st) t then Inr None else Inr (bt_get (db st t) k))) of
       Inl f \<Rightarrow> Inl f
     | Inr (Some v) \<Rightarrow> Inr (Some v)
     | Inr None \<Rightarrow> Inr (cold t k))"

text \<open>
  \<open>get\<close> on the database takes the read lock anew for each of its questions to the cache: \<open>s1\<close>, \<open>s2\<close>
  and \<open>s3\<close> are the states in which it asks whether the key is tombstoned, for the row, and whether
  the table is being cleared; \<open>s4\<close> is the state in which it reads the persistent tier.
\<close>

definition layered_get ::
  "(tname \<Rightarrow> 'k \<Rightarrow> 'v option) \<Rightarrow> ('k, 'v) layered \<Rightarrow> ('k, 'v) layered \<Rightarrow> ('k, 'v) layered \<Rightarrow>
    ('k, 'v) layered \<Rightarrow> tname \<Rightarrow> 'k \<Rightarrow> (db_error, 'v option) result" where
  "layered_get cold s1 s2 s3 s4 t k =
    (case (if is_tombstoned (mem_db s1) t k then Inr None
           else (case get_no_marked_check (mem_db s2) t k of
                   Inl f \<Rightarrow> Inl f
                 | Inr (Some (_, v)) \<Rightarrow> Inr (Some v)
                 | Inr None \<Rightarrow>
                     if is_clearing (mem_db s3) t then Inr None else Inr (bt_get (db s4 t) k))) of
       Inl f \<Rightarrow> Inl f
     | Inr (Some v) \<Rightarrow> Inr (Some v)
     | Inr None \<Rightarrow> Inr (cold t k))"

definition layered_contains_key ::
  "(tname \<Rightarrow> 'k \<Rightarrow> 'v option) \<Rightarrow> ('k, 'v) layered \<Rightarrow> tname \<Rightarrow> 'k \<Rightarrow> bool" where
  "layered_contains_key cold st t k \<longleftrightarrow>
    (if is_tombstoned (mem_db st) t k then False
     else if contains_key_impl (mem_db st) t k then True
     else if is_clearing (mem_db st) t then cold t k \<noteq> None
     else if bt_get (db st t) k \<noteq> None then True
     else cold t k \<noteq> None)"

section \<open>Runs\<close>

text \<open>
  The actions of a run that change what the database holds, and the quiet ones: reads (which touch
  the recency of a row), transaction markers, barriers, refused writes, and every step of the
  writer. A call that fails because the writer is gone has already changed the cache. Evictions
  into the cold tier (\<open>evict_persistent_batch\<close>) are not part of a run.
\<close>

datatype ('k, 'v) action = Put tname 'k 'v | Del tname 'k | Clr tname | Quiet

definition accepted :: "(db_error, unit) result \<Rightarrow> ('k, 'v) action \<Rightarrow> ('k, 'v) action" where
  "accepted r a = (case r of Inr _ \<Rightarrow> a | Inl (Err ThreadGone) \<Rightarrow> a | _ \<Rightarrow> Quiet)"

definition latch_seen :: "writer_failure option \<Rightarrow> ('k, 'v) layered \<Rightarrow> bool" where
  "latch_seen seen st \<longleftrightarrow> seen = None \<or> seen = fatal st"

inductive layered_step ::
  "nat \<Rightarrow> ('k::linorder, 'v) layered \<Rightarrow> ('k, 'v) action \<Rightarrow> ('k, 'v) layered \<Rightarrow> bool" for max_size where
  put: "\<not> write_guard st \<Longrightarrow> latch_seen seen st \<Longrightarrow> layered_insert seen now t k v st = (r, st') \<Longrightarrow>
    layered_step max_size st (accepted r (Put t k v)) st'"
| del: "\<not> write_guard st \<Longrightarrow> latch_seen seen st \<Longrightarrow> layered_remove seen now t k st = (r, st') \<Longrightarrow>
    layered_step max_size st (accepted r (Del t k)) st'"
| clr: "\<not> write_guard st \<Longrightarrow> latch_seen seen st \<Longrightarrow> layered_clear_table seen t st = (r, st') \<Longrightarrow>
    layered_step max_size st (accepted r (Clr t)) st'"
| begin_txn: "\<not> write_guard st \<Longrightarrow> latch_seen seen st \<Longrightarrow> layered_write_txn seen st = (r, st') \<Longrightarrow>
    layered_step max_size st Quiet st'"
| txn_put: "write_guard st \<Longrightarrow> latch_seen seen st \<Longrightarrow> tx_insert seen now t k v st = (r, st') \<Longrightarrow>
    layered_step max_size st (accepted r (Put t k v)) st'"
| txn_del: "write_guard st \<Longrightarrow> latch_seen seen st \<Longrightarrow> tx_remove seen now t k st = (r, st') \<Longrightarrow>
    layered_step max_size st (accepted r (Del t k)) st'"
| txn_clr: "write_guard st \<Longrightarrow> latch_seen seen st \<Longrightarrow> tx_clear_table seen t st = (r, st') \<Longrightarrow>
    layered_step max_size st (accepted r (Clr t)) st'"
| commit_txn: "write_guard st \<Longrightarrow> latch_seen seen st \<Longrightarrow> tx_commit seen st = (r, st') \<Longrightarrow>
    layered_step max_size st Quiet st'"
| drop_txn: "write_guard st \<Longrightarrow> layered_step max_size st Quiet (tx_drop st)"
| barrier: "latch_seen seen st \<Longrightarrow> layered_persist seen i st = (r, st') \<Longrightarrow>
    layered_step max_size st Quiet st'"
| read: "layered_step max_size st Quiet (st\<lparr>mem_db := touch_read now (mem_db st) t k\<rparr>)"
| writer: "db_run_step max_size ok st = Some st' \<Longrightarrow> layered_step max_size st Quiet st'"

inductive layered_run ::
  "nat \<Rightarrow> ('k::linorder, 'v) layered \<Rightarrow> ('k, 'v) action list \<Rightarrow> ('k, 'v) layered \<Rightarrow> bool" for max_size where
  start: "layered_run max_size st [] st"
| step: "layered_run max_size st as st' \<Longrightarrow> layered_step max_size st' a st'' \<Longrightarrow>
    layered_run max_size st (as @ [a]) st''"

text \<open>What a run promises: one map per table, changed by the accepted writes in their order.\<close>

type_synonym ('k, 'v) tables = "tname \<Rightarrow> 'k \<Rightarrow> 'v option"

fun spec_step :: "('k, 'v) action \<Rightarrow> ('k, 'v) tables \<Rightarrow> ('k, 'v) tables" where
  "spec_step (Put t k v) m = m(t := (m t)(k \<mapsto> v))"
| "spec_step (Del t k) m = m(t := (m t)(k := None))"
| "spec_step (Clr t) m = m(t := (\<lambda>_. None))"
| "spec_step Quiet m = m"

definition spec_run :: "('k, 'v) action list \<Rightarrow> ('k, 'v) tables \<Rightarrow> ('k, 'v) tables" where
  "spec_run as m = fold spec_step as m"

definition tier_view :: "('k, 'v) tier \<Rightarrow> ('k, 'v) tables" where
  "tier_view d t k = bt_get (d t) k"

end
