(* ===== verification/Layered_Refinement.thy ===== *)
theory Layered_Refinement
  imports Layered_Db
begin

text \<open>
  The layered database as one map per table: the invariant that ties the cache, the persistent tier
  and the operations between them, that every operation keeps it, and what a reader sees. The
  pending operations are those the writer has landed but not released, those of its open
  transaction, and those in the channel. The count of a row is the number of pending operations
  that touch it; a row is what the pending operations make of the persistent tier; a key without a
  row is what the tier holds, or gone while the table is being cleared.
\<close>

section \<open>Pending operations\<close>

fun touches :: "tname \<Rightarrow> 'k \<Rightarrow> ('k, 'v) write_op \<Rightarrow> bool" where
  "touches t k (KeyValueInsert t' k' v) \<longleftrightarrow> t' = t \<and> k' = k"
| "touches t k (KeyRemove t' k') \<longleftrightarrow> t' = t \<and> k' = k"
| "touches t k (KeyRemoveBatch t' ks) \<longleftrightarrow> t' = t \<and> k \<in> set ks"
| "touches t k (ClearTable t' ks) \<longleftrightarrow> t' = t \<and> k \<in> set ks"

fun writes :: "('k, 'v) write_op \<Rightarrow> tname \<Rightarrow> 'k \<Rightarrow> 'v option option" where
  "writes (KeyValueInsert t' k' v) t k = (if t' = t \<and> k' = k then Some (Some v) else None)"
| "writes (KeyRemove t' k') t k = (if t' = t \<and> k' = k then Some None else None)"
| "writes (KeyRemoveBatch t' ks) t k = (if t' = t \<and> k \<in> set ks then Some None else None)"
| "writes (ClearTable t' ks) t k = (if t' = t then Some None else None)"

fun last_write :: "('k, 'v) write_op list \<Rightarrow> tname \<Rightarrow> 'k \<Rightarrow> 'v option option" where
  "last_write [] t k = None"
| "last_write (op # P) t k = (case last_write P t k of Some w \<Rightarrow> Some w | None \<Rightarrow> writes op t k)"

definition overlay :: "('k, 'v) write_op list \<Rightarrow> ('k, 'v) tier \<Rightarrow> tname \<Rightarrow> 'k \<Rightarrow> 'v option" where
  "overlay P d t k = (case last_write P t k of Some w \<Rightarrow> w | None \<Rightarrow> bt_get (d t) k)"

definition touched :: "('k, 'v) write_op list \<Rightarrow> tname \<Rightarrow> 'k \<Rightarrow> bool" where
  "touched P t k \<longleftrightarrow> (\<exists>op\<in>set P. touches t k op)"

definition cleared :: "('k, 'v) write_op list \<Rightarrow> tname \<Rightarrow> bool" where
  "cleared P t \<longleftrightarrow> (\<exists>ks. ClearTable t ks \<in> set P)"

definition in_flight_count :: "('k, 'v) write_op list \<Rightarrow> tname \<Rightarrow> 'k \<Rightarrow> nat" where
  "in_flight_count P t k = length (filter (touches t k) P)"

lemma touched_simps [simp]:
  "\<not> touched [] t k" "touched (op # P) t k \<longleftrightarrow> touches t k op \<or> touched P t k"
  "touched (P @ Q) t k \<longleftrightarrow> touched P t k \<or> touched Q t k"
  by (auto simp: touched_def)

lemma cleared_simps [simp]:
  "\<not> cleared [] t" "cleared (P @ Q) t \<longleftrightarrow> cleared P t \<or> cleared Q t"
  "cleared (op # P) t \<longleftrightarrow> (\<exists>ks. op = ClearTable t ks) \<or> cleared P t"
  by (auto simp: cleared_def)

lemma count_simps [simp]:
  "in_flight_count [] t k = 0"
  "in_flight_count (op # P) t k = (if touches t k op then Suc (in_flight_count P t k) else in_flight_count P t k)"
  "in_flight_count (P @ Q) t k = in_flight_count P t k + in_flight_count Q t k"
  by (simp_all add: in_flight_count_def)

lemma count_touched: "in_flight_count P t k = 0 \<longleftrightarrow> \<not> touched P t k"
  by (auto simp: in_flight_count_def touched_def filter_empty_conv)

lemma last_write_append:
  "last_write (P @ Q) t k = (case last_write Q t k of Some w \<Rightarrow> Some w | None \<Rightarrow> last_write P t k)"
  by (induction P) (auto split: option.splits)

lemma touches_writes: "touches t k op \<Longrightarrow> writes op t k \<noteq> None"
  by (cases op) auto

lemma touched_last_write: "touched P t k \<Longrightarrow> last_write P t k \<noteq> None"
proof (induction P)
  case Nil
  then show ?case by simp
next
  case (Cons op P)
  show ?case
  proof (cases "last_write P t k")
    case None
    with Cons have "touches t k op" by auto
    with None touches_writes [of t k op] show ?thesis by simp
  qed simp
qed

lemma writes_untouched:
  "\<not> touches t k op \<Longrightarrow> writes op t k = (if \<exists>ks. op = ClearTable t ks then Some None else None)"
  by (cases op) auto

lemma last_write_untouched:
  "\<not> touched P t k \<Longrightarrow> last_write P t k = (if cleared P t then Some None else None)"
  by (induction P) (auto simp: writes_untouched)

lemma last_write_split:
  assumes "last_write P t k \<noteq> None"
  shows "touched P t k \<or> (cleared P t \<and> last_write P t k = Some None)"
  using assms last_write_untouched [of P t k] by (auto split: if_splits)

section \<open>The invariant\<close>

definition sound_op :: "('k, 'v) write_op \<Rightarrow> bool" where
  "sound_op op \<longleftrightarrow> (case op of KeyRemoveBatch _ _ \<Rightarrow> False | ClearTable _ ks \<Rightarrow> distinct ks | _ \<Rightarrow> True)"

definition live_value :: "'v store_entry \<Rightarrow> 'v option" where
  "live_value e = (if tombstoned e then None else entry_value e)"

text \<open>
  \<open>U\<close> are the operations that landed in the tier and are not released yet, \<open>L\<close> the ones that have not
  landed. A row of a table with a pending clear was there when the clear was issued or is touched by
  a later operation, so it is not settled.
\<close>

definition cache_inv ::
  "('k::linorder, 'v) store \<Rightarrow> ('k, 'v) tier \<Rightarrow> ('k, 'v) write_op list \<Rightarrow> ('k, 'v) write_op list \<Rightarrow> bool" where
  "cache_inv m d U L \<longleftrightarrow>
    mem_ok m \<and> (\<forall>t. bt_inv (d t)) \<and> list_all sound_op (U @ L) \<and>
    (\<forall>t k. in_flight_of m t k = in_flight_count (U @ L) t k) \<and>
    (\<forall>t k e. row_of m t k = Some e \<longrightarrow> live_value e = overlay (U @ L) d t k) \<and>
    (\<forall>t. is_clearing m t \<longrightarrow> cleared (U @ L) t) \<and>
    (\<forall>t k. row_of m t k = None \<longrightarrow> \<not> is_clearing m t \<longrightarrow> cleared (U @ L) t \<longrightarrow> bt_get (d t) k = None) \<and>
    (\<forall>P t ks Q k. U @ L = P @ ClearTable t ks # Q \<longrightarrow> row_of m t k \<noteq> None \<longrightarrow> k \<in> set ks \<or> touched Q t k) \<and>
    (\<forall>t k w. last_write U t k = Some w \<longrightarrow> \<not> touched L t k \<longrightarrow> bt_get (d t) k = w)"

lemma cache_invI:
  assumes "mem_ok m" "\<And>t. bt_inv (d t)" "list_all sound_op (U @ L)"
    and "\<And>t k. in_flight_of m t k = in_flight_count (U @ L) t k"
    and "\<And>t k e. row_of m t k = Some e \<Longrightarrow> live_value e = overlay (U @ L) d t k"
    and "\<And>t. is_clearing m t \<Longrightarrow> cleared (U @ L) t"
    and "\<And>t k. row_of m t k = None \<Longrightarrow> \<not> is_clearing m t \<Longrightarrow> cleared (U @ L) t \<Longrightarrow> bt_get (d t) k = None"
    and "\<And>P t ks Q k. U @ L = P @ ClearTable t ks # Q \<Longrightarrow> row_of m t k \<noteq> None \<Longrightarrow> k \<in> set ks \<or> touched Q t k"
    and "\<And>t k w. last_write U t k = Some w \<Longrightarrow> \<not> touched L t k \<Longrightarrow> bt_get (d t) k = w"
  shows "cache_inv m d U L"
  unfolding cache_inv_def using assms by blast

lemma cache_invD:
  assumes "cache_inv m d U L"
  shows "mem_ok m" "bt_inv (d t)" "list_all sound_op (U @ L)"
    and "in_flight_of m t k = in_flight_count (U @ L) t k"
    and "row_of m t k = Some e \<Longrightarrow> live_value e = overlay (U @ L) d t k"
    and "is_clearing m t \<Longrightarrow> cleared (U @ L) t"
    and "row_of m t k = None \<Longrightarrow> \<not> is_clearing m t \<Longrightarrow> cleared (U @ L) t \<Longrightarrow> bt_get (d t) k = None"
    and "U @ L = P @ ClearTable t ks # Q \<Longrightarrow> row_of m t k \<noteq> None \<Longrightarrow> k \<in> set ks \<or> touched Q t k"
    and "last_write U t k = Some w \<Longrightarrow> \<not> touched L t k \<Longrightarrow> bt_get (d t) k = w"
  using assms unfolding cache_inv_def by blast+

text \<open>What a reader sees.\<close>

definition cache_view :: "('k, 'v) store \<Rightarrow> ('k, 'v) tier \<Rightarrow> tname \<Rightarrow> 'k \<Rightarrow> 'v option" where
  "cache_view m d t k =
    (case row_of m t k of
       Some e \<Rightarrow> live_value e
     | None \<Rightarrow> if is_clearing m t then None else bt_get (d t) k)"

lemma row_None_untouched: "cache_inv m d U L \<Longrightarrow> row_of m t k = None \<Longrightarrow> \<not> touched (U @ L) t k"
  using cache_invD(4) [of m d U L t k] count_touched [of "U @ L" t k] by (simp add: in_flight_of_def)

lemma settled_row:
  assumes inv: "cache_inv m d U L" and e: "row_of m t k = Some e" "in_flight e = 0"
  shows "\<not> touched (U @ L) t k" and "\<not> cleared (U @ L) t"
proof -
  have "in_flight_count (U @ L) t k = 0"
    using cache_invD(4) [OF inv, of t k] e by (simp add: in_flight_of_def)
  then show no: "\<not> touched (U @ L) t k" using count_touched [of "U @ L" t k] by simp
  show "\<not> cleared (U @ L) t"
  proof
    assume "cleared (U @ L) t"
    then obtain ks where "ClearTable t ks \<in> set (U @ L)" unfolding cleared_def by blast
    then obtain P Q where s: "U @ L = P @ ClearTable t ks # Q" by (metis split_list)
    from cache_invD(8) [OF inv s, of k] e(1) have "touches t k (ClearTable t ks :: ('a, 'b) write_op) \<or> touched Q t k" by simp
    with no show False unfolding s by simp
  qed
qed

lemma cache_view_overlay:
  assumes inv: "cache_inv m d U L"
  shows "cache_view m d t k = overlay (U @ L) d t k"
proof (cases "row_of m t k")
  case (Some e)
  with cache_invD(5) [OF inv Some] show ?thesis by (simp add: cache_view_def)
next
  case None
  note lw = last_write_untouched [OF row_None_untouched [OF inv None]]
  show ?thesis
    using cache_invD(6) [OF inv, of t] cache_invD(7) [OF inv None]
    by (auto simp: cache_view_def None overlay_def lw)
qed

section \<open>The steps keep the invariant\<close>

text \<open>A write to one key: the row is put and its operation enqueued.\<close>

lemma push_row:
  assumes inv: "cache_inv m d U L" and tb: "bt_get m t = Some tb"
    and touches: "\<And>t' k'. touches t' k' op \<longleftrightarrow> t' = t \<and> k' = k"
    and wr: "\<And>t' k'. writes op t' k' = (if t' = t \<and> k' = k then Some (live_value e) else None)"
    and op: "sound_op op" "\<And>t' ks. op \<noteq> ClearTable t' ks"
    and count: "unat (in_flight e) = Suc (in_flight_of m t k)"
    and live: "\<not> tombstoned e \<Longrightarrow> entry_value e \<noteq> None"
  shows "cache_inv (put_row t k e m) d U (L @ [op])"
proof -
  note row_of = row_put [OF cache_invD(1) [OF inv] tb, of k e]
  note D = cache_invD [OF inv]
  have lw: "last_write (U @ L @ [op]) t' k' =
      (if t' = t \<and> k' = k then Some (live_value e) else last_write (U @ L) t' k')" for t' k'
    using last_write_append [of "U @ L" "[op]" t' k'] wr [of t' k'] by simp
  show ?thesis
  proof (rule cache_invI)
    show "mem_ok (put_row t k e m)" by (rule mem_ok_put [OF D(1) live])
    show "list_all sound_op (U @ L @ [op])" using D(3) op(1) by simp
    show "in_flight_of (put_row t k e m) t' k' = in_flight_count (U @ L @ [op]) t' k'" for t' k'
      using D(4) [of t' k'] D(4) [of t k] count touches [of t' k']
      by (auto simp: in_flight_of_def row_of)
    show "live_value e' = overlay (U @ L @ [op]) d t' k'"
      if "row_of (put_row t k e m) t' k' = Some e'" for t' k' e'
      using that D(5) [of t' k' e'] by (auto simp: row_of overlay_def lw split: if_splits)
    show "cleared (U @ L @ [op]) t'" if "is_clearing (put_row t k e m) t'" for t'
      using that D(6) [of t'] by auto
    show "bt_get (d t') k' = None" if "row_of (put_row t k e m) t' k' = None"
      "\<not> is_clearing (put_row t k e m) t'" "cleared (U @ L @ [op]) t'" for t' k'
      using that D(7) [of t' k'] op(2) by (auto simp: row_of split: if_splits)
    show "k' \<in> set ks \<or> touched Q t' k'"
      if s: "U @ L @ [op] = P @ ClearTable t' ks # Q" and r: "row_of (put_row t k e m) t' k' \<noteq> None" for P t' ks Q k'
    proof -
      from s op(2) obtain Q' where Q: "Q = Q' @ [op]" and s': "U @ L = P @ ClearTable t' ks # Q'"
        by (cases Q rule: rev_cases) (auto simp flip: append_assoc)
      from D(8) [OF s', of k'] r touches [of t' k'] show ?thesis by (auto simp: row_of Q split: if_splits)
    qed
    show "bt_get (d t') k' = w" if "last_write U t' k' = Some w" "\<not> touched (L @ [op]) t' k'" for t' k' w
      using that D(9) [of t' k' w] by simp
  qed (rule D(2))
qed

text \<open>A clear: every row of the table becomes a tombstone and the table is being cleared.\<close>

lemma push_clear:
  assumes inv: "cache_inv m d U L" and clear: "clear_table_impl m t = Inr (m', ks)"
  shows "cache_inv m' d U (L @ [ClearTable t ks])"
proof -
  note D = cache_invD [OF inv]
  from clear_table_impl_effect [OF D(1) clear] obtain tb where tb: "bt_get m t = Some tb"
    and ks: "ks = raw_keys m t" and ok: "mem_ok m'"
    and clearing: "\<And>t'. is_clearing m' t' = (t' = t \<or> is_clearing m t')"
    and other: "\<And>t' k. t' \<noteq> t \<Longrightarrow> row_of m' t' k = row_of m t' k"
    and none: "\<And>k. row_of m' t k = None \<longleftrightarrow> row_of m t k = None"
    and tomb: "\<And>k e. row_of m t k = Some e \<Longrightarrow> \<exists>e'. row_of m' t k = Some e' \<and> tombstoned e' \<and>
      unat (in_flight e') = Suc (unat (in_flight e))"
    by metis
  let ?op = "ClearTable t ks"
  have lw: "last_write (U @ L @ [?op]) t' k' = (if t' = t then Some None else last_write (U @ L) t' k')" for t' k'
    using last_write_append [of "U @ L" "[?op]" t' k'] by simp
  show ?thesis
  proof (rule cache_invI)
    show "list_all sound_op (U @ L @ [?op])"
      using D(3) distinct_raw_keys [OF D(1), of t] by (simp add: sound_op_def ks)
    show "in_flight_of m' t' k' = in_flight_count (U @ L @ [?op]) t' k'" for t' k'
    proof (cases "t' = t")
      case True
      show ?thesis
      proof (cases "row_of m t k'")
        case None
        with none [of k'] D(4) [of t k'] raw_keys_row [of k' m t] show ?thesis
          by (simp add: True in_flight_of_def ks)
      next
        case (Some e)
        with tomb [OF Some] D(4) [of t k'] raw_keys_row [of k' m t] show ?thesis
          by (auto simp: True in_flight_of_def ks)
      qed
    next
      case False
      with D(4) [of t' k'] other [of t' k'] show ?thesis by (simp add: in_flight_of_def)
    qed
    show "live_value e' = overlay (U @ L @ [?op]) d t' k'" if "row_of m' t' k' = Some e'" for t' k' e'
    proof (cases "t' = t")
      case True
      with that none [of k'] obtain e where "row_of m t k' = Some e" by auto
      with tomb [OF this] that True show ?thesis by (auto simp: live_value_def overlay_def lw)
    next
      case False
      with D(5) [of t' k' e'] that other [of t' k'] show ?thesis by (simp add: overlay_def lw)
    qed
    show "cleared (U @ L @ [?op]) t'" if "is_clearing m' t'" for t'
      using that D(6) [of t'] by (auto simp: clearing)
    show "bt_get (d t') k' = None" if "row_of m' t' k' = None" "\<not> is_clearing m' t'" "cleared (U @ L @ [?op]) t'" for t' k'
      using that D(7) [of t' k'] other [of t' k'] by (auto simp: clearing)
    show "k' \<in> set ks' \<or> touched Q t' k'"
      if s: "U @ L @ [?op] = P @ ClearTable t' ks' # Q" and r: "row_of m' t' k' \<noteq> None" for P t' ks' Q k'
    proof (cases Q rule: rev_cases)
      case Nil
      with s have "ks' = ks" "t' = t" by (auto simp flip: append_assoc)
      with r none [of k'] raw_keys_row [of k' m t] show ?thesis by (simp add: ks)
    next
      case (snoc Q' x)
      with s have s': "U @ L = P @ ClearTable t' ks' # Q'" and x: "x = ?op" by (auto simp flip: append_assoc)
      have "row_of m t' k' \<noteq> None" using r none [of k'] other [of t' k'] by (cases "t' = t") auto
      from D(8) [OF s' this] show ?thesis by (auto simp: snoc)
    qed
    show "bt_get (d t') k' = w" if "last_write U t' k' = Some w" "\<not> touched (L @ [?op]) t' k'" for t' k' w
      using that D(9) [of t' k' w] by simp
  qed (rule ok D(2))+
qed

text \<open>Operations land in the persistent tier.\<close>

lemma land_overlay:
  assumes "\<And>t k. last_write C t k = None \<Longrightarrow> bt_get (d' t) k = bt_get (d t) k"
  shows "overlay (C @ L) d' t k = overlay (C @ L) d t k"
  using assms [of t k] by (auto simp: overlay_def last_write_append split: option.splits)

lemma land:
  assumes inv: "cache_inv m d [] (C @ L)" and d': "\<And>t. bt_inv (d' t)"
    and same: "\<And>t k. last_write C t k = None \<Longrightarrow> bt_get (d' t) k = bt_get (d t) k"
    and landed: "\<And>t k w. last_write C t k = Some w \<Longrightarrow> \<not> touched L t k \<Longrightarrow> bt_get (d' t) k = w"
  shows "cache_inv m d' C L"
proof -
  note D = cache_invD [OF inv, simplified]
  note ov = land_overlay [OF same]
  show ?thesis
  proof (rule cache_invI)
    show "bt_get (d' t) k = None" if r: "row_of m t k = None" "\<not> is_clearing m t" "cleared (C @ L) t" for t k
    proof -
      have no: "\<not> touched C t k" "\<not> touched L t k" using row_None_untouched [OF inv r(1)] by auto
      show ?thesis
      proof (cases "cleared C t")
        case True
        with landed [of t k None] last_write_untouched [OF no(1)] no(2) show ?thesis by simp
      next
        case False
        with same [of t k] last_write_untouched [OF no(1)] D(7) [OF r(1,2)] r(3) show ?thesis by simp
      qed
    qed
  qed (use D d' landed ov in \<open>simp_all\<close>)
qed

text \<open>The release of a landed operation.\<close>

lemma settle_overlay:
  assumes inv: "cache_inv m d (op # U) L"
  shows "overlay (U @ L) d t k = overlay (op # U @ L) d t k"
proof (cases "last_write (U @ L) t k")
  case None
  then have L: "\<not> touched L t k" and U: "last_write U t k = None"
    using touched_last_write [of L t k] by (auto simp: last_write_append split: option.splits)
  show ?thesis
  proof (cases "writes op t k")
    case (Some w)
    with U L cache_invD(9) [OF inv, of t k w] None show ?thesis by (simp add: overlay_def)
  qed (simp add: overlay_def None)
qed (simp add: overlay_def)

lemma settle_core:
  assumes inv: "cache_inv m d (op # U) L" and ok: "mem_ok m'"
    and none: "\<And>t k. row_of m' t k = None \<longleftrightarrow> row_of m t k = None"
    and live: "\<And>t k e'. row_of m' t k = Some e' \<Longrightarrow> \<exists>e. row_of m t k = Some e \<and> live_value e' = live_value e"
    and count: "\<And>t k. in_flight_of m t k = (if touches t k op then Suc (in_flight_of m' t k) else in_flight_of m' t k)"
    and clearing: "\<And>t. is_clearing m' t \<longleftrightarrow> is_clearing m t \<and> (\<forall>ks. op \<noteq> ClearTable t ks)"
  shows "cache_inv m' d U L"
proof -
  note D = cache_invD [OF inv]
  note ov = settle_overlay [OF inv]
  show ?thesis
  proof (rule cache_invI)
    show "list_all sound_op (U @ L)" using D(3) by simp
    show "in_flight_of m' t k = in_flight_count (U @ L) t k" for t k
      using D(4) [of t k] count [of t k] by (auto split: if_splits)
    show "live_value e' = overlay (U @ L) d t k" if "row_of m' t k = Some e'" for t k e'
      using live [OF that] D(5) [of t k] ov [of t k] by auto
    show "cleared (U @ L) t" if "is_clearing m' t" for t
      using that D(6) [of t] by (auto simp: clearing)
    show "bt_get (d t) k = None" if r: "row_of m' t k = None" "\<not> is_clearing m' t" "cleared (U @ L) t" for t k
    proof (cases "is_clearing m t")
      case False
      with D(7) [of t k] r none [of t k] show ?thesis by simp
    next
      case True
      with r(2) have "cleared (op # U) t" by (auto simp: clearing)
      moreover have "\<not> touched (op # U) t k" "\<not> touched L t k"
        using row_None_untouched [OF inv, of t k] r(1) none [of t k] by auto
      ultimately show ?thesis using last_write_untouched [of "op # U" t k] D(9) [of t k None] by simp
    qed
    show "k \<in> set ks \<or> touched Q t k" if "U @ L = P @ ClearTable t ks # Q" "row_of m' t k \<noteq> None" for P t ks Q k
      using D(8) [of "op # P" t ks Q k] that none [of t k] by simp
    show "bt_get (d t) k = w" if "last_write U t k = Some w" "\<not> touched L t k" for t k w
      using D(9) [of t k w] that by simp
  qed (rule ok D(2))+
qed

lemma in_flight_of_row: "in_flight_of m t k \<noteq> 0 \<Longrightarrow> \<exists>e. row_of m t k = Some e \<and> in_flight e \<noteq> 0"
  by (cases "row_of m t k") (auto simp: in_flight_of_def)

lemma settle_key:
  assumes inv: "cache_inv m d (op # U) L" and op: "\<And>t' k'. touches t' k' op \<longleftrightarrow> t' = t \<and> k' = k"
    and no_clear: "\<And>t' ks. op \<noteq> ClearTable t' ks"
  shows "\<exists>m' h'. on_op_applied t k (m, h) = Some (m', h') \<and> cache_inv m' d U L"
proof -
  note D = cache_invD [OF inv]
  have "in_flight_of m t k \<noteq> 0" using D(4) [of t k] op [of t k] by simp
  from in_flight_of_row [OF this] obtain e where e: "row_of m t k = Some e" "in_flight e \<noteq> 0" by blast
  obtain e' m' h' where r: "on_op_applied t k (m, h) = Some (m', h')" and m': "m' = put_row t k e' m"
    and ok: "mem_ok m'" and e': "tombstoned e' = tombstoned e" "entry_value e' = entry_value e"
      "unat (in_flight e) = Suc (unat (in_flight e'))"
    by (rule on_op_applied_effect [OF D(1) e, of h])
  from row_Some_table [OF e(1)] obtain tb where tb: "bt_get m t = Some tb" by blast
  note row_of = row_put [OF D(1) tb, of k e', folded m']
  have lv: "live_value e' = live_value e" using e' by (simp add: live_value_def)
  have cl: "is_clearing m' t' = is_clearing m t'" for t' by (simp add: m')
  have "cache_inv m' d U L"
    by (rule settle_core [OF inv ok])
      (use e e' lv no_clear in \<open>auto simp: row_of op cl in_flight_of_def split: if_splits\<close>)
  with r show ?thesis by blast
qed

lemma settle_clear:
  assumes inv: "cache_inv m d (ClearTable t ks # U) L"
  shows "\<exists>m' h'. on_clear_applied t ks (m, h) = Some (m', h') \<and> cache_inv m' d U L"
proof (cases "bt_get m t")
  case None
  note D = cache_invD [OF inv]
  from None have no: "row_of m t k = None" "\<not> is_clearing m t" for k by (simp_all add: row_of_def is_clearing_def)
  have "k \<notin> set ks" for k using row_None_untouched [OF inv no(1)] by simp
  then have "cache_inv m d U L"
    by (intro settle_core [OF inv D(1)]) (use no(2) in auto)
  with None show ?thesis by (simp add: on_clear_applied_def)
next
  case (Some tb)
  note D = cache_invD [OF inv]
  let ?m = "bt_update t (\<lambda>tb. tb\<lparr>clearing := False\<rparr>) m"
  have row_of: "row_of ?m t' k = row_of m t' k" for t' k by (simp add: row_of_def bt_get_update split: option.split)
  have clearing: "is_clearing ?m t' \<longleftrightarrow> is_clearing m t' \<and> t' \<noteq> t" for t'
    by (simp add: is_clearing_def bt_get_update split: option.split)
  have ok: "mem_ok ?m" by (rule mem_ok_update [OF D(1)]) (simp add: table_ok_def)
  have dist: "distinct ks" using D(3) by (simp add: sound_op_def)
  have rows: "\<exists>e. row_of ?m t k = Some e \<and> in_flight e \<noteq> 0" if "k \<in> set ks" for k
  proof -
    have "in_flight_of m t k \<noteq> 0" using D(4) [of t k] that by simp
    from in_flight_of_row [OF this] show ?thesis by (simp add: row_of)
  qed
  from release_keys_effect [OF ok dist rows, of h] obtain m' h' where
    r: "release_keys t ks (?m, h) = Some (m', h')" and ok': "mem_ok m'"
    and cl: "\<And>t'. is_clearing m' t' = is_clearing ?m t'"
    and other: "\<And>t' k. t' \<noteq> t \<or> k \<notin> set ks \<Longrightarrow> row_of m' t' k = row_of m t' k"
    and those: "\<And>k e. k \<in> set ks \<Longrightarrow> row_of m t k = Some e \<Longrightarrow> \<exists>e'. row_of m' t k = Some e' \<and>
      tombstoned e' = tombstoned e \<and> entry_value e' = entry_value e \<and>
      unat (in_flight e) = Suc (unat (in_flight e'))"
    unfolding row_of by metis
  have none: "row_of m' t' k = None \<longleftrightarrow> row_of m t' k = None" for t' k
    using other [of t' k] those [of k] rows [of k] by (cases "t' = t \<and> k \<in> set ks") (auto simp: row_of)
  have "cache_inv m' d U L"
  proof (rule settle_core [OF inv ok' none])
    show "\<exists>e. row_of m t' k = Some e \<and> live_value e' = live_value e" if "row_of m' t' k = Some e'" for t' k e'
    proof (cases "t' = t \<and> k \<in> set ks")
      case True
      with rows [of k] obtain e where e: "row_of m t k = Some e" by (auto simp: row_of)
      with those [OF _ e] True that show ?thesis by (auto simp: live_value_def)
    next
      case False
      with other [of t' k] have "row_of m t' k = Some e'" using that by simp
      then show ?thesis by blast
    qed
    show "in_flight_of m t' k = (if touches t' k (ClearTable t ks :: ('a, 'b) write_op)
        then Suc (in_flight_of m' t' k) else in_flight_of m' t' k)" for t' k
      using other [of t' k] those [of k] rows [of k]
      by (cases "t' = t \<and> k \<in> set ks") (auto simp: row_of in_flight_of_def)
    show "is_clearing m' t' \<longleftrightarrow> is_clearing m t' \<and> (\<forall>ks'. ClearTable t ks \<noteq> (ClearTable t' ks' :: ('a, 'b) write_op))" for t'
      by (auto simp: cl clearing)
  qed
  with r Some show ?thesis by (simp add: on_clear_applied_def)
qed

lemma settle:
  assumes "cache_inv m d (op # U) L"
  shows "\<exists>m' h'. on_applied op (m, h) = Some (m', h') \<and> cache_inv m' d U L"
proof (cases op)
  case (KeyValueInsert t k v)
  with settle_key [OF assms, of t k h] show ?thesis by (auto simp: on_applied_def)
next
  case (KeyRemove t k)
  with settle_key [OF assms, of t k h] show ?thesis by (auto simp: on_applied_def)
next
  case (KeyRemoveBatch t ks)
  with cache_invD(3) [OF assms] show ?thesis by (simp add: sound_op_def)
next
  case (ClearTable t ks)
  with settle_clear [of m d t ks U L h] assms show ?thesis by (simp add: on_applied_def)
qed

text \<open>Eviction, and a read that refreshes the recency of a row.\<close>

lemma evict_keeps:
  assumes inv: "cache_inv m d U L" and ev: "evicts m m'"
  shows "cache_inv m' d U L"
proof -
  note D = cache_invD [OF inv]
  note row_of = evicts_row [OF ev]
  have sub: "row_of m' t k \<noteq> None \<Longrightarrow> row_of m' t k = row_of m t k" for t k using row_of [of t k] by auto
  show ?thesis
  proof (rule cache_invI)
    show "mem_ok m'" using D(1) ev by (simp add: evicts_def)
    show "in_flight_of m' t k = in_flight_count (U @ L) t k" for t k
      using D(4) [of t k] row_of [of t k] by (auto simp: in_flight_of_def)
    show "bt_get (d t) k = None" if r: "row_of m' t k = None" "\<not> is_clearing m' t" "cleared (U @ L) t" for t k
      using row_of [of t k] settled_row(2) [OF inv, of t k] D(7) [of t k] r ev by (auto simp: evicts_def)
    show "live_value e = overlay (U @ L) d t k" if "row_of m' t k = Some e" for t k e
      using sub [of t k] D(5) [of t k e] that by simp
    show "cleared (U @ L) t" if "is_clearing m' t" for t using D(6) [of t] ev that by (simp add: evicts_def)
    show "k \<in> set ks \<or> touched Q t k" if "U @ L = P @ ClearTable t ks # Q" "row_of m' t k \<noteq> None" for P t ks Q k
      using D(8) [OF that(1), of k] sub [of t k] that(2) by simp
  qed (rule D(2) D(3) D(9); assumption?)+
qed

lemma touch_keeps:
  assumes inv: "cache_inv m d U L"
  shows "cache_inv (touch_read now m t k) d U L"
proof -
  note D = cache_invD [OF inv]
  show ?thesis
  proof (cases "row_of m t k")
    case None
    with inv show ?thesis by (simp add: touch_read_def)
  next
    case (Some e)
    show ?thesis
    proof (cases "tombstoned e")
      case True
      with Some inv show ?thesis by (simp add: touch_read_def)
    next
      case False
      from row_Some_table [OF Some] obtain tb where tb: "bt_get m t = Some tb" by blast
      let ?m = "put_row t k (touch_approximately now e) m"
      note row_of = row_put [OF D(1) tb, of k "touch_approximately now e"]
      have ok: "mem_ok ?m"
        using mem_ok_live [OF D(1) Some] by (intro mem_ok_put [OF D(1)]) simp
      have "cache_inv ?m d U L"
      proof (rule cache_invI)
        show "in_flight_of ?m t' k' = in_flight_count (U @ L) t' k'" for t' k'
          using D(4) [of t' k'] Some by (auto simp: in_flight_of_def row_of)
        show "live_value e' = overlay (U @ L) d t' k'" if "row_of ?m t' k' = Some e'" for t' k' e'
          using that D(5) [of t' k'] Some by (auto simp: row_of live_value_def split: if_splits)
        show "bt_get (d t') k' = None" if "row_of ?m t' k' = None" "\<not> is_clearing ?m t'" "cleared (U @ L) t'" for t' k'
          using that D(7) [of t' k'] by (auto simp: row_of split: if_splits)
        show "k' \<in> set ks \<or> touched Q t' k'" if "U @ L = P @ ClearTable t' ks # Q" "row_of ?m t' k' \<noteq> None" for P t' ks Q k'
          using that D(8) [OF that(1), of k'] Some by (auto simp: row_of split: if_splits)
      qed (use D ok in \<open>simp_all\<close>)
      with Some False show ?thesis by (simp add: touch_read_def)
    qed
  qed
qed

end
