(* ===== verification/Layered_Reads.thy ===== *)
theory Layered_Reads
  imports Layered_Refinement
begin

text \<open>
  Runs of the layered database: the invariant of the cache along every interleaving of producers,
  readers and the writer, up to and past a failure of the persistent tier, and the properties of
  point reads, of the writer and of the barrier.
\<close>

section \<open>The invariant of a run\<close>

fun ops_of :: "('k, 'v) db_message list \<Rightarrow> ('k, 'v) write_op list" where
  "ops_of [] = []"
| "ops_of (msg # q) = (case msg of WriteOp op \<Rightarrow> op # ops_of q | _ \<Rightarrow> ops_of q)"

lemma ops_of_append [simp]: "ops_of (p @ q) = ops_of p @ ops_of q"
  by (induction p) (auto split: db_message.split)

definition txn_ok :: "('k::linorder, 'v) layered \<Rightarrow> bool" where
  "txn_ok st \<longleftrightarrow>
    (case txn st of
       None \<Rightarrow> committed_ops st = []
     | Some d \<Rightarrow> unsettled st = [] \<and> (\<forall>t. bt_inv (d t)) \<and>
         (\<forall>t k. bt_get (d t) k = overlay (committed_ops st) (db st) t k))"

definition removing_ok :: "('k, 'v) layered \<Rightarrow> bool" where
  "removing_ok st \<longleftrightarrow>
    (case removing st of
       None \<Rightarrow> True
     | Some b \<Rightarrow> unsettled st = [] \<and> \<not> evict_due st \<and> txn st = None \<and>
         (\<exists>t k q. chan st = WriteOp (KeyRemove t k) # q \<and> (b \<longrightarrow> touched (ops_of q) t k)))"

definition layered_inv :: "('k::linorder, 'v) layered \<Rightarrow> bool" where
  "layered_inv st \<longleftrightarrow>
    cache_inv (mem_db st) (db st) (unsettled st) (committed_ops st @ ops_of (chan st)) \<and>
    txn_ok st \<and> removing_ok st"

text \<open>Once the database is poisoned, or the writer has shut down, the persistent tier and the
  settled rows no longer change.\<close>

definition frozen :: "('k::linorder, 'v) layered \<Rightarrow> bool" where
  "frozen st \<longleftrightarrow> mem_ok (mem_db st) \<and> (\<forall>t. bt_inv (db st t)) \<and> (stopped st \<or> (unsettled st = [] \<and> \<not> evict_due st))"

definition run_inv :: "('k::linorder, 'v) layered \<Rightarrow> bool" where
  "run_inv st \<longleftrightarrow> (if fatal st = None \<and> \<not> stopped st then layered_inv st else frozen st)"

definition view :: "('k, 'v) layered \<Rightarrow> ('k, 'v) tables" where
  "view st = cache_view (mem_db st) (db st)"

lemma run_inv_store: "run_inv st \<Longrightarrow> mem_ok (mem_db st)"
  by (auto simp: run_inv_def layered_inv_def frozen_def dest: cache_invD(1) split: if_splits)

lemma run_inv_tier: "run_inv st \<Longrightarrow> bt_inv (db st t)"
  by (auto simp: run_inv_def layered_inv_def frozen_def dest: cache_invD(2) split: if_splits)

lemma view_overlay:
  "layered_inv st \<Longrightarrow> view st t k = overlay (unsettled st @ committed_ops st @ ops_of (chan st)) (db st) t k"
  by (simp add: view_def layered_inv_def cache_view_overlay)

section \<open>Producers\<close>

lemma view_put_row:
  assumes "mem_ok m" "bt_get m t = Some tb"
  shows "cache_view (put_row t k e m) d t' k' = (if t' = t \<and> k' = k then live_value e else cache_view m d t' k')"
  by (simp add: cache_view_def row_put [OF assms])

lemma view_insert:
  assumes "mem_ok m" "insert_impl now m t k v = Inr m'"
  shows "mem_ok m'" and "cache_view m' d = spec_step (Put t k v) (cache_view m d)"
proof -
  from assms(2) obtain tb e where e: "bt_get m t = Some tb" "m' = put_row t k e m"
    "entry_value e = Some v" "\<not> tombstoned e"
    by (rule insert_impl_effect)
  then show "mem_ok m'" by (auto intro: mem_ok_put [OF assms(1)])
  show "cache_view m' d = spec_step (Put t k v) (cache_view m d)"
    using e by (simp add: fun_eq_iff view_put_row [OF assms(1) e(1)] live_value_def)
qed

lemma view_remove:
  assumes "mem_ok m" "remove_impl now m t k = Inr m'"
  shows "mem_ok m'" and "cache_view m' d = spec_step (Del t k) (cache_view m d)"
proof -
  from assms(2) obtain tb e where e: "bt_get m t = Some tb" "m' = put_row t k e m" "tombstoned e"
    by (rule remove_impl_effect)
  then show "mem_ok m'" by (auto intro: mem_ok_put [OF assms(1)])
  show "cache_view m' d = spec_step (Del t k) (cache_view m d)"
    using e by (simp add: fun_eq_iff view_put_row [OF assms(1) e(1)] live_value_def)
qed

lemma view_clear:
  assumes "mem_ok m" "clear_table_impl m t = Inr (m', ks)"
  shows "mem_ok m'" and "cache_view m' d = spec_step (Clr t) (cache_view m d)"
proof -
  from clear_table_impl_effect [OF assms] have ok: "mem_ok m'"
    and cl: "\<And>t'. is_clearing m' t' = (t' = t \<or> is_clearing m t')"
    and other: "\<And>t' k. t' \<noteq> t \<Longrightarrow> row_of m' t' k = row_of m t' k"
    and none: "\<And>k. row_of m' t k = None \<longleftrightarrow> row_of m t k = None"
    and tomb: "\<And>k e. row_of m t k = Some e \<Longrightarrow> \<exists>e'. row_of m' t k = Some e' \<and> tombstoned e' \<and>
      unat (in_flight e') = Suc (unat (in_flight e))"
    by metis+
  show "mem_ok m'" by (rule ok)
  have "cache_view m' d t k = None" for k
  proof (cases "row_of m t k")
    case None
    with none [of k] cl [of t] show ?thesis by (simp add: cache_view_def)
  next
    case (Some e)
    with tomb [OF Some] show ?thesis by (auto simp: cache_view_def live_value_def)
  qed
  moreover have "cache_view m' d t' k = cache_view m d t' k" if "t' \<noteq> t" for t' k
    using that by (simp add: cache_view_def other cl)
  ultimately show "cache_view m' d = spec_step (Clr t) (cache_view m d)" by (auto simp: fun_eq_iff)
qed

text \<open>
  What the producers share: the cache changes, keeping what the invariant says with the new
  operation pending, and the operation is sent.
\<close>

lemma push_message:
  assumes inv: "run_inv st" and m: "mem_ok m"
    and push: "\<And>U L. cache_inv (mem_db st) (db st) U L \<Longrightarrow> cache_inv m (db st) U (L @ [op])"
    and sent: "send (WriteOp op) (st\<lparr>mem_db := m\<rparr>) = (r, st')"
  shows "run_inv st'" and "mem_db st' = m" and "db st' = db st" and "r = Inr () \<or> r = Inl (Err ThreadGone)"
proof -
  have st': "st' = (if stopped st then st\<lparr>mem_db := m\<rparr> else st\<lparr>mem_db := m, chan := chan st @ [WriteOp op]\<rparr>)"
    and "r = Inr () \<or> r = Inl (Err ThreadGone)"
    using sent by (auto simp: send_def split: if_splits)
  then show "r = Inr () \<or> r = Inl (Err ThreadGone)" "mem_db st' = m" "db st' = db st" by simp_all
  show "run_inv st'"
  proof (cases "fatal st = None \<and> \<not> stopped st")
    case True
    with inv have "layered_inv st" by (simp add: run_inv_def)
    then have "layered_inv st'"
      using True push [of "unsettled st" "committed_ops st @ ops_of (chan st)"]
      by (auto simp: st' layered_inv_def txn_ok_def removing_ok_def split: option.splits)
    with True show ?thesis by (simp add: run_inv_def st')
  next
    case False
    with inv m show ?thesis by (auto simp: run_inv_def frozen_def st')
  qed
qed

lemma insert_step:
  assumes inv: "run_inv st" and op: "layered_insert seen now t k v st = (r, st')"
  shows "run_inv st' \<and> view st' = spec_step (accepted r (Put t k v)) (view st)"
proof (cases "poisoned_error seen")
  case (Some e)
  with op inv show ?thesis by (auto simp: layered_insert_def poisoned_error_def accepted_def)
next
  case None
  show ?thesis
  proof (cases "insert_impl now (mem_db st) t k v")
    case (Inl f)
    moreover from Inl have "f \<noteq> Err ThreadGone" by (auto simp: insert_impl_def split: option.splits)
    ultimately show ?thesis using op None inv
      by (auto simp: layered_insert_def accepted_def split: fault.splits db_error.splits)
  next
    case (Inr m)
    with op None have sent: "send (WriteOp (KeyValueInsert t k v)) (st\<lparr>mem_db := m\<rparr>) = (r, st')"
      by (simp add: layered_insert_def)
    note v = view_insert [OF run_inv_store [OF inv] Inr]
    from Inr obtain tb e where e: "bt_get (mem_db st) t = Some tb" "m = put_row t k e (mem_db st)"
      "entry_value e = Some v" "\<not> tombstoned e" "unat (in_flight e) = Suc (in_flight_of (mem_db st) t k)"
      by (rule insert_impl_effect)
    have "cache_inv m (db st) U (L @ [KeyValueInsert t k v])"
      if "cache_inv (mem_db st) (db st) U L" for U L
      unfolding e(2) by (rule push_row [OF that e(1)]) (use e in \<open>auto simp: sound_op_def live_value_def\<close>)
    note P = push_message [OF inv v(1) this sent]
    from P(1,4) v(2) [of "db st"] show ?thesis by (auto simp: view_def P(2,3) accepted_def)
  qed
qed

lemma remove_step:
  assumes inv: "run_inv st" and op: "layered_remove seen now t k st = (r, st')"
  shows "run_inv st' \<and> view st' = spec_step (accepted r (Del t k)) (view st)"
proof (cases "poisoned_error seen")
  case (Some e)
  with op inv show ?thesis by (auto simp: layered_remove_def poisoned_error_def accepted_def)
next
  case None
  show ?thesis
  proof (cases "remove_impl now (mem_db st) t k")
    case (Inl f)
    moreover from Inl have "f \<noteq> Err ThreadGone" by (auto simp: remove_impl_def split: option.splits)
    ultimately show ?thesis using op None inv
      by (auto simp: layered_remove_def accepted_def split: fault.splits db_error.splits)
  next
    case (Inr m)
    with op None have sent: "send (WriteOp (KeyRemove t k)) (st\<lparr>mem_db := m\<rparr>) = (r, st')"
      by (simp add: layered_remove_def)
    note v = view_remove [OF run_inv_store [OF inv] Inr]
    from Inr obtain tb e where e: "bt_get (mem_db st) t = Some tb" "m = put_row t k e (mem_db st)"
      "tombstoned e" "unat (in_flight e) = Suc (in_flight_of (mem_db st) t k)"
      by (rule remove_impl_effect)
    have "cache_inv m (db st) U (L @ [KeyRemove t k])"
      if "cache_inv (mem_db st) (db st) U L" for U L
      unfolding e(2) by (rule push_row [OF that e(1)]) (use e in \<open>auto simp: sound_op_def live_value_def\<close>)
    note P = push_message [OF inv v(1) this sent]
    from P(1,4) v(2) [of "db st"] show ?thesis by (auto simp: view_def P(2,3) accepted_def)
  qed
qed

lemma clear_step:
  assumes inv: "run_inv st" and op: "layered_clear_table seen t st = (r, st')"
  shows "run_inv st' \<and> view st' = spec_step (accepted r (Clr t)) (view st)"
proof (cases "poisoned_error seen")
  case (Some e)
  with op inv show ?thesis by (auto simp: layered_clear_table_def poisoned_error_def accepted_def)
next
  case None
  show ?thesis
  proof (cases "clear_table_impl (mem_db st) t")
    case (Inl f)
    moreover from Inl have "f \<noteq> Err ThreadGone" by (auto simp: clear_table_impl_def split: option.splits)
    ultimately show ?thesis using op None inv
      by (auto simp: layered_clear_table_def accepted_def split: fault.splits db_error.splits)
  next
    case (Inr mk)
    obtain m ks where mk: "mk = (m, ks)" by (cases mk)
    note clr = Inr [unfolded mk]
    with op None have sent: "send (WriteOp (ClearTable t ks)) (st\<lparr>mem_db := m\<rparr>) = (r, st')"
      by (simp add: layered_clear_table_def)
    note v = view_clear [OF run_inv_store [OF inv] clr]
    note P = push_message [OF inv v(1) push_clear [OF _ clr] sent]
    from P(1,4) v(2) [of "db st"] show ?thesis by (auto simp: view_def P(2,3) accepted_def)
  qed
qed

text \<open>The methods of a write transaction do to the state what those of the database do.\<close>

lemma tx_insert_eq: "tx_insert = layered_insert"
  by (simp add: fun_eq_iff tx_insert_def layered_insert_def)

lemma tx_remove_eq: "tx_remove = layered_remove"
  by (simp add: fun_eq_iff tx_remove_def layered_remove_def)

lemma clear_table_keys: "clear_table_impl m t = Inr (m', ks) \<Longrightarrow> ks = raw_keys m t"
  by (auto simp: clear_table_impl_def raw_keys_def split: option.splits)

lemma tx_clear_table_eq: "tx_clear_table = layered_clear_table"
  by (auto simp: fun_eq_iff tx_clear_table_def layered_clear_table_def Let_def
      split: option.split sum.split dest: clear_table_keys)

lemma guard_irrelevant [simp]:
  "run_inv (st\<lparr>write_guard := b\<rparr>) = run_inv st" "view (st\<lparr>write_guard := b\<rparr>) = view st"
  by (simp_all add: run_inv_def layered_inv_def txn_ok_def removing_ok_def frozen_def view_def
      cong: option.case_cong)

lemma quiet_message:
  assumes inv: "run_inv st" and sent: "send msg st = (r, st')" and msg: "ops_of [msg] = []"
  shows "run_inv st' \<and> view st' = view st"
proof (cases "stopped st")
  case True
  with sent inv show ?thesis by (simp add: send_def)
next
  case False
  with sent have st': "st' = st\<lparr>chan := chan st @ [msg]\<rparr>" by (simp add: send_def)
  have "removing_ok st \<Longrightarrow> removing_ok st'"
    by (auto simp: removing_ok_def st' split: option.splits)
  then have "layered_inv st \<Longrightarrow> layered_inv st'"
    using msg by (simp add: st' layered_inv_def txn_ok_def cong: option.case_cong)
  with inv show ?thesis by (auto simp: st' run_inv_def frozen_def view_def)
qed

lemma begin_step:
  assumes "run_inv st" "layered_write_txn seen st = (r, st')"
  shows "run_inv st' \<and> view st' = view st"
proof (cases "poisoned_error seen")
  case None
  obtain r0 st0 where s0: "send StartTxn st = (r0, st0)" by (cases "send StartTxn st")
  have q: "run_inv st0 \<and> view st0 = view st" by (rule quiet_message [OF assms(1) s0]) simp
  have "st' = st0 \<or> st' = st0\<lparr>write_guard := True\<rparr>"
    using assms(2) by (cases r0) (simp_all add: layered_write_txn_def None s0 split: unit.splits)
  with q show ?thesis by (elim disjE) simp_all
next
  case (Some e)
  with assms show ?thesis by (simp add: layered_write_txn_def)
qed

lemma commit_step:
  assumes "run_inv st" "tx_commit seen st = (r, st')"
  shows "run_inv st' \<and> view st' = view st"
proof (cases "poisoned_error seen")
  case None
  obtain r0 st0 where s0: "send CommitTxn st = (r0, st0)" by (cases "send CommitTxn st")
  have q: "run_inv st0 \<and> view st0 = view st" by (rule quiet_message [OF assms(1) s0]) simp
  have "st' = st0\<lparr>write_guard := False\<rparr>" using assms(2) by (simp add: tx_commit_def None s0)
  with q show ?thesis by simp
next
  case (Some e)
  with assms(2) have "st' = st\<lparr>write_guard := False\<rparr>" by (simp add: tx_commit_def)
  with assms(1) show ?thesis by simp
qed

lemma barrier_step:
  assumes "run_inv st" "layered_persist seen i st = (r, st')"
  shows "run_inv st' \<and> view st' = view st"
proof (cases "poisoned_error seen")
  case None
  with assms have "send (CaughtUp i) st = (r, st')" by (simp add: layered_persist_def)
  from quiet_message [OF assms(1) this] show ?thesis by simp
next
  case (Some e)
  with assms show ?thesis by (simp add: layered_persist_def)
qed

lemma read_step:
  assumes inv: "run_inv st"
  shows "run_inv (st\<lparr>mem_db := touch_read now (mem_db st) t k\<rparr>) \<and>
    view (st\<lparr>mem_db := touch_read now (mem_db st) t k\<rparr>) = view st"
proof -
  have ok: "mem_ok (mem_db st)" by (rule run_inv_store [OF inv])
  show ?thesis
  proof (cases "row_of (mem_db st) t k")
    case None
    then have "touch_read now (mem_db st) t k = mem_db st" by (simp add: touch_read_def)
    with inv show ?thesis by simp
  next
    case (Some e)
    from row_Some_table [OF Some] obtain tb where tb: "bt_get (mem_db st) t = Some tb" by blast
    have "cache_view (touch_read now (mem_db st) t k) d = cache_view (mem_db st) d" for d
      using Some by (auto simp: fun_eq_iff touch_read_def row_put [OF ok tb] live_value_def
          cache_view_def)
    moreover have "mem_ok (touch_read now (mem_db st) t k)"
      using Some ok mem_ok_live [OF ok Some] by (auto simp: touch_read_def intro: mem_ok_put [OF ok])
    ultimately show ?thesis
      using inv touch_keeps [of "mem_db st" "db st" "unsettled st" _ now t k]
      by (auto simp: run_inv_def layered_inv_def txn_ok_def removing_ok_def frozen_def view_def
          cong: option.case_cong)
  qed
qed

section \<open>The writer\<close>

lemma bt_get_tier:
  assumes "\<And>t. bt_inv (d t)"
  shows "bt_get (tier_insert t k v d t') k' = (if t' = t \<and> k' = k then Some v else bt_get (d t') k')"
    and "bt_get (tier_remove t k d t') k' = (if t' = t \<and> k' = k then None else bt_get (d t') k')"
    and "bt_get (tier_clear t d t') k' = (if t' = t then None else bt_get (d t') k')"
    and "bt_inv (tier_insert t k v d t')" "bt_inv (tier_remove t k d t')" "bt_inv (tier_clear t d t')"
  using assms
  by (simp_all add: tier_insert_def tier_remove_def tier_clear_def bt_get_insert bt_get_remove)

lemma apply_txn_effect:
  assumes "sound_op op" "\<And>t. bt_inv (d t)" "apply_txn ok op d = (d', None)"
  shows "bt_inv (d' t)" and "bt_get (d' t) k = (case writes op t k of Some w \<Rightarrow> w | None \<Rightarrow> bt_get (d t) k)"
  using assms(1,3)
  by (cases op; auto simp: apply_txn_def sound_op_def bt_get_tier [OF assms(2)] split: if_splits)+

lemma apply_direct_effect:
  assumes "sound_op op" "\<And>t. bt_inv (d t)" "apply_direct ok m live op d = (d', None)"
  shows "bt_inv (d' t)" and "writes op t k = None \<Longrightarrow> bt_get (d' t) k = bt_get (d t) k"
    and "writes op t k = Some w \<Longrightarrow> \<not> (live \<and> op = KeyRemove t k) \<Longrightarrow> bt_get (d' t) k = w"
  using assms(1,3) assms(2) [of t]
  by (cases op; auto simp: apply_direct_def sound_op_def bt_get_tier [OF assms(2)] split: if_splits)+

lemma apply_direct_fails:
  assumes "sound_op op" "apply_direct ok m live op d = (d', Some f)"
  shows "d' = d"
  using assms by (cases op) (auto simp: apply_direct_def sound_op_def split: if_splits)

lemma overlay_snoc:
  "overlay (C @ [op]) d t k = (case writes op t k of Some w \<Rightarrow> w | None \<Rightarrow> overlay C d t k)"
  by (simp add: overlay_def last_write_append split: option.split)

lemma poisons:
  "fatal st' \<noteq> None \<Longrightarrow> mem_db st' = mem_db st \<Longrightarrow> db st' = db st \<Longrightarrow> mem_ok (mem_db st) \<Longrightarrow>
    (\<And>t. bt_inv (db st t)) \<Longrightarrow> unsettled st' = [] \<Longrightarrow> \<not> evict_due st' \<Longrightarrow> run_inv st' \<and> view st' = view st"
  by (auto simp: run_inv_def frozen_def view_def)

lemma tripped [simp]:
  "\<exists>g. fatal (trip f st) = Some g" "mem_db (trip f st) = mem_db st" "db (trip f st) = db st"
  "unsettled (trip f st) = unsettled st" "evict_due (trip f st) = evict_due st"
  by (simp_all add: trip_def split: option.split)

lemma same_view:
  assumes "layered_inv st" "layered_inv st'"
    and "\<And>t k. overlay (unsettled st' @ committed_ops st' @ ops_of (chan st')) (db st') t k =
      overlay (unsettled st @ committed_ops st @ ops_of (chan st)) (db st) t k"
  shows "view st' = view st"
  using assms by (simp add: fun_eq_iff view_overlay)

lemma release_step:
  assumes inv: "layered_inv st" and run: "fatal st = None" "\<not> stopped st" and op: "unsettled st = op # ops"
  shows "\<exists>m h st'. on_applied op (mem_db st, eviction_heap st) = Some (m, h) \<and>
    st' = st\<lparr>mem_db := m, eviction_heap := h, unsettled := ops\<rparr> \<and> run_inv st' \<and> view st' = view st"
proof -
  let ?L = "committed_ops st @ ops_of (chan st)"
  from inv op have cinv: "cache_inv (mem_db st) (db st) (op # ops) ?L" by (simp add: layered_inv_def)
  from settle [OF cinv, of "eviction_heap st"] obtain m h where
    r: "on_applied op (mem_db st, eviction_heap st) = Some (m, h)" and inv': "cache_inv m (db st) ops ?L"
    by blast
  define st' where "st' = st\<lparr>mem_db := m, eviction_heap := h, unsettled := ops\<rparr>"
  from inv op inv' have "layered_inv st'"
    by (auto simp: st'_def layered_inv_def txn_ok_def removing_ok_def split: option.splits)
  moreover from this have "view st' = view st"
    using settle_overlay [OF cinv] by (intro same_view [OF inv]) (simp_all add: st'_def op)
  moreover have "fatal st' = None" "\<not> stopped st'" using run by (simp_all add: st'_def)
  ultimately show ?thesis using r st'_def by (auto simp: run_inv_def)
qed

lemma evict_step:
  assumes inv: "layered_inv st"
  shows "layered_inv (evict_and_log max_size b st) \<and> view (evict_and_log max_size b st) = view st"
proof (cases b)
  case True
  with inv show ?thesis by (simp add: evict_and_log_def)
next
  case False
  obtain m h stats where r: "evict_if_needed max_size (mem_db st, eviction_heap st) = ((m, h), stats)"
    by (metis prod.exhaust)
  let ?st = "st\<lparr>mem_db := m, eviction_heap := h\<rparr>"
  have "layered_inv ?st"
    using inv evict_keeps [OF _ evict_if_needed_evicts [OF r], of "db st"]
    by (simp add: layered_inv_def txn_ok_def removing_ok_def cong: option.case_cong)
  moreover from this have "view ?st = view st" by (intro same_view [OF inv]) simp_all
  ultimately show ?thesis by (simp add: evict_and_log_def False r)
qed

lemma check_step:
  assumes inv: "layered_inv st" and idle: "unsettled st = []" "\<not> evict_due st"
    and msg: "chan st = WriteOp (KeyRemove t k) # q" and txn: "txn st = None"
  shows "layered_inv (st\<lparr>removing := Some (contains_key_impl (mem_db st) t k)\<rparr>)"
proof -
  have none: "committed_ops st = []" using inv txn by (simp add: layered_inv_def txn_ok_def)
  have "touched (ops_of q) t k" if live: "contains_key_impl (mem_db st) t k"
  proof -
    from inv msg idle none have cinv: "cache_inv (mem_db st) (db st) [] (KeyRemove t k # ops_of q)"
      by (simp add: layered_inv_def)
    from live obtain e where e: "row_of (mem_db st) t k = Some e" "\<not> tombstoned e"
      by (auto simp: contains_key_impl_def split: option.splits)
    from mem_ok_live [OF cache_invD(1) [OF cinv] e] have "live_value e \<noteq> None"
      using e(2) by (simp add: live_value_def)
    with cache_invD(5) [OF cinv e(1)] have "last_write (ops_of q) t k \<noteq> None"
      "last_write (ops_of q) t k \<noteq> Some None"
      by (auto simp: overlay_def split: option.splits)
    with last_write_split [of "ops_of q" t k] show ?thesis by blast
  qed
  with inv idle msg txn none show ?thesis
    by (simp add: layered_inv_def txn_ok_def removing_ok_def cong: option.case_cong)
qed

lemma direct_step:
  assumes inv: "layered_inv st" and run: "fatal st = None" "\<not> stopped st"
    and idle: "unsettled st = []" "\<not> evict_due st" and msg: "chan st = WriteOp op # q" and txn: "txn st = None"
  shows "run_inv (apply_op ok op (st\<lparr>chan := q\<rparr>)) \<and> view (apply_op ok op (st\<lparr>chan := q\<rparr>)) = view st"
proof -
  let ?live = "removing st = Some True"
  have none: "committed_ops st = []" using inv txn by (simp add: layered_inv_def txn_ok_def)
  from inv msg idle none have cinv: "cache_inv (mem_db st) (db st) [] ([op] @ ops_of q)"
    by (simp add: layered_inv_def)
  note D = cache_invD [OF cinv]
  have sound: "sound_op op" using D(3) by simp
  obtain d' f where r: "apply_direct ok (mem_db st) ?live op (db st) = (d', f)" by fastforce
  show ?thesis
  proof (cases f)
    case (Some g)
    have d': "d' = db st" using apply_direct_fails [OF sound] r Some by simp
    show ?thesis using r Some txn idle D(1,2) by (intro poisons) (simp_all add: apply_op_def d')
  next
    case None
    note eff = apply_direct_effect [OF sound D(2) r [unfolded None]]
    have live: "touched (ops_of q) t k" if "?live" "op = KeyRemove t k" for t k
      using inv that msg by (auto simp: layered_inv_def removing_ok_def)
    have cinv': "cache_inv (mem_db st) d' [op] (ops_of q)"
    proof (rule land [OF cinv])
      show "bt_inv (d' t)" for t by (rule eff(1))
      show "bt_get (d' t) k = bt_get (db st t) k" if "last_write [op] t k = None" for t k
        using that eff(2) by simp
      show "bt_get (d' t) k = w" if "last_write [op] t k = Some w" "\<not> touched (ops_of q) t k" for t k w
        using that eff(3) [of t k w] live [of t k] by auto
    qed
    define st' where "st' = st\<lparr>chan := q, db := d', removing := None, unsettled := [op], evict_due := True\<rparr>"
    have ap: "apply_op ok op (st\<lparr>chan := q\<rparr>) = st'"
      using r None txn by (simp add: apply_op_def st'_def)
    have inv': "layered_inv st'"
      using cinv' none txn by (simp add: st'_def layered_inv_def txn_ok_def removing_ok_def)
    have "overlay ([op] @ ops_of q) d' t k = overlay ([op] @ ops_of q) (db st) t k" for t k
      by (rule land_overlay) (use eff(2) in simp)
    then have "view st' = view st"
      by (intro same_view [OF inv inv']) (simp add: st'_def none idle msg)
    with inv' run show ?thesis by (simp add: ap run_inv_def) (simp add: st'_def)
  qed
qed

lemma in_txn_step:
  assumes inv: "layered_inv st" and run: "fatal st = None" "\<not> stopped st"
    and idle: "unsettled st = []" "\<not> evict_due st" and msg: "chan st = WriteOp op # q" and txn: "txn st = Some d"
  shows "run_inv (apply_op ok op (st\<lparr>chan := q\<rparr>)) \<and> view (apply_op ok op (st\<lparr>chan := q\<rparr>)) = view st"
proof -
  from inv msg idle have cinv: "cache_inv (mem_db st) (db st) [] (committed_ops st @ op # ops_of q)"
    by (simp add: layered_inv_def)
  note D = cache_invD [OF cinv]
  have sound: "sound_op op" using D(3) by simp
  have d: "bt_inv (d t)" "bt_get (d t) k = overlay (committed_ops st) (db st) t k" for t k
    using inv txn by (simp_all add: layered_inv_def txn_ok_def)
  obtain d' f where r: "apply_txn ok op d = (d', f)" by fastforce
  show ?thesis
  proof (cases f)
    case (Some g)
    show ?thesis using r Some txn idle D(1,2) by (intro poisons) (simp_all add: apply_op_def)
  next
    case None
    note eff = apply_txn_effect [OF sound d(1) r [unfolded None]]
    define st' where "st' = st\<lparr>chan := q, txn := Some d', committed_ops := committed_ops st @ [op]\<rparr>"
    have ap: "apply_op ok op (st\<lparr>chan := q\<rparr>) = st'"
      using r None txn by (simp add: apply_op_def st'_def)
    have no_rem: "removing st = None" using inv txn by (auto simp: layered_inv_def removing_ok_def split: option.splits)
    have inv': "layered_inv st'"
      using cinv idle eff d no_rem
      by (simp add: st'_def layered_inv_def txn_ok_def removing_ok_def overlay_snoc split: option.split)
    have "view st' = view st"
      by (intro same_view [OF inv inv']) (simp add: st'_def idle msg)
    with inv' run show ?thesis by (simp add: ap run_inv_def) (simp add: st'_def)
  qed
qed

lemma start_step:
  assumes inv: "layered_inv st" and run: "fatal st = None" "\<not> stopped st"
    and idle: "unsettled st = []" "\<not> evict_due st" and msg: "chan st = StartTxn # q"
  shows "run_inv (handle_message max_size ok StartTxn (st\<lparr>chan := q\<rparr>)) \<and>
    view (handle_message max_size ok StartTxn (st\<lparr>chan := q\<rparr>)) = view st"
proof -
  note D = cache_invD [of "mem_db st" "db st" "unsettled st" "committed_ops st @ ops_of (chan st)"]
  have store: "mem_ok (mem_db st)" and tier: "bt_inv (db st t)" for t
    using inv D(1,2) by (simp_all add: layered_inv_def)
  show ?thesis
  proof (cases "txn st = None \<and> ok 0")
    case False
    then show ?thesis
      by (intro poisons) (use store tier idle in \<open>auto simp: handle_message_def split: option.split\<close>)
  next
    case True
    define st' where "st' = st\<lparr>chan := q, txn := Some (db st)\<rparr>"
    have h: "handle_message max_size ok StartTxn (st\<lparr>chan := q\<rparr>) = st'"
      using True by (simp add: handle_message_def st'_def)
    have none: "committed_ops st = []" using inv True by (simp add: layered_inv_def txn_ok_def)
    have rem: "removing st = None"
      using inv msg by (auto simp: layered_inv_def removing_ok_def split: option.splits)
    have inv': "layered_inv st'"
      using inv msg idle none tier rem
      by (simp add: st'_def layered_inv_def txn_ok_def removing_ok_def overlay_def)
    have "view st' = view st" by (intro same_view [OF inv inv']) (simp add: st'_def msg)
    with inv' run show ?thesis by (simp add: h run_inv_def) (simp add: st'_def)
  qed
qed

lemma commit_message_step:
  assumes inv: "layered_inv st" and run: "fatal st = None" "\<not> stopped st"
    and idle: "unsettled st = []" "\<not> evict_due st" and msg: "chan st = CommitTxn # q"
  shows "run_inv (handle_message max_size ok CommitTxn (st\<lparr>chan := q\<rparr>)) \<and>
    view (handle_message max_size ok CommitTxn (st\<lparr>chan := q\<rparr>)) = view st"
proof -
  from inv msg idle have cinv: "cache_inv (mem_db st) (db st) [] (committed_ops st @ ops_of q)"
    by (simp add: layered_inv_def)
  note D = cache_invD [OF cinv]
  show ?thesis
  proof (cases "txn st \<noteq> None \<and> ok 0")
    case False
    then show ?thesis
      by (intro poisons) (use D(1,2) idle in \<open>auto simp: handle_message_def split: option.split\<close>)
  next
    case True
    then obtain d where txn: "txn st = Some d" by blast
    have d: "bt_inv (d t)" "bt_get (d t) k = overlay (committed_ops st) (db st) t k" for t k
      using inv txn by (simp_all add: layered_inv_def txn_ok_def)
    have rem: "removing st = None"
      using inv msg by (auto simp: layered_inv_def removing_ok_def split: option.splits)
    define st' where "st' = st\<lparr>chan := q, txn := None, db := d, unsettled := committed_ops st,
      committed_ops := [], evict_due := True\<rparr>"
    have h: "handle_message max_size ok CommitTxn (st\<lparr>chan := q\<rparr>) = st'"
      using True txn by (simp add: handle_message_def st'_def)
    have same: "bt_get (d t) k = bt_get (db st t) k" if "last_write (committed_ops st) t k = None" for t k
      using that d by (simp add: overlay_def)
    have "bt_get (d t) k = w" if "last_write (committed_ops st) t k = Some w" for t k w
      using d(2) [of t k] that by (simp add: overlay_def)
    then have "cache_inv (mem_db st) d (committed_ops st) (ops_of q)"
      by (intro land [OF cinv d(1) same])
    then have inv': "layered_inv st'"
      using rem by (simp add: st'_def layered_inv_def txn_ok_def removing_ok_def)
    have "view st' = view st"
      by (intro same_view [OF inv inv']) (simp add: st'_def msg idle land_overlay [OF same])
    with inv' run show ?thesis by (simp add: h run_inv_def) (simp add: st'_def)
  qed
qed

lemma caught_up_step:
  assumes inv: "layered_inv st" and run: "fatal st = None" "\<not> stopped st" and msg: "chan st = CaughtUp i # q"
  shows "run_inv (handle_message max_size ok (CaughtUp i) (st\<lparr>chan := q\<rparr>)) \<and>
    view (handle_message max_size ok (CaughtUp i) (st\<lparr>chan := q\<rparr>)) = view st"
proof -
  let ?q = "st\<lparr>chan := q\<rparr>"
  have rem: "removing st = None"
    using inv msg by (auto simp: layered_inv_def removing_ok_def split: option.splits)
  have q: "layered_inv ?q"
    using inv msg rem by (simp add: layered_inv_def txn_ok_def removing_ok_def cong: option.case_cong)
  note ev = evict_step [OF q, of max_size "\<not> Option.is_none (txn st)"]
  have kept: "layered_inv (st\<lparr>replies := r\<rparr>) = layered_inv st" "view (st\<lparr>replies := r\<rparr>) = view st"
    for st :: "('a, 'b) layered" and r
    by (simp_all add: layered_inv_def txn_ok_def removing_ok_def view_def cong: option.case_cong)
  have "view ?q = view st" by (simp add: view_def)
  moreover have "fatal (evict_and_log max_size b s) = fatal s" "stopped (evict_and_log max_size b s) = stopped s"
    for b and s :: "('a, 'b) layered"
    by (simp_all add: evict_and_log_def split: prod.split)
  ultimately show ?thesis using ev run by (simp add: handle_message_def Let_def run_inv_def kept)
qed

lemma shutdown_step:
  assumes "layered_inv st"
  shows "run_inv (st\<lparr>chan := q, stopped := True\<rparr>) \<and> view (st\<lparr>chan := q, stopped := True\<rparr>) = view st"
  using assms by (auto simp: run_inv_def frozen_def layered_inv_def view_def dest: cache_invD(1,2))

lemma message_step:
  assumes inv: "layered_inv st" and run: "fatal st = None" "\<not> stopped st"
    and idle: "unsettled st = []" "\<not> evict_due st" and msg: "chan st = msg # q"
  shows "run_inv (handle_message max_size ok msg (st\<lparr>chan := q\<rparr>)) \<and>
    view (handle_message max_size ok msg (st\<lparr>chan := q\<rparr>)) = view st"
proof (cases msg)
  case (WriteOp op)
  with direct_step [OF inv run idle] in_txn_step [OF inv run idle] msg show ?thesis
    by (cases "txn st") (simp_all add: handle_message_def)
next
  case Shutdown
  with shutdown_step [OF inv, of q] show ?thesis by (simp add: handle_message_def)
qed (use start_step [OF inv run idle] commit_message_step [OF inv run idle]
    caught_up_step [OF inv run] msg in simp_all)

text \<open>Every step of the writer returns, keeps the invariant, and changes nothing a reader sees.\<close>

lemma writer_step:
  assumes inv: "run_inv st"
  shows "\<exists>st'. db_run_step max_size ok st = Some st' \<and> run_inv st' \<and> view st' = view st"
proof (cases "stopped st \<or> fatal st \<noteq> None")
  case True
  show ?thesis
  proof (cases "stopped st")
    case True
    with inv show ?thesis by (simp add: db_run_step_def)
  next
    case False
    with True obtain err where err: "fatal st = Some err" by auto
    with False inv have f: "mem_ok (mem_db st)" "unsettled st = []" "\<not> evict_due st"
      "\<And>t. bt_inv (db st t)"
      by (simp_all add: run_inv_def frozen_def)
    show ?thesis
    proof (cases "chan st")
      case Nil
      with f False inv show ?thesis by (simp add: db_run_step_def)
    next
      case (Cons msg q)
      let ?st = "poisoned_message err msg (st\<lparr>chan := q\<rparr>)"
      have "db_run_step max_size ok st = Some ?st" using f False err Cons by (simp add: db_run_step_def)
      moreover have "run_inv ?st \<and> view ?st = view st"
        by (rule poisons) (use f err in \<open>auto simp: poisoned_message_def split: db_message.split\<close>)
      ultimately show ?thesis by blast
    qed
  qed
next
  case False
  then have run: "fatal st = None" "\<not> stopped st" by simp_all
  with inv have linv: "layered_inv st" by (simp add: run_inv_def)
  show ?thesis
  proof (cases "unsettled st")
    case (Cons op ops)
    with release_step [OF linv run Cons] run show ?thesis by (auto simp: db_run_step_def)
  next
    case Nil
    show ?thesis
    proof (cases "evict_due st")
      case True
      have kept: "layered_inv (st\<lparr>evict_due := False\<rparr>)" "view (st\<lparr>evict_due := False\<rparr>) = view st"
        if "layered_inv st" for st :: "('a, 'b) layered"
        using that by (auto simp: layered_inv_def txn_ok_def removing_ok_def view_def split: option.splits)
      have "fatal (evict_and_log max_size b s) = fatal s" "stopped (evict_and_log max_size b s) = stopped s"
        for b and s :: "('a, 'b) layered"
        by (simp_all add: evict_and_log_def split: prod.split)
      with evict_step [OF linv, of max_size False] kept run Nil True show ?thesis
        by (simp add: db_run_step_def run_inv_def)
    next
      case idle: False
      show ?thesis
      proof (cases "chan st")
        case Nil
        with \<open>unsettled st = []\<close> idle run inv show ?thesis by (simp add: db_run_step_def)
      next
        case (Cons msg q)
        show ?thesis
        proof (cases "checks_cache msg st")
          case None
          with message_step [OF linv run \<open>unsettled st = []\<close> idle Cons] \<open>unsettled st = []\<close> idle run Cons
          show ?thesis by (simp add: db_run_step_def)
        next
          case (Some tk)
          obtain t k where tk: "tk = (t, k)" by (cases tk)
          with Some have msg: "msg = WriteOp (KeyRemove t k)" and txn: "txn st = None"
            by (auto simp: checks_cache_def split: db_message.splits write_op.splits option.splits)
          let ?st = "st\<lparr>removing := Some (contains_key_impl (mem_db st) t k)\<rparr>"
          have "layered_inv ?st" by (rule check_step [OF linv \<open>unsettled st = []\<close> idle _ txn]) (simp add: Cons msg)
          with Some tk \<open>unsettled st = []\<close> idle run Cons show ?thesis
            by (simp add: db_run_step_def run_inv_def view_def)
        qed
      qed
    qed
  qed
qed

section \<open>Runs\<close>

lemma step_view:
  assumes "run_inv st" "layered_step max_size st a st'"
  shows "run_inv st' \<and> view st' = spec_step a (view st)"
  using assms(2)
proof cases
  case (put seen now t k v r)
  with insert_step [OF assms(1)] show ?thesis by blast
next
  case (del seen now t k r)
  with remove_step [OF assms(1)] show ?thesis by blast
next
  case (clr seen t r)
  with clear_step [OF assms(1)] show ?thesis by blast
next
  case (begin_txn seen r)
  with begin_step [OF assms(1) begin_txn(4)] show ?thesis by simp
next
  case (txn_put seen now t k v r)
  with insert_step [OF assms(1), of seen now t k v] show ?thesis unfolding tx_insert_eq by blast
next
  case (txn_del seen now t k r)
  with remove_step [OF assms(1), of seen now t k] show ?thesis unfolding tx_remove_eq by blast
next
  case (txn_clr seen t r)
  with clear_step [OF assms(1), of seen t] show ?thesis unfolding tx_clear_table_eq by blast
next
  case (commit_txn seen r)
  with commit_step [OF assms(1) commit_txn(4)] show ?thesis by simp
next
  case drop_txn
  with assms(1) show ?thesis by (simp add: tx_drop_def)
next
  case (barrier seen i r)
  with barrier_step [OF assms(1) barrier(3)] show ?thesis by simp
next
  case (read now t k)
  with read_step [OF assms(1), of now t k] show ?thesis by simp
next
  case (writer ok)
  with writer_step [OF assms(1), of max_size ok] show ?thesis by auto
qed

lemma run_view:
  "layered_run max_size st as st' \<Longrightarrow> run_inv st \<Longrightarrow> run_inv st' \<and> view st' = spec_run as (view st)"
proof (induction rule: layered_run.induct)
  case (start st)
  then show ?case by (simp add: spec_run_def)
next
  case (step st as st' a st'')
  with step_view [of st' max_size a st''] show ?case by (simp add: spec_run_def)
qed

lemma opened_tables:
  "mem_ok m \<Longrightarrow> (\<And>t k. row_of m t k = None) \<Longrightarrow> (\<And>t. \<not> is_clearing m t) \<Longrightarrow>
    mem_ok (fold open_table ts m) \<and> (\<forall>t k. row_of (fold open_table ts m) t k = None) \<and>
    (\<forall>t. \<not> is_clearing (fold open_table ts m) t)"
proof (induction ts arbitrary: m)
  case Nil
  then show ?case by simp
next
  case (Cons t ts)
  have inv: "bt_inv m" using Cons.prems(1) by (simp add: mem_ok_def)
  have "table_ok (StoreTable_new :: ('a, 'b) store_table)"
    by (simp add: table_ok_def StoreTable_new_def)
  then have "table_ok tb" if "(t', tb) \<in> set (open_table t m)" for t' tb
    using Cons.prems(1) subsetD [OF set_bt_insert that [unfolded open_table_def]]
    by (auto simp: mem_ok_def list_all_iff)
  then have "list_all (\<lambda>(t, tb). table_ok tb) (open_table t m)" by (auto simp: list_all_iff)
  with inv have "mem_ok (open_table t m)" by (simp add: mem_ok_def open_table_def bt_inv_insert)
  moreover have "row_of (open_table t m) t' k = None" "\<not> is_clearing (open_table t m) t'" for t' k
    using Cons.prems(2) [of t' k] Cons.prems(3) [of t'] inv
    by (simp_all add: row_of_def is_clearing_def open_table_def bt_get_insert StoreTable_new_def
        del: fun_upd_apply) (auto simp: StoreTable_new_def)
  ultimately show ?case using Cons.IH [of "open_table t m"] by simp
qed

lemma open_inv:
  assumes "\<And>t. bt_inv (d t)"
  shows "run_inv (open_layered ts d)" and "view (open_layered ts d) = tier_view d"
proof -
  let ?m = "fold open_table ts [] :: ('a, 'b) store"
  have m: "mem_ok ?m" "row_of ?m t k = None" "\<not> is_clearing ?m t" for t k
    using opened_tables [of "[] :: ('a, 'b) store" ts]
    by (simp_all add: mem_ok_def row_of_def is_clearing_def)
  have "cache_inv ?m d [] []"
    by (rule cache_invI) (simp_all add: m assms in_flight_of_def)
  then show "run_inv (open_layered ts d)"
    by (simp add: run_inv_def layered_inv_def txn_ok_def removing_ok_def open_layered_def)
  show "view (open_layered ts d) = tier_view d"
    by (simp add: fun_eq_iff view_def cache_view_def open_layered_def tier_view_def m)
qed

lemma tx_get_view:
  assumes "mem_ok (mem_db st)"
  shows "tx_get cold st t k = Inr (case view st t k of Some v \<Rightarrow> Some v | None \<Rightarrow> cold t k)"
proof (cases "row_of (mem_db st) t k")
  case None
  then show ?thesis
    by (auto simp: tx_get_def is_tombstoned_def get_no_marked_check_def view_def cache_view_def
        split: option.split)
next
  case (Some e)
  with mem_ok_live [OF assms Some] show ?thesis
    by (cases "tombstoned e") (auto simp: tx_get_def is_tombstoned_def get_no_marked_check_def view_def
        cache_view_def live_value_def decode_def split: option.split)
qed

text \<open>C7. Reads of the layered database are exact. Whatever the interleaving of inserts, removals,
  clears and transactions with the steps of the background writer (its checks of the cache, its
  writes to the persistent tier, the release of applied operations, evictions), and whichever calls
  to the tier fail and poison it, a read transaction finds under each key what the accepted writes,
  in their order, make of the initial contents: never a stale row of the tier, never a row that a
  pending removal or clear has taken away, and never a buffer that does not decode. Where these hold
  nothing, the cold tier answers.\<close>

theorem layered_reads_exact:
  assumes "layered_run max_size (open_layered ts d) as st" and "\<And>t. bt_inv (d t)"
  shows "tx_get cold st t k =
    Inr (case spec_run as (tier_view d) t k of Some v \<Rightarrow> Some v | None \<Rightarrow> cold t k)"
proof -
  from run_view [OF assms(1) open_inv(1) [OF assms(2)]]
  have "run_inv st" and "view st = spec_run as (tier_view d)" by (simp_all add: open_inv(2) [OF assms(2)])
  with tx_get_view [OF run_inv_store, of st cold t k] show ?thesis by simp
qed

end
