(* ===== verification/Layered_Flush.thy ===== *)
theory Layered_Flush
  imports Layered_Reads
begin

text \<open>
  The writer catches up: as long as the calls to the persistent tier succeed and every transaction
  of the channel is committed, a bounded number of steps of the writer empties the channel, answers
  the barriers in it, and leaves in the tier exactly what readers see.
\<close>

section \<open>Draining the channel\<close>

fun bracketed :: "bool \<Rightarrow> ('k, 'v) db_message list \<Rightarrow> bool" where
  "bracketed is_open [] \<longleftrightarrow> \<not> is_open"
| "bracketed is_open (msg # q) \<longleftrightarrow>
    (case msg of
       StartTxn \<Rightarrow> \<not> is_open \<and> bracketed True q
     | CommitTxn \<Rightarrow> is_open \<and> bracketed False q
     | Shutdown \<Rightarrow> False
     | _ \<Rightarrow> bracketed is_open q)"

definition healthy :: "('k, 'v) layered \<Rightarrow> bool" where
  "healthy st \<longleftrightarrow> fatal st = None \<and> \<not> stopped st \<and> bracketed (txn st \<noteq> None) (chan st)"

definition idle :: "('k, 'v) layered \<Rightarrow> bool" where
  "idle st \<longleftrightarrow> chan st = [] \<and> unsettled st = [] \<and> \<not> evict_due st"

fun run_writer :: "nat \<Rightarrow> nat \<Rightarrow> ('k::linorder, 'v) layered \<Rightarrow> ('k, 'v) layered option" where
  "run_writer max_size 0 st = Some st"
| "run_writer max_size (Suc n) st =
    (case db_run_step max_size (\<lambda>_. True) st of
       None \<Rightarrow> None
     | Some st' \<Rightarrow> run_writer max_size n st')"

text \<open>Steps that remain: four for a message, one for an operation to release, one for a pass.\<close>

definition work :: "('k, 'v) layered \<Rightarrow> nat" where
  "work st = 4 * length (chan st) + length (unsettled st) + length (committed_ops st) +
    of_bool (evict_due st) + of_bool (removing st = None)"

definition answered :: "('k, 'v) layered \<Rightarrow> nat \<Rightarrow> bool" where
  "answered st i \<longleftrightarrow> (i, Inr ()) \<in> set (replies st)"

definition advances :: "('k, 'v) layered \<Rightarrow> ('k, 'v) layered \<Rightarrow> bool" where
  "advances st st' \<longleftrightarrow> healthy st' \<and> work st' < work st \<and>
    (\<forall>i. answered st i \<or> CaughtUp i \<in> set (chan st) \<longrightarrow> answered st' i \<or> CaughtUp i \<in> set (chan st'))"

lemma evict_and_log_kept [simp]:
  "fatal (evict_and_log max_size b st) = fatal st" "stopped (evict_and_log max_size b st) = stopped st"
  "txn (evict_and_log max_size b st) = txn st" "chan (evict_and_log max_size b st) = chan st"
  "unsettled (evict_and_log max_size b st) = unsettled st"
  "committed_ops (evict_and_log max_size b st) = committed_ops st"
  "evict_due (evict_and_log max_size b st) = evict_due st"
  "removing (evict_and_log max_size b st) = removing st" "replies (evict_and_log max_size b st) = replies st"
  by (simp_all add: evict_and_log_def split: prod.split)

lemma apply_ok:
  assumes "sound_op op"
  shows "\<exists>d1. apply_direct (\<lambda>_. True) m live op d = (d1, None)" "\<exists>d2. apply_txn (\<lambda>_. True) op d' = (d2, None)"
  using assms by (cases op; simp add: apply_direct_def apply_txn_def sound_op_def)+

lemma message_advances:
  assumes inv: "layered_inv st" and ok: "healthy st" and idle: "unsettled st = []" "\<not> evict_due st"
    and msg: "chan st = msg # q"
  shows "advances st (handle_message max_size (\<lambda>_. True) msg (st\<lparr>chan := q\<rparr>))"
proof (cases msg)
  case StartTxn
  with ok msg idle show ?thesis
    by (auto simp: advances_def healthy_def handle_message_def work_def answered_def split: option.splits)
next
  case CommitTxn
  with ok msg idle show ?thesis
    by (auto simp: advances_def healthy_def handle_message_def work_def answered_def split: option.splits)
next
  case (WriteOp op)
  have "sound_op op"
    using inv msg WriteOp cache_invD(3) [of "mem_db st" "db st" "unsettled st"]
    by (fastforce simp: layered_inv_def)
  from apply_ok [OF this] obtain d1 d2 where
    r: "apply_direct (\<lambda>_. True) (mem_db st) (removing st = Some True) op (db st) = (d1, None)"
      "apply_txn (\<lambda>_. True) op (the (txn st)) = (d2, None)"
    by metis
  with WriteOp ok msg idle show ?thesis
    by (cases "txn st") (auto simp: advances_def healthy_def handle_message_def apply_op_def work_def answered_def)
next
  case (CaughtUp i)
  with ok msg idle show ?thesis
    by (auto simp: advances_def healthy_def handle_message_def work_def answered_def Let_def)
next
  case Shutdown
  with ok msg show ?thesis by (simp add: healthy_def)
qed

lemma writer_advances:
  assumes inv: "layered_inv st" and ok: "healthy st" and busy: "\<not> idle st"
    and step: "db_run_step max_size (\<lambda>_. True) st = Some st'"
  shows "advances st st'"
proof (cases "unsettled st")
  case (Cons op ops)
  with ok step obtain m h where "st' = st\<lparr>mem_db := m, eviction_heap := h, unsettled := ops\<rparr>"
    by (auto simp: db_run_step_def healthy_def split: option.splits)
  with ok Cons show ?thesis by (simp add: healthy_def advances_def work_def answered_def)
next
  case settled: Nil
  show ?thesis
  proof (cases "evict_due st")
    case True
    then have "st' = (evict_and_log max_size False st)\<lparr>evict_due := False\<rparr>"
      using step settled ok by (simp add: db_run_step_def healthy_def)
    with ok True show ?thesis by (simp add: healthy_def advances_def work_def answered_def)
  next
    case False
    with busy settled obtain msg q where msg: "chan st = msg # q" by (auto simp: idle_def neq_Nil_conv)
    show ?thesis
    proof (cases "checks_cache msg st")
      case None
      with settled False msg ok step message_advances [OF inv ok settled False msg, of max_size] show ?thesis
        by (simp add: db_run_step_def healthy_def)
    next
      case (Some tk)
      then have rem: "removing st = None"
        by (auto simp: checks_cache_def split: db_message.splits write_op.splits option.splits)
      have "st' = st\<lparr>removing := Some (contains_key_impl (mem_db st) (fst tk) (snd tk))\<rparr>"
        using step settled ok Some False msg by (simp add: db_run_step_def healthy_def case_prod_beta)
      with ok rem show ?thesis by (simp add: healthy_def advances_def work_def answered_def)
    qed
  qed
qed

lemma run_writer_idle:
  assumes "run_inv st" "healthy st"
  shows "\<exists>n st'. n \<le> work st \<and> run_writer max_size n st = Some st' \<and> run_inv st' \<and> healthy st' \<and> idle st' \<and>
    view st' = view st \<and> (\<forall>i. answered st i \<or> CaughtUp i \<in> set (chan st) \<longrightarrow> answered st' i)"
  using assms
proof (induction "work st" arbitrary: st rule: less_induct)
  case less
  show ?case
  proof (cases "idle st")
    case True
    have "run_writer max_size 0 st = Some st" by simp
    with True less.prems show ?thesis by (intro exI [of _ 0] exI [of _ st]) (simp add: idle_def)
  next
    case False
    from writer_step [OF less.prems(1), of max_size "\<lambda>_. True"] obtain st1 where
      s: "db_run_step max_size (\<lambda>_. True) st = Some st1" "run_inv st1" "view st1 = view st" by blast
    have linv: "layered_inv st" using less.prems by (simp add: run_inv_def healthy_def)
    have adv: "advances st st1" by (rule writer_advances [OF linv less.prems(2) False s(1)])
    then have "work st1 < work st" "healthy st1" by (simp_all add: advances_def)
    from less.hyps [OF this(1) s(2) this(2)] obtain n st' where
      n: "n \<le> work st1" and r: "run_writer max_size n st1 = Some st'" and st': "run_inv st'" "healthy st'" "idle st'"
        "view st' = view st1" "\<forall>i. answered st1 i \<or> CaughtUp i \<in> set (chan st1) \<longrightarrow> answered st' i"
      by blast
    have "run_writer max_size (Suc n) st = Some st'" using s(1) r by simp
    moreover have "Suc n \<le> work st" using n \<open>work st1 < work st\<close> by simp
    moreover have "\<forall>i. answered st i \<or> CaughtUp i \<in> set (chan st) \<longrightarrow> answered st' i"
      using adv st'(5) by (auto simp: advances_def)
    ultimately show ?thesis using st' s(3) by (intro exI [of _ "Suc n"] exI [of _ st']) simp
  qed
qed

lemma idle_tier:
  assumes "run_inv st" "healthy st" "idle st"
  shows "tier_view (db st) = view st"
proof -
  have inv: "layered_inv st" using assms(1,2) by (simp add: run_inv_def healthy_def)
  have "txn st = None" "chan st = []" "unsettled st = []" using assms(2,3) by (simp_all add: healthy_def idle_def)
  moreover from this inv have "committed_ops st = []" by (simp add: layered_inv_def txn_ok_def)
  ultimately show ?thesis
    by (simp add: fun_eq_iff tier_view_def view_overlay [OF inv] overlay_def)
qed

text \<open>C12. The writer catches up. From every state that a run reaches without a failure of the
  persistent tier, and in which each transaction of the channel is committed, the writer reaches an
  idle state within a number of steps that the length of its backlog bounds, provided that the calls
  to the tier go on succeeding. It does not panic on the way, in particular no count of queued
  operations falls below zero. Then the barriers that were waiting have been answered with success,
  and the tier alone holds what the accepted writes made of the initial contents.\<close>

theorem writer_catches_up:
  assumes "layered_run max_size (open_layered ts d) as st" and "\<And>t. bt_inv (d t)" and "healthy st"
  shows "\<exists>n st'. n \<le> work st \<and> run_writer max_size n st = Some st' \<and> idle st' \<and> fatal st' = None \<and>
    (\<forall>i. CaughtUp i \<in> set (chan st) \<longrightarrow> (i, Inr ()) \<in> set (replies st')) \<and>
    tier_view (db st') = spec_run as (tier_view d)"
proof -
  from run_view [OF assms(1) open_inv(1) [OF assms(2)]]
  have inv: "run_inv st" and v: "view st = spec_run as (tier_view d)"
    by (simp_all add: open_inv(2) [OF assms(2)])
  from run_writer_idle [OF inv assms(3), of max_size] obtain n st' where
    "n \<le> work st" "run_writer max_size n st = Some st'" "run_inv st'" "healthy st'" "idle st'"
    "view st' = view st" "\<forall>i. answered st i \<or> CaughtUp i \<in> set (chan st) \<longrightarrow> answered st' i"
    by blast
  moreover from this have "tier_view (db st') = view st" by (simp add: idle_tier)
  ultimately show ?thesis using v by (intro exI [of _ n] exI [of _ st']) (simp add: healthy_def answered_def)
qed

end
