(* ===== verification/Layered_Scan.thy ===== *)
theory Layered_Scan
  imports Layered_Reads
begin

text \<open>
  Scans of the layered database (\<open>MergeJoinIter\<close>, \<open>merge_cold\<close>, \<open>step_back\<close> and the iterators of
  \<open>LayeredDbTx\<close>): the ordered merge of the cached rows over the rows of the persistent tier, with the
  cold tier merged beneath, and the positioned walk-back behind \<open>last_record\<close> and
  \<open>record_prior_to\<close>. An iterator is the list of the rows it hands out.
\<close>

section \<open>The merge\<close>

definition comes_before :: "bool \<Rightarrow> 'k::linorder \<Rightarrow> 'k \<Rightarrow> bool" where
  "comes_before reverse j k \<longleftrightarrow> (if reverse then k < j else j < k)"

fun merge_join ::
  "bool \<Rightarrow> ('k::linorder \<Rightarrow> bool) \<Rightarrow> ('k \<times> 'v) list \<Rightarrow> ('k \<times> 'v) list \<Rightarrow> ('k \<times> 'v) list" where
  "merge_join reverse is_tomb ((k, v) # ds) ((j, w) # ms) =
    (if comes_before reverse k j
     then (if is_tomb k then merge_join reverse is_tomb ds ((j, w) # ms)
           else (k, v) # merge_join reverse is_tomb ds ((j, w) # ms))
     else if k = j then (j, w) # merge_join reverse is_tomb ds ms
     else (j, w) # merge_join reverse is_tomb ((k, v) # ds) ms)"
| "merge_join reverse is_tomb ((k, v) # ds) [] =
    (if is_tomb k then merge_join reverse is_tomb ds [] else (k, v) # merge_join reverse is_tomb ds [])"
| "merge_join reverse is_tomb [] ms = ms"

text \<open>A scan without a cold tier, or of a table without a cold order, is the hot scan.\<close>

definition merge_cold ::
  "bool \<Rightarrow> ('k::linorder \<times> 'v) list option \<Rightarrow> ('k \<times> 'v) list \<Rightarrow> ('k \<times> 'v) list" where
  "merge_cold reverse cold_side hot =
    (case cold_side of None \<Rightarrow> hot | Some cs \<Rightarrow> merge_join reverse (\<lambda>_. False) cs hot)"

definition in_order :: "bool \<Rightarrow> ('k::linorder \<times> 'v) list \<Rightarrow> bool" where
  "in_order reverse xs \<longleftrightarrow> sorted_wrt (comes_before reverse) (map fst xs)"

lemma before_trans: "comes_before r a b \<Longrightarrow> comes_before r b c \<Longrightarrow> comes_before r a c"
  by (auto simp: comes_before_def split: if_splits)

lemma before_irrefl [simp]: "\<not> comes_before r a a"
  by (simp add: comes_before_def)

lemma before_linear: "comes_before r a b \<or> a = b \<or> comes_before r b a"
  by (auto simp: comes_before_def)

lemma before_asym: "comes_before r a b \<Longrightarrow> \<not> comes_before r b a"
  by (auto simp: comes_before_def split: if_splits)

lemma in_order_Cons [simp]:
  "in_order r ((k, v) # xs) \<longleftrightarrow> (\<forall>x\<in>set xs. comes_before r k (fst x)) \<and> in_order r xs"
  by (auto simp: in_order_def)

lemma in_order_Nil [simp]: "in_order r []"
  by (simp add: in_order_def)

lemma in_order_distinct: "in_order r xs \<Longrightarrow> distinct (map fst xs)"
  by (induction xs) force+

lemma set_merge_join: "set (merge_join r is_tomb ds ms) \<subseteq> set ds \<union> set ms"
  by (induction r is_tomb ds ms rule: merge_join.induct) auto

lemma merge_in_order: "in_order r ds \<Longrightarrow> in_order r ms \<Longrightarrow> in_order r (merge_join r is_tomb ds ms)"
proof (induction r is_tomb ds ms rule: merge_join.induct)
  case (1 r is_tomb k v ds j w ms)
  have sub: "set (merge_join r is_tomb ds ((j, w) # ms)) \<subseteq> set ds \<union> set ((j, w) # ms)"
    "set (merge_join r is_tomb ds ms) \<subseteq> set ds \<union> set ms"
    "set (merge_join r is_tomb ((k, v) # ds) ms) \<subseteq> set ((k, v) # ds) \<union> set ms"
    by (rule set_merge_join)+
  consider "comes_before r k j" | "k = j" | "comes_before r j k" "\<not> comes_before r k j" "k \<noteq> j"
    using before_linear [of r k j] before_asym [of r j k] by auto
  then show ?case
  proof cases
    case k: 1
    have "comes_before r k (fst x)" if "x \<in> set ds \<union> set ((j, w) # ms)" for x
      using that "1.prems" k before_trans [OF k] by auto
    with sub(1) k "1.IH"(1,2) "1.prems" show ?thesis by auto
  next
    case 2
    have "comes_before r j (fst x)" if "x \<in> set ds \<union> set ms" for x
      using that "1.prems" 2 by auto
    with sub(2) 2 "1.IH"(3) "1.prems" show ?thesis by auto
  next
    case 3
    have "comes_before r j (fst x)" if "x \<in> set ((k, v) # ds) \<union> set ms" for x
      using that "1.prems" 3 before_trans [OF 3(1)] by auto
    with sub(3) 3 "1.IH"(4) "1.prems" show ?thesis by auto
  qed
next
  case (2 r is_tomb k v ds)
  have "set (merge_join r is_tomb ds []) \<subseteq> set ds \<union> set []" by (rule set_merge_join)
  with 2 show ?case by auto
next
  case (3 r is_tomb ms)
  then show ?case by simp
qed

text \<open>The rows of the merge: all of the cached side, and those of the other side whose key is neither
  cached nor tombstoned.\<close>

lemma merge_join_rows:
  "in_order r ds \<Longrightarrow> in_order r ms \<Longrightarrow>
    set (merge_join r is_tomb ds ms) = set ms \<union> {x \<in> set ds. \<not> is_tomb (fst x) \<and> fst x \<notin> fst ` set ms}"
proof (induction r is_tomb ds ms rule: merge_join.induct)
  case (1 r is_tomb k v ds j w ms)
  have ds: "\<And>x. x \<in> set ds \<Longrightarrow> comes_before r k (fst x)" and ms: "\<And>x. x \<in> set ms \<Longrightarrow> comes_before r j (fst x)"
    using "1.prems" by auto
  consider "comes_before r k j" | "k = j" | "comes_before r j k" "\<not> comes_before r k j" "k \<noteq> j"
    using before_linear [of r k j] before_asym [of r j k] by auto
  then show ?case
  proof cases
    case k: 1
    have "k \<noteq> j" using k by auto
    moreover have "k \<noteq> fst x" if "x \<in> set ms" for x using before_trans [OF k ms [OF that]] by auto
    then have "(k, b) \<notin> set ms" for b by force
    moreover have "set (merge_join r is_tomb ds ((j, w) # ms)) = set ((j, w) # ms) \<union>
        {x \<in> set ds. \<not> is_tomb (fst x) \<and> fst x \<notin> fst ` set ((j, w) # ms)}"
      using "1.IH"(1,2) k "1.prems" by (cases "is_tomb k") auto
    ultimately show ?thesis using k by (auto simp: image_iff)
  next
    case 2
    have "j \<notin> fst ` set ds" using ds 2 by force
    with 2 "1.IH"(3) "1.prems" show ?thesis by force
  next
    case 3
    have "j \<notin> fst ` set ds" using ds before_trans [OF 3(1)] by force
    with 3 "1.IH"(4) "1.prems" show ?thesis by force
  qed
qed auto

lemma merge_lookup:
  assumes "in_order r ds" "in_order r ms"
  shows "map_of (merge_join r is_tomb ds ms) k =
    (case map_of ms k of Some w \<Rightarrow> Some w | None \<Rightarrow> if is_tomb k then None else map_of ds k)"
proof -
  note dist = in_order_distinct [OF merge_in_order [OF assms]] in_order_distinct [OF assms(1)]
    in_order_distinct [OF assms(2)]
  note rows = merge_join_rows [OF assms, of is_tomb]
  show ?thesis
  proof (cases "map_of ms k")
    case (Some w)
    then have "(k, w) \<in> set (merge_join r is_tomb ds ms)" by (auto simp: rows dest: map_of_SomeD)
    with Some dist show ?thesis by simp
  next
    case None
    then have k: "k \<notin> fst ` set ms" by (simp add: map_of_eq_None_iff)
    show ?thesis
    proof (cases "\<not> is_tomb k \<and> map_of ds k \<noteq> None")
      case True
      then obtain v where v: "map_of ds k = Some v" by auto
      with k True have "(k, v) \<in> set (merge_join r is_tomb ds ms)" by (auto simp: rows dest: map_of_SomeD)
      with None True v dist show ?thesis by simp
    next
      case False
      then have "k \<notin> fst ` set (merge_join r is_tomb ds ms)"
        using k by (auto simp: rows map_of_eq_None_iff image_iff)
      then have "map_of (merge_join r is_tomb ds ms) k = None" by (simp add: map_of_eq_None_iff)
      with None False show ?thesis by auto
    qed
  qed
qed

section \<open>Scans of a read transaction\<close>

text \<open>
  The argument \<open>cold_side\<close> is what the cold tier hands out for the scan, in its direction and from
  its start; \<open>None\<close> when no cold tier is attached or the table has no cold order.
\<close>

definition tier_rows :: "('k, 'v) layered \<Rightarrow> tname \<Rightarrow> ('k \<times> 'v) list" where
  "tier_rows st t = (if is_clearing (mem_db st) t then [] else db st t)"

definition scan ::
  "bool \<Rightarrow> ('k::linorder \<times> 'v) list option \<Rightarrow> ('k, 'v) layered \<Rightarrow> tname \<Rightarrow> ('k \<times> 'v) list \<Rightarrow>
    (db_error, ('k \<times> 'v) list) result \<Rightarrow> (db_error, ('k \<times> 'v) list) result" where
  "scan reverse cold_side st t ds mem =
    (case mem of
       Inl f \<Rightarrow> Inl f
     | Inr ms \<Rightarrow>
         Inr (merge_cold reverse cold_side (merge_join reverse (is_tombstoned (mem_db st) t) ds ms)))"

definition tx_iter ::
  "('k::linorder \<times> 'v) list option \<Rightarrow> ('k, 'v) layered \<Rightarrow> tname \<Rightarrow> (db_error, ('k \<times> 'v) list) result" where
  "tx_iter cold_side st t =
    scan False cold_side st t (tier_rows st t)
      (case iter_impl (mem_db st) t of None \<Rightarrow> Inr [] | Some r \<Rightarrow> r)"

definition tx_skip_to ::
  "('k::linorder \<times> 'v) list option \<Rightarrow> ('k, 'v) layered \<Rightarrow> tname \<Rightarrow> 'k \<Rightarrow> (db_error, ('k \<times> 'v) list) result" where
  "tx_skip_to cold_side st t k =
    (case skip_to_impl (mem_db st) t k of
       None \<Rightarrow> Inl (Err (InvalidTable t))
     | Some r \<Rightarrow> scan False cold_side st t (filter (\<lambda>(j, _). k \<le> j) (tier_rows st t)) r)"

definition tx_reverse_iter ::
  "('k::linorder \<times> 'v) list option \<Rightarrow> ('k, 'v) layered \<Rightarrow> tname \<Rightarrow> (db_error, ('k \<times> 'v) list) result" where
  "tx_reverse_iter cold_side st t =
    scan True cold_side st t (rev (tier_rows st t))
      (case reverse_iter_impl (mem_db st) t of None \<Rightarrow> Inr [] | Some r \<Rightarrow> r)"

subsection \<open>The cached side\<close>

definition live_rows :: "('k, 'v store_entry) btree \<Rightarrow> ('k \<times> 'v) list" where
  "live_rows rs = map (\<lambda>(k, e). (k, the (entry_value e))) (filter (\<lambda>(k, e). \<not> tombstoned e) rs)"

lemma collect_typed_live:
  "list_all (\<lambda>(k, e). \<not> tombstoned e \<longrightarrow> entry_value e \<noteq> None) rs \<Longrightarrow> collect_typed rs = Inr (live_rows rs)"
  by (induction rs rule: collect_typed.induct) (auto simp: live_rows_def decode_def)

lemma live_rows_rev: "live_rows (rev rs) = rev (live_rows rs)"
  by (simp add: live_rows_def rev_map rev_filter)

lemma live_rows_filter: "live_rows (filter (\<lambda>(k, _). P k) rs) = filter (\<lambda>(k, _). P k) (live_rows rs)"
  by (induction rs) (auto simp: live_rows_def)

lemma live_rows_lookup:
  assumes "bt_inv rs" "list_all (\<lambda>(k, e). \<not> tombstoned e \<longrightarrow> entry_value e \<noteq> None) rs"
  shows "map_of (live_rows rs) k = (case bt_get rs k of None \<Rightarrow> None | Some e \<Rightarrow> live_value e)"
  using assms
proof (induction rs)
  case Nil
  then show ?case by (simp add: live_rows_def)
next
  case (Cons x rs)
  obtain a e where x: "x = (a, e)" by (cases x)
  have a: "a \<notin> fst ` set rs" and rs: "bt_inv rs" using Cons.prems(1) by (auto simp: x bt_inv_Cons)
  have IH: "map_of (live_rows rs) k = (case bt_get rs k of None \<Rightarrow> None | Some e \<Rightarrow> live_value e)"
    using Cons.IH [OF rs] Cons.prems(2) by simp
  have "bt_get rs a = None" using a by (simp add: bt_get_None_iff)
  with IH Cons.prems(2) show ?case
    by (cases "tombstoned e") (auto simp: x live_rows_def bt_get_def live_value_def)
qed

lemma live_rows_in_order: "bt_inv rs \<Longrightarrow> bt_inv (live_rows rs)"
proof -
  assume inv: "bt_inv rs"
  have "map fst (live_rows rs) = map fst (filter (\<lambda>(k, e). \<not> tombstoned e) rs)"
    by (auto simp: live_rows_def)
  with bt_inv_filter [OF inv, of "\<lambda>(k, e). \<not> tombstoned e"] show ?thesis by (simp only: bt_inv_def)
qed

lemma before_dir: "comes_before False = (<)" "comes_before True = (>)"
  by (simp_all add: fun_eq_iff comes_before_def)

lemma in_order_bt_inv: "in_order False xs \<longleftrightarrow> bt_inv xs"
  by (simp add: in_order_def bt_inv_def before_dir)

lemma in_order_rev: "in_order True (rev xs) \<longleftrightarrow> in_order False xs"
  by (simp add: in_order_def before_dir sorted_wrt_rev flip: rev_map)

text \<open>The rows of the cache, in order, whatever the table.\<close>

definition cached :: "('k, 'v) layered \<Rightarrow> tname \<Rightarrow> ('k \<times> 'v) list" where
  "cached st t = (case bt_get (mem_db st) t of None \<Rightarrow> [] | Some tb \<Rightarrow> live_rows (rows tb))"

lemma cached_scans:
  assumes ok: "mem_ok (mem_db st)"
  shows "(case iter_impl (mem_db st) t of None \<Rightarrow> Inr [] | Some r \<Rightarrow> r) = Inr (cached st t)"
    and "(case reverse_iter_impl (mem_db st) t of None \<Rightarrow> Inr [] | Some r \<Rightarrow> r) = Inr (rev (cached st t))"
    and "bt_get (mem_db st) t = Some tb \<Longrightarrow>
      skip_to_impl (mem_db st) t k = Some (Inr (filter (\<lambda>(j, _). k \<le> j) (cached st t)))"
  using mem_ok_table [OF ok, of t]
  by (auto simp: iter_impl_def reverse_iter_impl_def skip_to_impl_def cached_def table_ok_def
      collect_typed_live live_rows_rev live_rows_filter list_all_iff split: option.split)

lemma cached_in_order: "mem_ok (mem_db st) \<Longrightarrow> bt_inv (cached st t)"
  by (auto simp: cached_def split: option.split intro: live_rows_in_order mem_ok_rows)

lemma cached_lookup:
  assumes ok: "mem_ok (mem_db st)"
  shows "map_of (cached st t) k = (case row_of (mem_db st) t k of None \<Rightarrow> None | Some e \<Rightarrow> live_value e)"
proof (cases "bt_get (mem_db st) t")
  case None
  then show ?thesis by (simp add: cached_def row_of_def)
next
  case (Some tb)
  from mem_ok_table [OF ok Some] live_rows_lookup [of "rows tb" k] show ?thesis
    by (simp add: cached_def row_of_def Some table_ok_def)
qed

lemma merged_lookup:
  assumes ok: "mem_ok (mem_db st)" and tier: "bt_inv (db st t)"
  shows "map_of (merge_join False (is_tombstoned (mem_db st) t) (tier_rows st t) (cached st t)) k = view st t k"
proof -
  have "in_order False (tier_rows st t)" "in_order False (cached st t)"
    using tier cached_in_order [OF ok] by (simp_all add: in_order_bt_inv tier_rows_def)
  note m = merge_lookup [OF this, of "is_tombstoned (mem_db st) t" k]
  show ?thesis
  proof (cases "row_of (mem_db st) t k")
    case None
    then show ?thesis unfolding m
      by (simp add: cached_lookup [OF ok] is_tombstoned_def view_def cache_view_def tier_rows_def bt_get_def)
  next
    case (Some e)
    show ?thesis
    proof (cases "tombstoned e")
      case True
      with Some show ?thesis unfolding m
        by (simp add: cached_lookup [OF ok] is_tombstoned_def view_def cache_view_def live_value_def)
    next
      case False
      with mem_ok_live [OF ok Some] Some show ?thesis unfolding m
        by (auto simp: cached_lookup [OF ok] is_tombstoned_def view_def cache_view_def live_value_def)
    qed
  qed
qed

subsection \<open>Scans agree with point reads\<close>

definition hot_rows :: "('k::linorder, 'v) layered \<Rightarrow> tname \<Rightarrow> ('k \<times> 'v) list" where
  "hot_rows st t = merge_join False (is_tombstoned (mem_db st) t) (tier_rows st t) (cached st t)"

lemma tier_rows_inv: "bt_inv (db st t) \<Longrightarrow> bt_inv (tier_rows st t)"
  by (simp add: tier_rows_def)

lemma hot_rows_inv: "mem_ok (mem_db st) \<Longrightarrow> bt_inv (db st t) \<Longrightarrow> bt_inv (hot_rows st t)"
  using merge_in_order [of False "tier_rows st t" "cached st t"]
  by (simp add: hot_rows_def in_order_bt_inv cached_in_order tier_rows_inv)

lemma merge_join_eqI:
  assumes "in_order r ds" "in_order r ms" "in_order r xs"
    and "\<And>k. map_of xs k = (case map_of ms k of Some w \<Rightarrow> Some w | None \<Rightarrow> if is_tomb k then None else map_of ds k)"
  shows "merge_join r is_tomb ds ms = xs"
proof -
  have uniq: "ys = zs" if "in_order False ys" "in_order False zs" "map_of ys = map_of zs" for ys zs :: "('a \<times> 'b) list"
    using that bt_ext [of ys zs] by (simp add: in_order_bt_inv bt_get_def)
  have same: "map_of (merge_join r is_tomb ds ms) = map_of xs"
    by (simp add: fun_eq_iff assms(4) merge_lookup [OF assms(1,2)])
  note ord = merge_in_order [OF assms(1,2), of is_tomb]
  show ?thesis
  proof (cases r)
    case False
    with uniq [OF _ _ same] ord assms(3) show ?thesis by simp
  next
    case True
    have rev: "map_of (rev ys) = map_of ys" if "in_order True ys" for ys :: "('a \<times> 'b) list"
      using in_order_distinct [OF that] by (simp add: map_of_rev_distinct)
    have "rev (merge_join r is_tomb ds ms) = rev xs"
      using ord assms(3) same True in_order_rev [of "rev xs"] in_order_rev [of "rev (merge_join r is_tomb ds ms)"]
      by (intro uniq) (simp_all add: rev)
    then show ?thesis by simp
  qed
qed

lemma map_of_filter_key: "map_of (filter (\<lambda>(j, _). P j) xs) k = (if P k then map_of xs k else None)"
  by (induction xs) auto

lemma map_of_rev_order: "bt_inv xs \<Longrightarrow> map_of (rev xs) = map_of xs"
  by (simp add: map_of_rev_distinct bt_inv_distinct)

lemma merge_reverse:
  assumes "bt_inv ds" "bt_inv ms"
  shows "merge_join True is_tomb (rev ds) (rev ms) = rev (merge_join False is_tomb ds ms)"
proof (rule merge_join_eqI)
  have ord: "in_order False ds" "in_order False ms" using assms by (simp_all add: in_order_bt_inv)
  note m = merge_in_order [OF ord, of is_tomb]
  from m ord show "in_order True (rev ds)" "in_order True (rev ms)"
    "in_order True (rev (merge_join False is_tomb ds ms))"
    by (simp_all add: in_order_rev)
  show "map_of (rev (merge_join False is_tomb ds ms)) k =
      (case map_of (rev ms) k of Some w \<Rightarrow> Some w | None \<Rightarrow> if is_tomb k then None else map_of (rev ds) k)" for k
    using m merge_lookup [OF ord, of is_tomb k] assms by (simp add: map_of_rev_order in_order_bt_inv split: option.split)
qed

lemma merge_filter:
  assumes "bt_inv ds" "bt_inv ms"
  shows "merge_join False is_tomb (filter (\<lambda>(j, _). P j) ds) (filter (\<lambda>(j, _). P j) ms) =
    filter (\<lambda>(j, _). P j) (merge_join False is_tomb ds ms)"
proof (rule merge_join_eqI)
  have ord: "in_order False ds" "in_order False ms" using assms by (simp_all add: in_order_bt_inv)
  show "in_order False (filter (\<lambda>(j, _). P j) ds)" "in_order False (filter (\<lambda>(j, _). P j) ms)"
    "in_order False (filter (\<lambda>(j, _). P j) (merge_join False is_tomb ds ms))"
    using assms merge_in_order [OF ord, of is_tomb] by (simp_all add: in_order_bt_inv bt_inv_filter)
  show "map_of (filter (\<lambda>(j, _). P j) (merge_join False is_tomb ds ms)) k =
      (case map_of (filter (\<lambda>(j, _). P j) ms) k of Some w \<Rightarrow> Some w
       | None \<Rightarrow> if is_tomb k then None else map_of (filter (\<lambda>(j, _). P j) ds) k)" for k
    by (simp add: map_of_filter_key merge_lookup [OF ord] split: option.split)
qed


section \<open>The walk back\<close>

text \<open>
  The largest row below a bound, by positioned lookups on each side. Here without a cold tier. The
  lookup of the persistent tier, \<open>prior\<close>, may answer a seek that finds nothing with a row that is not
  below the key, as MDBX does; the floor drops such an answer. The first argument of \<open>step_back\<close> is
  the number of rows the consumer pulls at most.
\<close>

definition floored ::
  "'k::linorder \<Rightarrow> (db_error, ('k \<times> 'v) option) result \<Rightarrow> (db_error, ('k \<times> 'v) option) result" where
  "floored k r =
    (case r of
       Inl f \<Rightarrow> Inl f
     | Inr None \<Rightarrow> Inr None
     | Inr (Some (p, w)) \<Rightarrow> Inr (if p < k then Some (p, w) else None))"

fun step_back ::
  "nat \<Rightarrow> ('k::linorder \<Rightarrow> (db_error, ('k \<times> 'v) option) result) \<Rightarrow>
    (db_error, ('k \<times> 'v) option) result \<Rightarrow> (db_error, ('k \<times> 'v) list) result" where
  "step_back n prior (Inl f) = Inl f"
| "step_back n prior (Inr None) = Inr []"
| "step_back 0 prior (Inr (Some x)) = Inr []"
| "step_back (Suc n) prior (Inr (Some (k, v))) =
    (case step_back n prior (floored k (prior k)) of Inl f \<Rightarrow> Inl f | Inr l \<Rightarrow> Inr ((k, v) # l))"

definition last_row :: "('k \<times> 'v) list \<Rightarrow> ('k \<times> 'v) option" where
  "last_row xs = (if xs = [] then None else Some (last xs))"

definition last_below ::
  "(('k::linorder, 'v) btree \<Rightarrow> 'k \<Rightarrow> ('k \<times> 'v) option) \<Rightarrow> ('k, 'v) layered \<Rightarrow> tname \<Rightarrow> 'k option \<Rightarrow>
    (db_error, ('k \<times> 'v) option) result" where
  "last_below prior st t below =
    (let tier_prior = (\<lambda>k. Inr (prior (db st t) k));
         mem_prior = record_prior_to_impl (mem_db st) t;
         db_first = (if is_clearing (mem_db st) t then Inr None
           else (case below of Some k \<Rightarrow> floored k (tier_prior k) | None \<Rightarrow> Inr (last_row (db st t))));
         mem_first = (case below of Some k \<Rightarrow> floored k (mem_prior k) | None \<Rightarrow> last_record_impl (mem_db st) t);
         pulls = Suc (length (db st t) + length (cached st t))
     in case (step_back pulls tier_prior db_first, step_back pulls mem_prior mem_first) of
          (Inr ds, Inr ms) \<Rightarrow>
            Inr (case merge_join True (is_tombstoned (mem_db st) t) ds ms of [] \<Rightarrow> None | x # _ \<Rightarrow> Some x)
        | (Inl f, _) \<Rightarrow> Inl f
        | (_, Inl f) \<Rightarrow> Inl f)"

definition tx_last_record where
  "tx_last_record prior st t = last_below prior st t None"

definition tx_record_prior_to where
  "tx_record_prior_to prior st t k = last_below prior st t (Some k)"

text \<open>What \<open>record_prior_to\<close> of the tier promises.\<close>

definition prior_ok :: "(('k::linorder, 'v) btree \<Rightarrow> 'k \<Rightarrow> ('k \<times> 'v) option) \<Rightarrow> bool" where
  "prior_ok prior \<longleftrightarrow> (\<forall>rs k. bt_inv rs \<longrightarrow>
    floored k (Inr (prior rs k)) = Inr (last_row (filter (\<lambda>(j, _). j < k) rs)))"

lemma bt_inv_below: "bt_inv (xs @ (k, v) # ys) \<Longrightarrow> filter (\<lambda>(j, _). j < k) (xs @ (k, v) # ys) = xs"
  by (induction xs) (auto simp: bt_inv_def sorted_wrt_append filter_empty_conv)

lemma step_back_walk:
  assumes "\<And>k. floored k (prior k) = Inr (last_row (filter (\<lambda>(j, _). j < k) rs))"
    and "bt_inv rs" "rs = xs @ ys" "length xs \<le> n"
  shows "step_back n prior (Inr (last_row xs)) = Inr (rev xs)"
  using assms(3,4)
proof (induction xs arbitrary: ys n rule: rev_induct)
  case Nil
  then show ?case by (simp add: last_row_def)
next
  case (snoc x xs)
  obtain k v where x: "x = (k, v)" by (cases x)
  from snoc.prems obtain m where n: "n = Suc m" "length xs \<le> m" by (cases n) auto
  have rs: "rs = xs @ (k, v) # ys" using snoc.prems by (simp add: x)
  have "floored k (prior k) = Inr (last_row xs)"
    using assms(1) [of k] bt_inv_below [of xs k v ys] assms(2) by (simp add: rs)
  with snoc.IH [OF rs n(2)] show ?case by (simp add: x n last_row_def)
qed

lemma find_live_rows:
  "list_all (\<lambda>(k, e). \<not> tombstoned e \<longrightarrow> entry_value e \<noteq> None) rs \<Longrightarrow>
    find_live rs = Inr (case live_rows rs of [] \<Rightarrow> None | x # _ \<Rightarrow> Some x)"
  by (induction rs rule: find_live.induct) (auto simp: live_rows_def decode_def)

lemma hd_rev_row: "(case rev xs of [] \<Rightarrow> None | x # _ \<Rightarrow> Some x) = last_row xs"
  by (cases xs rule: rev_cases) (simp_all add: last_row_def)

lemma find_live_rev:
  "list_all (\<lambda>(k, e). \<not> tombstoned e \<longrightarrow> entry_value e \<noteq> None) rs \<Longrightarrow>
    find_live (rev rs) = Inr (last_row (live_rows rs))"
  using find_live_rows [of "rev rs"] by (simp add: live_rows_rev hd_rev_row)

lemma cached_walk:
  assumes ok: "mem_ok (mem_db st)"
  shows "last_record_impl (mem_db st) t = Inr (last_row (cached st t))"
    and "record_prior_to_impl (mem_db st) t k = Inr (last_row (filter (\<lambda>(j, _). j < k) (cached st t)))"
proof (atomize (full), cases "bt_get (mem_db st) t")
  case None
  then show "last_record_impl (mem_db st) t = Inr (last_row (cached st t)) \<and>
      record_prior_to_impl (mem_db st) t k = Inr (last_row (filter (\<lambda>(j, _). j < k) (cached st t)))"
    by (simp add: last_record_impl_def record_prior_to_impl_def cached_def last_row_def)
next
  case (Some tb)
  have live: "list_all (\<lambda>(k, e). \<not> tombstoned e \<longrightarrow> entry_value e \<noteq> None) (rows tb)"
    using mem_ok_table [OF ok Some] by (simp add: table_ok_def)
  then have "list_all (\<lambda>(k, e). \<not> tombstoned e \<longrightarrow> entry_value e \<noteq> None) (filter P (rows tb))" for P
    by (simp add: list_all_iff)
  with find_live_rev [OF live] find_live_rev [OF this, of "\<lambda>(j, _). j < k"] Some
  show "last_record_impl (mem_db st) t = Inr (last_row (cached st t)) \<and>
      record_prior_to_impl (mem_db st) t k = Inr (last_row (filter (\<lambda>(j, _). j < k) (cached st t)))"
    by (simp add: last_record_impl_def record_prior_to_impl_def cached_def live_rows_filter)
qed

lemma below_prefix: "bt_inv rs \<Longrightarrow> \<exists>ys. rs = filter (\<lambda>(j, _). j < k) rs @ ys"
proof (induction rs)
  case Nil
  then show ?case by simp
next
  case (Cons x rs)
  obtain a b where x: "x = (a, b)" by (cases x)
  show ?case
  proof (cases "a < k")
    case True
    with Cons show ?thesis by (simp add: x bt_inv_Cons)
  next
    case False
    with Cons.prems have "filter (\<lambda>(j, _). j < k) (x # rs) = []"
      by (auto simp: x bt_inv_Cons filter_empty_conv)
    then show ?thesis by simp
  qed
qed

lemma floored_last:
  "floored k (Inr (last_row (filter (\<lambda>(j, _). j < k) xs))) = Inr (last_row (filter (\<lambda>(j, _). j < k) xs))"
proof (cases "filter (\<lambda>(j, _). j < k) xs" rule: rev_cases)
  case Nil
  then show ?thesis by (simp add: last_row_def floored_def)
next
  case (snoc ys y)
  then have "y \<in> set (filter (\<lambda>(j, _). j < k) xs)" by simp
  then have "fst y < k" by (simp add: case_prod_beta)
  then show ?thesis by (simp add: snoc last_row_def floored_def case_prod_beta)
qed

definition bounded :: "'k::linorder option \<Rightarrow> ('k \<times> 'v) list \<Rightarrow> ('k \<times> 'v) list" where
  "bounded below xs = (case below of None \<Rightarrow> xs | Some k \<Rightarrow> filter (\<lambda>(j, _). j < k) xs)"

lemma last_below_rows:
  assumes ok: "mem_ok (mem_db st)" and tier: "bt_inv (db st t)" and prior: "prior_ok prior"
  shows "last_below prior st t below = Inr (last_row (bounded below (hot_rows st t)))"
proof -
  let ?n = "Suc (length (db st t) + length (cached st t))"
  let ?tp = "\<lambda>k. Inr (prior (db st t) k)" and ?mp = "record_prior_to_impl (mem_db st) t"
  have pre: "\<exists>ys. rs = bounded below rs @ ys" if "bt_inv rs" for rs :: "('a, 'b) btree"
    using below_prefix [OF that] by (cases below) (auto simp: bounded_def)
  have len: "length (bounded below rs) \<le> length rs" for rs :: "('a, 'b) btree"
    by (cases below) (simp_all add: bounded_def)
  have tp: "floored k (?tp k) = Inr (last_row (filter (\<lambda>(j, _). j < k) (db st t)))" for k
    using prior tier by (simp add: prior_ok_def)
  have mp: "floored k (?mp k) = Inr (last_row (filter (\<lambda>(j, _). j < k) (cached st t)))" for k
    by (simp only: cached_walk(2) [OF ok] floored_last)
  have "(case below of Some k \<Rightarrow> floored k (?mp k) | None \<Rightarrow> last_record_impl (mem_db st) t) =
      Inr (last_row (bounded below (cached st t)))"
    by (cases below) (simp_all add: mp cached_walk(1) [OF ok] bounded_def)
  moreover from pre [OF cached_in_order [OF ok]] obtain ys where "cached st t = bounded below (cached st t) @ ys" by blast
  from step_back_walk [OF mp cached_in_order [OF ok] this, of ?n] len [of "cached st t"]
  have "step_back ?n ?mp (Inr (last_row (bounded below (cached st t)))) = Inr (rev (bounded below (cached st t)))"
    by simp
  moreover have "step_back ?n ?tp (if is_clearing (mem_db st) t then Inr None
      else (case below of Some k \<Rightarrow> floored k (?tp k) | None \<Rightarrow> Inr (last_row (db st t)))) =
      Inr (rev (bounded below (tier_rows st t)))"
  proof (cases "is_clearing (mem_db st) t")
    case True
    then show ?thesis by (cases below) (simp_all add: tier_rows_def bounded_def)
  next
    case False
    have "(case below of Some k \<Rightarrow> floored k (?tp k) | None \<Rightarrow> Inr (last_row (db st t))) =
        Inr (last_row (bounded below (db st t)))"
      by (cases below) (simp_all add: tp bounded_def)
    moreover from pre [OF tier] obtain ys where "db st t = bounded below (db st t) @ ys" by blast
    from step_back_walk [OF tp tier this, of ?n] len [of "db st t"]
    have "step_back ?n ?tp (Inr (last_row (bounded below (db st t)))) = Inr (rev (bounded below (db st t)))"
      by simp
    ultimately show ?thesis using False by (simp add: tier_rows_def)
  qed
  moreover have "merge_join True (is_tombstoned (mem_db st) t) (rev (bounded below (tier_rows st t)))
      (rev (bounded below (cached st t))) = rev (bounded below (hot_rows st t))"
    using merge_reverse [of "bounded below (tier_rows st t)" "bounded below (cached st t)"]
      merge_filter [OF tier_rows_inv [OF tier] cached_in_order [OF ok]]
      tier_rows_inv [OF tier] cached_in_order [OF ok, of t]
    by (cases below) (simp_all add: bounded_def hot_rows_def bt_inv_filter)
  ultimately show ?thesis by (simp add: last_below_def Let_def hd_rev_row)
qed


end
