(* ===== verification/Layered_Example.thy ===== *)
theory Layered_Example
  imports Layered_Flush Layered_Scan
begin

text \<open>
  A concrete layered database with one table, the runs on which the properties are applied, and a
  race between a point read and a removal.
\<close>

section \<open>A read that races with a removal\<close>

text \<open>C29. A point read on the database, outside a transaction, can panic. It asks whether the key is
  tombstoned and asks for the row in two critical sections. If a removal of a key that is not cached
  runs between the two, the row it finds is the fresh tombstone, whose buffer is empty, and the read
  decodes the buffer. With \<open>panic = "abort"\<close> that ends the node. A read transaction, which holds the
  read lock over both questions, does not do this.\<close>

theorem get_races_with_remove:
  assumes "mem_ok (mem_db s1)" and "row_of (mem_db s1) t k = None"
    and "layered_remove None now t k s1 = (Inr (), s2)"
  shows "layered_get cold s1 s2 s3 s4 t k = Inl Panic \<and> tx_get cold s2 t k = Inr (cold t k)"
proof -
  from assms(3) obtain m where m: "remove_impl now (mem_db s1) t k = Inr m"
    and s2: "mem_db s2 = m"
    by (auto simp: layered_remove_def poisoned_error_def send_def split: sum.splits if_splits)
  from m assms(2) obtain tb e where tb: "bt_get (mem_db s1) t = Some tb"
    and e: "add_in_flight (mark_tombstone (StoreEntry_new now None)) = Some e" "m = put_row t k e (mem_db s1)"
    by (auto simp: remove_impl_def row_of_def split: option.splits)
  have "entry_value e = None" "tombstoned e" using add_in_flight_Some [OF e(1)] by simp_all
  moreover have "row_of m t k = Some e" using row_put [OF assms(1) tb] by (simp add: e(2))
  ultimately show ?thesis
    using assms(2)
    by (simp add: layered_get_def tx_get_def is_tombstoned_def get_no_marked_check_def decode_def s2)
qed

section \<open>Runs by evaluation\<close>

datatype ('k, 'v) call =
    DoPut tname 'k 'v
  | DoDel tname 'k
  | DoClear tname
  | DoBegin
  | DoCommit
  | DoBarrier nat
  | DoWriter bool

definition perform ::
  "nat \<Rightarrow> ('k::linorder, 'v) call \<Rightarrow> ('k, 'v) layered \<Rightarrow> ('k, 'v) action \<times> ('k, 'v) layered" where
  "perform n c st =
    (case c of
       DoPut t k v \<Rightarrow>
        (case (if write_guard st then tx_insert else layered_insert) None 0 t k v st of
           (r, st') \<Rightarrow> (accepted r (Put t k v), st'))
     | DoDel t k \<Rightarrow>
        (case (if write_guard st then tx_remove else layered_remove) None 0 t k st of
           (r, st') \<Rightarrow> (accepted r (Del t k), st'))
     | DoClear t \<Rightarrow>
        (case (if write_guard st then tx_clear_table else layered_clear_table) None t st of
           (r, st') \<Rightarrow> (accepted r (Clr t), st'))
     | DoBegin \<Rightarrow> (Quiet, if write_guard st then tx_drop st else snd (layered_write_txn None st))
     | DoCommit \<Rightarrow> (Quiet, if write_guard st then snd (tx_commit None st) else snd (layered_persist None 0 st))
     | DoBarrier i \<Rightarrow> (Quiet, snd (layered_persist None i st))
     | DoWriter b \<Rightarrow>
        (Quiet, case db_run_step n (\<lambda>_. b) st of
           None \<Rightarrow> snd (layered_persist None 0 st)
         | Some st' \<Rightarrow> st'))"

lemma perform_step:
  assumes "perform n c st = (a, st')"
  shows "layered_step n st a st'"
proof (cases c)
  case (DoPut t k v)
  with assms layered_step.put [of st None 0 t k v] layered_step.txn_put [of st None 0 t k v] show ?thesis
    by (auto simp: perform_def latch_seen_def split: prod.splits if_splits)
next
  case (DoDel t k)
  with assms layered_step.del [of st None 0 t k] layered_step.txn_del [of st None 0 t k] show ?thesis
    by (auto simp: perform_def latch_seen_def split: prod.splits if_splits)
next
  case (DoClear t)
  with assms layered_step.clr [of st None t] layered_step.txn_clr [of st None t] show ?thesis
    by (auto simp: perform_def latch_seen_def split: prod.splits if_splits)
next
  case DoBegin
  with assms layered_step.begin_txn [of st None "fst (layered_write_txn None st)"] layered_step.drop_txn [of st n]
  show ?thesis by (auto simp: perform_def latch_seen_def split: if_splits)
next
  case DoCommit
  with assms layered_step.commit_txn [of st None "fst (tx_commit None st)"]
    layered_step.barrier [of None st 0 "fst (layered_persist None 0 st)"]
  show ?thesis by (auto simp: perform_def latch_seen_def split: if_splits)
next
  case (DoBarrier i)
  with assms layered_step.barrier [of None st i "fst (layered_persist None i st)"]
  show ?thesis by (auto simp: perform_def latch_seen_def)
next
  case (DoWriter b)
  with assms layered_step.writer [of n "\<lambda>_. b" st]
    layered_step.barrier [of None st 0 "fst (layered_persist None 0 st)"]
  show ?thesis by (auto simp: perform_def latch_seen_def split: option.splits)
qed

fun performs ::
  "nat \<Rightarrow> ('k::linorder, 'v) call list \<Rightarrow> ('k, 'v) action list \<Rightarrow> ('k, 'v) layered \<Rightarrow>
    ('k, 'v) action list \<times> ('k, 'v) layered" where
  "performs n [] as st = (as, st)"
| "performs n (c # cs) as st = (case perform n c st of (a, st') \<Rightarrow> performs n cs (as @ [a]) st')"

lemma performs_run:
  "layered_run n s as st \<Longrightarrow> performs n cs as st = (as', st') \<Longrightarrow> layered_run n s as' st'"
proof (induction cs arbitrary: as st)
  case Nil
  then show ?case by simp
next
  case (Cons c cs)
  obtain a st1 where p: "perform n c st = (a, st1)" by (cases "perform n c st")
  from Cons.IH [OF layered_run.step [OF Cons.prems(1) perform_step [OF p]]] Cons.prems(2) show ?case
    by (simp add: p)
qed

section \<open>The example\<close>

definition ex_tier :: "(nat, nat) tier" where
  "ex_tier = (\<lambda>_. [(1, 10), (2, 20)])"

lemma ex_tier_inv: "bt_inv (ex_tier t)"
  by (simp add: ex_tier_def bt_inv_def)

text \<open>An insert and two removals; the insert lands, the first removal fails in the tier.\<close>

definition ex_calls :: "(nat, nat) call list" where
  "ex_calls = [DoPut 0 3 30, DoDel 0 1, DoDel 0 2, DoPut 0 2 21, DoWriter True, DoWriter True, DoWriter True,
     DoWriter True, DoWriter False]"

definition ex_poisoned :: "(nat, nat) layered" where
  "ex_poisoned = snd (performs 8 ex_calls [] (open_layered [0] ex_tier))"

lemma ex_calls_actions:
  "fst (performs 8 ex_calls [] (open_layered [0] ex_tier)) =
    [Put 0 3 30, Del 0 1, Del 0 2, Put 0 2 21, Quiet, Quiet, Quiet, Quiet, Quiet]"
  by code_simp

lemma ex_poisoned_run:
  "layered_run 8 (open_layered [0] ex_tier)
    [Put 0 3 30, Del 0 1, Del 0 2, Put 0 2 21, Quiet, Quiet, Quiet, Quiet, Quiet] ex_poisoned"
  using ex_calls_actions
  by (intro performs_run [OF layered_run.start]) (simp add: ex_poisoned_def prod_eq_iff)

lemma ex_poisoned_fatal: "fatal ex_poisoned = Some RemoveFailed"
  by code_simp

text \<open>A write, a transaction and a barrier that the writer has not seen yet.\<close>

definition ex_backlog :: "(nat, nat) call list" where
  "ex_backlog = [DoPut 0 3 30, DoBegin, DoDel 0 1, DoPut 0 4 40, DoCommit, DoBarrier 7]"

definition ex_busy :: "(nat, nat) layered" where
  "ex_busy = snd (performs 8 ex_backlog [] (open_layered [0] ex_tier))"

lemma ex_backlog_actions:
  "fst (performs 8 ex_backlog [] (open_layered [0] ex_tier)) =
    [Put 0 3 30, Quiet, Del 0 1, Put 0 4 40, Quiet, Quiet]"
  by code_simp

lemma ex_busy_run:
  "layered_run 8 (open_layered [0] ex_tier) [Put 0 3 30, Quiet, Del 0 1, Put 0 4 40, Quiet, Quiet] ex_busy"
  using ex_backlog_actions
  by (intro performs_run [OF layered_run.start]) (simp add: ex_busy_def prod_eq_iff)

lemma ex_busy_chan:
  "chan ex_busy = [WriteOp (KeyValueInsert 0 3 30), StartTxn, WriteOp (KeyRemove 0 1),
    WriteOp (KeyValueInsert 0 4 40), CommitTxn, CaughtUp 7]"
  by code_simp

lemma ex_busy_healthy: "healthy ex_busy"
proof -
  have "fatal ex_busy = None" "\<not> stopped ex_busy" "Option.is_none (txn ex_busy)" by code_simp+
  then show ?thesis by (simp add: healthy_def ex_busy_chan Option.is_none_def)
qed

text \<open>A tier that answers a seek below its first row with its last row.\<close>

definition ex_prior :: "(nat, nat) btree \<Rightarrow> nat \<Rightarrow> (nat \<times> nat) option" where
  "ex_prior rs k =
    (case last_row (filter (\<lambda>(j, _). j < k) rs) of Some r \<Rightarrow> Some r | None \<Rightarrow> last_row rs)"

lemma ex_prior_ok: "prior_ok ex_prior"
  unfolding prior_ok_def
proof (intro allI impI)
  fix rs :: "(nat, nat) btree" and k
  show "floored k (Inr (ex_prior rs k)) = Inr (last_row (filter (\<lambda>(j, _). j < k) rs))"
  proof (cases "filter (\<lambda>(j, _). j < k) rs" rule: rev_cases)
    case Nil
    then have "\<not> fst (last rs) < k" if "rs \<noteq> []"
      using last_in_set [OF that] by (auto simp: filter_empty_conv)
    with Nil show ?thesis by (auto simp: ex_prior_def last_row_def floored_def case_prod_beta)
  next
    case (snoc ys y)
    have "floored k (Inr (last_row (filter (\<lambda>(j, _). j < k) rs))) = Inr (last_row (filter (\<lambda>(j, _). j < k) rs))"
      by (rule floored_last)
    with snoc show ?thesis by (simp add: ex_prior_def last_row_def)
  qed
qed

section \<open>Applications\<close>

theorem layered_reads_exact_witness:
  "fatal ex_poisoned = Some RemoveFailed \<and> tx_get (\<lambda>_ _. None) ex_poisoned 0 1 = Inr None \<and>
    tx_get (\<lambda>_ _. None) ex_poisoned 0 2 = Inr (Some 21) \<and>
    tx_get (\<lambda>_ _. None) ex_poisoned 0 3 = Inr (Some 30)"
  using layered_reads_exact [OF ex_poisoned_run ex_tier_inv, of "\<lambda>_ _. None" 0]
  by (simp add: ex_poisoned_fatal spec_run_def tier_view_def ex_tier_def bt_get_def)

theorem writer_catches_up_witness:
  "\<exists>n st'. run_writer 8 n ex_busy = Some st' \<and> (7, Inr ()) \<in> set (replies st') \<and>
    tier_view (db st') 0 1 = None \<and> tier_view (db st') 0 4 = Some 40 \<and> tier_view (db st') 0 2 = Some 20"
proof -
  from writer_catches_up [OF ex_busy_run ex_tier_inv ex_busy_healthy] obtain n st' where
    r: "run_writer 8 n ex_busy = Some st'"
      "\<forall>i. CaughtUp i \<in> set (chan ex_busy) \<longrightarrow> (i, Inr ()) \<in> set (replies st')"
      "tier_view (db st') = spec_run [Put 0 3 30, Quiet, Del 0 1, Put 0 4 40, Quiet, Quiet] (tier_view ex_tier)"
    by blast
  then have "(7, Inr ()) \<in> set (replies st')" by (simp add: ex_busy_chan)
  with r(1,3) show ?thesis
    by (intro exI [of _ n] exI [of _ st']) (simp add: spec_run_def tier_view_def ex_tier_def bt_get_def)
qed



theorem get_races_with_remove_witness:
  "layered_get (\<lambda>_ _. None) (open_layered [0] ex_tier) (snd (layered_remove None 0 0 1 (open_layered [0] ex_tier)))
    (open_layered [0] ex_tier) (open_layered [0] ex_tier) 0 1 = Inl Panic"
proof -
  have ok: "mem_ok (mem_db (open_layered [0] ex_tier))"
    by (rule run_inv_store [OF open_inv(1) [OF ex_tier_inv]])
  have "row_of (mem_db (open_layered [0] ex_tier)) 0 1 = None"
    by (simp add: open_layered_def open_table_def row_of_def StoreTable_new_def bt_get_def)
  moreover have "fst (layered_remove None 0 0 1 (open_layered [0] ex_tier)) = Inr ()" by code_simp
  then have "layered_remove None 0 0 1 (open_layered [0] ex_tier) =
      (Inr (), snd (layered_remove None 0 0 1 (open_layered [0] ex_tier)))"
    by (simp add: prod_eq_iff)
  ultimately show ?thesis by (rule get_races_with_remove [OF ok, THEN conjunct1])
qed

definition ex_cache :: "(nat, nat) store" where
  "ex_cache = [(0, \<lparr>rows = [(1, \<lparr>entry_value = Some 10, packed = 0, last_used = 5\<rparr>)], clearing = False\<rparr>)]"

theorem eviction_pass_witness:
  "\<exists>s' h' st. evict_if_needed 0 (ex_cache, [(4, 0, 1)]) = ((s', h'), st) \<and> mem_ok s' \<and>
    mem_size s' + stats_evicted st = mem_size ex_cache \<and> (mem_size s' \<le> 0 \<or> h' = [])"
proof -
  have ok: "mem_ok ex_cache" by (simp add: ex_cache_def mem_ok_def table_ok_def bt_inv_def)
  have "mem_size ex_cache = 1" by (simp add: ex_cache_def mem_size_def)
  with eviction_pass [OF ok, of 0 "[(4, 0, 1)]"] show ?thesis by auto
qed

end
