(* ===== verification/Spec2Isabelle.thy ===== *)
theory Spec2Isabelle
  imports Example_Network Certified_Headers Erc20_Safety Layered_Example
begin

text \<open>
  A verification library for the node: its DAG consensus (Narwhal certificates ordered by Bullshark),
  the tables and the layered database that hold the certificates, the hardfork schedule, and the
  native ERC-20 token of its EVM. Paths below are relative to \<open>src/crates\<close>.

  \<^bold>\<open>The program and the theories.\<close> A validator proposes headers, collects votes into certificates,
  accepts the certificates of the others once their parents are there, inserts them into a DAG, and
  commits leaders whose history becomes the ordered output; the output is executed by the EVM.

  \<^item> \<open>Axyl_Prelude\<close>: identifiers, results with errors and panics, ordered maps and their interface
    (locale \<open>ordered_map\<close>, interpreted on sorted association lists), stable sorting.
  \<^item> \<open>Nonce\<close>, \<open>Committee\<close>, \<open>Certificates\<close>, \<open>Sub_Dag\<close>: the data model of
    \<open>infrastructure/types/src\<close> (\<open>nonce.rs\<close>, \<open>committee.rs\<close>, \<open>primary/header.rs\<close>, \<open>vote.rs\<close>,
    \<open>certificate.rs\<close>, \<open>output.rs\<close>, \<open>block.rs\<close>, \<open>reputation.rs\<close>). Thresholds satisfy the interface of
    a quorum system (locale \<open>quorum_system\<close>): two quorums intersect in the validity threshold.
  \<^item> \<open>Leader_Schedule\<close>, \<open>Consensus_State\<close>, \<open>Bullshark\<close>, \<open>Consensus_Bus\<close>, \<open>Consensus_Task\<close>: the
    modules of the same names under \<open>consensus/primary/src/consensus\<close> and \<open>consensus_bus.rs\<close>, from
    the table of leaders to the task that turns certificates into sub-DAGs. \<open>Dag_Ordering\<close> specifies
    the flattening of a leader, \<open>Commit_Safety\<close> holds the invariant of the engine, and
    \<open>Dag_Agreement\<close> and this theory show why two validators commit the same leaders.
    \<open>Example_Network\<close> runs the engine on four authorities.
  \<^item> \<open>Aggregators\<close>, \<open>Pending_Certs\<close>, \<open>Cert_Store\<close>, \<open>Cert_Manager\<close>, \<open>Cert_Validator\<close>,
    \<open>Vote_Handler\<close>: \<open>aggregators\<close>, \<open>state_sync\<close> and \<open>network/handler.rs\<close> of
    \<open>consensus/primary/src\<close>, and \<open>storage/src/stores\<close>. \<open>Cert_Causality\<close> proves the causal order of
    what the certificate task stores and forwards; \<open>Certified_Headers\<close> joins the vote handler and the
    validator: faulty members below the validity threshold cannot get two headers of one author and
    round certified, which the agreement of leaders relies on.
  \<^item> \<open>Mem_Db\<close>, \<open>Layered_Db\<close>: \<open>infrastructure/storage/src/mem_db.rs\<close> and \<open>layered_db.rs\<close>, the cache in
    front of the persistent tier and the background writer. \<open>Layered_Refinement\<close> holds the invariant
    of the cache and that each step keeps it; \<open>Layered_Reads\<close> concludes that reads are exact in every
    run, \<open>Layered_Flush\<close> that the writer catches up, \<open>Layered_Scan\<close> that scans and the walk back agree
    with point reads; \<open>Layered_Example\<close> runs a database and shows a race of the unguarded read.
  \<^item> \<open>Hardforks\<close>: \<open>execution/evm/src/chainspec\<close>, the forks, the schedule of each network and the
    bisection over it.
  \<^item> \<open>Erc20_Abi\<close>, \<open>Native_Erc20\<close>, \<open>Erc20_Dispatch\<close>: \<open>abi.rs\<close>, \<open>storage.rs\<close> and \<open>precompile.rs\<close> of
    \<open>execution/evm/src/native_erc20\<close>, and the dynamic precompile of \<open>evm/factory.rs\<close>. \<open>Erc20_Token\<close>
    states the contract of the token over balances, allowances, supply and nonces, and refines each
    handler to it; \<open>Erc20_Safety\<close> draws the properties of whole calls.

  \<^bold>\<open>How state and effects are modelled.\<close> A struct is a record, an enum a datatype, a handler a
  function from the state to the new state and a result. An error is a value of the result type; a
  panic (a failed \<open>assert!\<close> or \<open>expect\<close>, and an overflow, since the release profile checks overflow
  and aborts) is \<open>None\<close> or \<open>Panic\<close>, so that a theorem that a call returns excludes it. Tasks with a
  select loop, and threads that share a lock, are step relations whose steps are the critical
  sections of the code: \<open>task_step\<close> of the consensus task, \<open>cm_step\<close> of the certificate task, the
  interleaved vote requests of \<open>Vote_Handler\<close>, \<open>layered_step\<close> of the layered database. Machine words
  keep their width where the code computes with them (\<open>Nonce\<close>, the packed word of a cached row, the
  256-bit amounts of the token).

  \<^bold>\<open>Code outside the repository\<close> is a parameter with the laws it promises as hypotheses: the digest
  function with \<open>collision_free\<close> on the headers that occur, BLS verification, the seeded draw of a
  leader (\<open>draw_ok\<close>), the order of a hash set (\<open>iter_ok\<close>), Keccak-256 with \<open>keccak_free\<close>, signature
  recovery, the journal of the EVM (\<open>adapter_ok\<close>, \<open>adapter_total\<close>). The persistent tier under the
  layered database is a map per table whose calls may fail at every step; its seek is a parameter
  with \<open>prior_ok\<close>, and the cold tier is a parameter of each read. Every such hypothesis is discharged
  in a witness by a concrete instance.

  \<^bold>\<open>What the properties show.\<close> Agreement and order: leaders committed by one validator are in the
  leader list of the others, committed sub-DAGs never repeat a certificate and follow one another in
  round and time, flattening yields the reachable certificates once. Votes and certificates: one vote
  per author and round across restarts, no two certified headers, stored certificates carry a quorum,
  parents precede children. The stores: indexes agree with the primary table, scans and reads of the
  layered database equal one map per table under every interleaving and failure, its writer ends
  with the tier holding that map. The token: calls refine its contract, the supply is conserved,
  balances fall only with authority, nonces are used once, gas is bounded. The schedule: each fork is
  activated for exactly one block. Errors: a refused header leaves no trace, and where the code
  falls short (the race of \<open>LayeredDatabase::get\<close>, the shared struct of
  \<open>receiveWithAuthorization\<close>) the property states what it does.

  \<^bold>\<open>Bounds and fuel.\<close> Recursions that are not structural have termination proofs: the level search of
  \<open>linked\<close>, the flattening loop, the cascade over pending certificates, the bisection of the forks,
  and the eviction loop, where an entry can be pushed back and the weight of the heap falls instead
  of its length. \<open>run_writer\<close> takes the number of steps as an argument; \<open>work\<close> bounds the steps that
  empty the backlog. \<open>step_back\<close> takes the number of rows pulled; the rows of both tiers bound it.

  \<^bold>\<open>Not modelled.\<close> Transport, peers and gossip (\<open>consensus/network\<close>), the worker's batch tasks, RPC
  and faucet, start-up and epoch tasks of the orchestrator, and the execution of blocks by reth are
  I/O or wrap libraries. Of modelled modules the following is left out: metrics, logging, timers
  (a timer's event is a step that may happen at any time) and the wake-up of subscribers; the fetch
  tasks behind the certificate validator; the other requests of the network handler; the inspector
  that served the token before the fork \<open>PrecompileGasFix\<close>, and the construction of the EVM; the
  iterators over raw bytes, the pacing of producers and the compaction of the layered database, its
  eviction into the cold tier (\<open>evict_persistent_batch\<close> is defined, but a run does not use it, since
  its contract forbids to insert the key again), and the engines and archive files below it.
\<close>

section \<open>Agreement between validators\<close>

lemma leader_found:
  assumes sched: "leader_certificate draw sched r d1 = Some (a, Some l)"
    and d1: "dag_ok H U c d1" and d2: "dag_ok H U c d2" and cf: "collision_free H U"
    and l: "l \<in> dag_certs d1" "c_round l = r" "origin l = auth_ident a"
    and l': "l' \<in> dag_certs d2" "cert_digest H l' = cert_digest H l" "c_round l' = c_round l"
  shows "leader_certificate draw sched r d2 = Some (a, Some l')"
proof -
  have "wire (c_header l') = wire (c_header l)"
    using cert_ok_digest [OF cf dag_certs_ok(1) [OF d2 l'(1)] dag_certs_ok(1) [OF d1 l(1)] l'(2)] .
  from wire_eqD [OF this] have "origin l' = auth_ident a" using l(3) by simp
  with l'(1) have get: "bt_get (dag_row d2 r) (auth_ident a) = Some (cert_digest H l', l')"
    using l'(3) l(2) by (simp add: in_dag_certs_iff [OF d2])
  moreover have "leader_of draw sched r = Some a" using sched by (auto simp: leader_certificate_def split: option.splits)
  ultimately show ?thesis by (auto simp: leader_certificate_def dag_row_def split: option.splits)
qed

text \<open>C1. Agreement. Take a validator that commits a leader directly: its DAG holds the leader
  certificate of the round and certificates of the next round with the validity threshold of voting
  power that name it as a parent. Let a second validator with the same schedule run
  \<open>order_leaders\<close> from a leader at least two rounds higher, before it has committed that far, on a
  DAG whose certificates carry a quorum of parents and where no author has two headers in a round.
  Then the list it orders contains a certificate with the same digest: the leader is never skipped.\<close>

theorem leaders_agree:
  assumes cf: "collision_free H U" and draw: "draw_ok draw"
    and b: "bull_ok b1" "bull_ok b2" "b_committee b2 = b_committee b1" "b_schedule b2 = b_schedule b1"
    and ok: "dag_ok H U (b_committee b1) (the_dag s1)" "state_ok H U (b_committee b1) s2"
    and ne: "no_equivocation (the_dag s1) (the_dag s2)"
    and ldr: "leader_certificate draw (b_schedule b1) r (the_dag s1) = Some (a, Some l)" "even r"
    and row: "bt_get (the_dag s1) (r + 1) = Some row"
    and supp: "validity_threshold (b_committee b1) \<le> leader_support H (b_committee b1) l row"
    and quorums: "\<forall>y\<in>dag_certs (the_dag s2). r + 1 < c_round y \<longrightarrow> parents_quorum H (b_committee b1) (the_dag s2) y"
    and present: "\<forall>y\<in>dag_certs (the_dag s2). c_round y = r + 1 \<longrightarrow> parents_present H (the_dag s2) y"
    and top: "x \<in> dag_certs (the_dag s2)" "r + 2 \<le> c_round x" "committed_round (last_round s2) + 2 \<le> r"
    and out: "order_leaders H draw b2 x s2 = Some out"
  shows "\<exists>l'\<in>set out. cert_digest H l' = cert_digest H l"
proof -
  let ?c = "b_committee b1" and ?d1 = "the_dag s1" and ?d2 = "the_dag s2"
  have d2: "dag_ok H U ?c ?d2" using ok(2) by (simp add: state_ok_def)
  have c: "committee_ok ?c" using b(1) by (auto simp: bull_ok_def schedule_ok_def)
  have l: "l \<in> dag_certs ?d1" "c_round l = r" "origin l = auth_ident a"
    using leader_certificate_ok [OF b(1) draw ldr(2) ok(1)] ldr(1) by auto
  note link = supported_leader_linked [OF c cf ok(1) d2 ne, of l row, unfolded l(2), OF row supp quorums present]
  from link [OF top(1,2)] obtain l' where l': "l' \<in> dag_certs ?d2" "cert_digest H l' = cert_digest H l" "c_round l' = r"
    by blast
  have "linked H y l' ?d2" if "y \<in> dag_certs ?d2" "c_round l' + 2 \<le> c_round y" for y
  proof -
    from link [OF that(1)] that(2) obtain l2 where l2: "l2 \<in> dag_certs ?d2" "cert_digest H l2 = cert_digest H l"
      "c_round l2 = r" "(link H ?d2)\<^sup>*\<^sup>* y l2" unfolding l'(3) by blast
    note found = leader_found [OF ldr(1) ok(1) d2 cf l]
    have "leader_certificate draw (b_schedule b1) r ?d2 = Some (a, Some l2)" by (rule found) (use l2 l(2) in simp_all)
    moreover have "leader_certificate draw (b_schedule b1) r ?d2 = Some (a, Some l')" by (rule found) (use l' l(2) in simp_all)
    ultimately have "l2 = l'" by simp
    then show ?thesis using l2 linked_iff_path [OF cf d2 that(1) l'(1)] that(2) l'(3) by simp
  qed
  moreover have "leader_certificate draw (b_schedule b2) (c_round l') ?d2 = Some (a, Some l')"
    using leader_found [OF ldr(1) ok(1) d2 cf l l'(1,2)] l' l(2) b(4) by simp
  ultimately have "l' \<in> set out"
    using order_leaders_finds [of draw b2 l' s2 a H U x out] b(2,3) draw ok(2) top l'(3) ldr(2) out by simp
  with l'(2) show ?thesis by blast
qed

theorem leaders_agree_witness:
  "\<exists>l'\<in>set [ex_cert 2 1, ex_cert 4 1]. cert_digest ex_hash l' = cert_digest ex_hash (ex_cert 2 1)"
proof (rule leaders_agree [OF ex_collision_free ex_draw_ok])
  show "bull_ok ex_bull3" "bull_ok ex_bull" using ex_bull_ok by (simp_all add: ex_bull3_def)
  show "b_committee ex_bull = b_committee ex_bull3" "b_schedule ex_bull = b_schedule ex_bull3"
    by (simp_all add: ex_bull3_def)
  have c: "b_committee ex_bull3 = ex_committee" "b_schedule ex_bull3 = ex_schedule"
    by (simp_all add: ex_bull3_def ex_bull_def bullshark_new_def)
  show "dag_ok ex_hash ex_wires (b_committee ex_bull3) (the_dag ex_state2)"
    "state_ok ex_hash ex_wires (b_committee ex_bull3) ex_state4"
    unfolding c by (rule ex_dag2_ok, rule ex_state4_ok)
  show "no_equivocation (the_dag ex_state2) (the_dag ex_state4)" by (rule ex_no_equivocation)
  show "leader_certificate ex_draw (b_schedule ex_bull3) 2 (the_dag ex_state2) = Some (ex_authority 1, Some (ex_cert 2 1))"
    unfolding c by (rule ex_leader)
  show "even (2::nat)" by simp
  show "bt_get (the_dag ex_state2) (2 + 1) = Some (ex_row 3 [1, 2])" by (simp add: ex_unfold)
  show "validity_threshold (b_committee ex_bull3)
      \<le> leader_support ex_hash (b_committee ex_bull3) (ex_cert 2 1) (ex_row 3 [1, 2])"
    unfolding c ex_support by (simp add: ex_thresholds)
  show "\<forall>y\<in>dag_certs (the_dag ex_state4). 2 + 1 < c_round y \<longrightarrow>
      parents_quorum ex_hash (b_committee ex_bull3) (the_dag ex_state4) y"
    unfolding c ex_dag_certs4 using ex_parents_quorum by simp
  show "\<forall>y\<in>dag_certs (the_dag ex_state4). c_round y = 2 + 1 \<longrightarrow> parents_present ex_hash (the_dag ex_state4) y"
    unfolding ex_dag_certs4 using ex_parents_present by simp
  show "ex_cert 4 1 \<in> dag_certs (the_dag ex_state4)" unfolding ex_dag_certs4 by simp
  show "2 + 2 \<le> c_round (ex_cert 4 1)" by simp
  show "committed_round (last_round ex_state4) + 2 \<le> 2" by (simp add: ex_state4_def state_new_def)
  show "order_leaders ex_hash ex_draw ex_bull (ex_cert 4 1) ex_state4 = Some [ex_cert 2 1, ex_cert 4 1]"
    by (rule ex_order_leaders4)
qed

section \<open>The sequence of committed sub-DAGs\<close>

definition ex_task :: consensus_task where
  "ex_task = \<lparr>ct_committee = ex_committee, ct_bull = ex_bull, ct_state = ex_state, ct_active = True,
    highest_seen_round = 3\<rparr>"

lemma ex_task_ok: "task_ok ex_hash ex_wires ex_task ex_bus"
proof -
  have "history_ok ex_state [] \<and> subseq (sequence_ch ex_bus) []" by (simp add: ex_bus_def)
  then have "\<exists>outs. history_ok ex_state outs \<and> subseq (sequence_ch ex_bus) outs" by blast
  moreover have "b_committee ex_bull = ex_committee" by (simp add: ex_bull_def bullshark_new_def)
  ultimately show ?thesis using ex_bull_ok ex_state_ok by (simp add: task_ok_def ex_task_def)
qed

lemma ex_task_commits:
  "\<exists>t' bus' sd. task_step ex_hash ex_wires ex_draw (ex_task, ex_bus) (t', bus') \<and> sequence_ch bus' = [sd]
    \<and> certificates sd = [ex_cert 1 1, ex_cert 1 2, ex_cert 1 3, ex_cert 2 1]"
proof -
  have c: "cert_ok ex_hash ex_wires (ct_committee ex_task) (ex_cert 3 2)" using ex_cert_ok by (simp add: ex_task_def)
  from new_certificate_ok [OF ex_collision_free ex_draw_ok ex_task_ok c, of "\<lambda>_. True" True]
  obtain t' bus' res where n: "new_certificate ex_hash ex_draw (\<lambda>_. True) True ex_task ex_bus (ex_cert 3 2) = Some (t', bus', res)"
    by blast
  obtain b' s' sd where p: "process_certificate ex_hash ex_draw ex_bull ex_state (ex_cert 3 2) = Some (b', s', Inr (Commit, [sd]))"
    and sd: "certificates sd = [ex_cert 1 1, ex_cert 1 2, ex_cert 1 3, ex_cert 2 1]"
    using ex_commit by blast
  have "sequence_ch bus' = [sd] \<and> res = Inr ()"
    using n by (auto simp: new_certificate_def ex_task_def p sd Let_def ex_bus_def update_consensus_rounds_def
        ex_committee_def split: if_splits)
  moreover from this have "task_step ex_hash ex_wires ex_draw (ex_task, ex_bus) (t', bus')"
    using step_certificate [OF c, of ex_draw "\<lambda>_. True" True ex_bus t' bus'] n by (simp add: ex_task_def)
  ultimately show ?thesis using sd by blast
qed

text \<open>C4. On every reachable state of the consensus task, the sub-DAGs sent to the subscriber never
  repeat a certificate (no author and round occurs twice), their leader rounds strictly increase and
  their commit timestamps never decrease; this holds over all orders of incoming certificates and of
  timer-driven garbage collections.\<close>

theorem sequence_order:
  assumes "collision_free H U" "draw_ok draw" "(task_step H U draw)\<^sup>*\<^sup>* (t, bus) (t', bus')"
    and "bull_ok (ct_bull t)" "b_committee (ct_bull t) = ct_committee t" "state_ok H U (ct_committee t) (ct_state t)"
    and "sequence_ch bus = []"
  shows "distinct (committed_keys (sequence_ch bus')) \<and> sorted_wrt (<) (map leader_round (sequence_ch bus'))
    \<and> sorted (map sub_dag_ts (sequence_ch bus'))"
proof -
  have "task_ok H U t bus" unfolding task_ok_def using assms(4-) by (auto intro: exI [of _ "[]"])
  from task_reachable_ok [OF assms(1-3)] this have "task_ok H U t' bus'" by simp
  from task_ok_sequence [OF this] show ?thesis by simp
qed

theorem sequence_order_witness:
  "\<exists>t' bus' sd. (task_step ex_hash ex_wires ex_draw)\<^sup>*\<^sup>* (ex_task, ex_bus) (t', bus') \<and> sequence_ch bus' = [sd]
    \<and> certificates sd = [ex_cert 1 1, ex_cert 1 2, ex_cert 1 3, ex_cert 2 1]
    \<and> distinct (committed_keys (sequence_ch bus')) \<and> sorted_wrt (<) (map leader_round (sequence_ch bus'))
    \<and> sorted (map sub_dag_ts (sequence_ch bus'))"
proof -
  obtain t' bus' sd where step: "task_step ex_hash ex_wires ex_draw (ex_task, ex_bus) (t', bus')"
    and sd: "sequence_ch bus' = [sd]" "certificates sd = [ex_cert 1 1, ex_cert 1 2, ex_cert 1 3, ex_cert 2 1]"
    using ex_task_commits by blast
  have run: "(task_step ex_hash ex_wires ex_draw)\<^sup>*\<^sup>* (ex_task, ex_bus) (t', bus')" using step by (rule r_into_rtranclp)
  have f: "ct_bull ex_task = ex_bull" "ct_committee ex_task = ex_committee" "ct_state ex_task = ex_state"
    "b_committee ex_bull = ex_committee" "sequence_ch ex_bus = []"
    by (simp_all add: ex_task_def ex_bull_def bullshark_new_def ex_bus_def)
  have "distinct (committed_keys (sequence_ch bus')) \<and> sorted_wrt (<) (map leader_round (sequence_ch bus'))
    \<and> sorted (map sub_dag_ts (sequence_ch bus'))"
    by (rule sequence_order [OF ex_collision_free ex_draw_ok run]) (simp_all add: f ex_bull_ok ex_state_ok)
  with run sd show ?thesis by blast
qed

text \<open>C14. The certificate handler of the consensus task returns on every certificate of a committee
  member: no panic of the protocol, no failed assertion on the committed round, and the retry loop
  over schedule changes ends. The invariant of the task holds again afterwards.\<close>

theorem new_certificate_total:
  assumes "collision_free H U" "draw_ok draw" "task_ok H U t bus" "cert_ok H U (ct_committee t) x"
  shows "\<exists>t' bus' res. new_certificate H draw executed open_ch t bus x = Some (t', bus', res) \<and> task_ok H U t' bus'"
  using new_certificate_ok [OF assms] by blast

theorem new_certificate_total_witness:
  "\<exists>t' bus' res. new_certificate ex_hash ex_draw (\<lambda>_. True) True ex_task ex_bus (ex_cert 3 2) = Some (t', bus', res)
    \<and> task_ok ex_hash ex_wires t' bus'"
  by (rule new_certificate_total [OF ex_collision_free ex_draw_ok ex_task_ok]) (simp add: ex_cert_ok ex_task_def)

section \<open>The commit rule\<close>

text \<open>C15. The ordering engine on any certificate of a committee member, from any well-formed state that
  has already committed the sub-DAGs \<open>outs\<close>: it returns, never with the internal outcome
  \<open>ScheduleChanged\<close>, the state and the engine are well-formed again, and the sub-DAGs it adds
  continue the history without a repeated certificate and with rising leader rounds.\<close>

theorem process_certificate_commits:
  assumes "collision_free H U" "draw_ok draw" "bull_ok b" "state_ok H U (b_committee b) s"
    and "cert_ok H U (b_committee b) x" "history_ok s outs"
  shows "\<exists>b' s' res. process_certificate H draw b s x = Some (b', s', res) \<and> bull_ok b'
    \<and> state_ok H U (b_committee b) s'
    \<and> history_ok s' (outs @ (case res of Inl _ \<Rightarrow> [] | Inr (_, sds) \<Rightarrow> sds))
    \<and> (\<forall>sds. res \<noteq> Inr (ScheduleChanged, sds))"
proof -
  from process_certificate_ok [OF assms(1-5)] obtain b' s1 s' res where
    r: "process_certificate H draw b s x = Some (b', s', res)" "bull_ok b'" "state_ok H U (b_committee b) s'"
      "s1 = s \<or> s1 = s\<lparr>the_dag := dag_put H x (the_dag s)\<rparr>"
      "commits H s1 (case res of Inl _ \<Rightarrow> [] | Inr (_, sds) \<Rightarrow> sds) s'"
      "\<forall>out sds. res = Inr (out, sds) \<longrightarrow> out \<noteq> ScheduleChanged" by blast
  have "history_ok s1 outs" using r(4) assms(6) by auto
  from history_ok_commits [OF r(5) this] r(1-3,6) show ?thesis by blast
qed

theorem process_certificate_commits_witness:
  "\<exists>b' s' res. process_certificate ex_hash ex_draw ex_bull ex_state (ex_cert 3 2) = Some (b', s', res) \<and> bull_ok b'
    \<and> state_ok ex_hash ex_wires ex_committee s'
    \<and> history_ok s' ([] @ (case res of Inl _ \<Rightarrow> [] | Inr (_, sds) \<Rightarrow> sds))
    \<and> (\<forall>sds. res \<noteq> Inr (ScheduleChanged, sds))"
proof -
  have "b_committee ex_bull = ex_committee" by (simp add: ex_bull_def bullshark_new_def)
  then show ?thesis
    using process_certificate_commits [OF ex_collision_free ex_draw_ok ex_bull_ok, of ex_state "ex_cert 3 2" "[]"]
    by (simp add: ex_state_ok ex_cert_ok)
qed

text \<open>C16. Flattening a leader: the result of \<open>order_dag\<close> holds exactly the certificates that the
  leader reaches through parent links and that are neither committed nor below the garbage
  collection bound, each once, ordered by round and digest.\<close>

theorem order_dag_flattens:
  assumes "collision_free H U" "dag_ok H U c (the_dag s)" "ldr \<in> dag_certs (the_dag s)"
  shows "\<exists>seq. order_dag H ldr s = Some seq \<and> set seq = sub_dag_of s ldr
    \<and> distinct (map (cert_digest H) seq) \<and> sorted_wrt (seq_le H) seq"
  by (rule order_dag_spec [OF assms])

theorem order_dag_flattens_witness:
  "sub_dag_of ex_state2 (ex_cert 2 1) = {ex_cert 1 1, ex_cert 1 2, ex_cert 1 3, ex_cert 2 1}"
proof -
  have "ex_cert 2 1 \<in> dag_certs (the_dag ex_state2)" unfolding ex_dag_certs2 by simp
  from order_dag_flattens [OF ex_collision_free ex_dag2_ok this] ex_order_dag show ?thesis by auto
qed

text \<open>C17. The level-by-level search of \<open>linked\<close> decides reachability: it answers true exactly when
  a chain of parent links inside the DAG leads from the newer certificate to the older one.\<close>

theorem linked_is_path:
  assumes "collision_free H U" "dag_ok H U c d" "x \<in> dag_certs d" "y \<in> dag_certs d" "c_round y \<le> c_round x"
  shows "linked H x y d \<longleftrightarrow> (link H d)\<^sup>*\<^sup>* x y"
  by (rule linked_iff_path [OF assms])

theorem linked_is_path_witness: "(link ex_hash (the_dag ex_state4))\<^sup>*\<^sup>* (ex_cert 4 1) (ex_cert 2 1)"
proof -
  have "dag_ok ex_hash ex_wires ex_committee (the_dag ex_state4)" using ex_state4_ok by (simp add: state_ok_def)
  moreover have "ex_cert 4 1 \<in> dag_certs (the_dag ex_state4)" "ex_cert 2 1 \<in> dag_certs (the_dag ex_state4)"
    unfolding ex_dag_certs4 by simp_all
  ultimately show ?thesis 
    using linked_is_path [OF ex_collision_free, of ex_committee "the_dag ex_state4" "ex_cert 4 1" "ex_cert 2 1"] ex_linked4 by simp
qed

end
